(* ===== verification/Prelude.thy ===== *)
theory Prelude
  imports Complex_Main "HOL-Library.Word"
begin

text \<open>
  Shared vocabulary of the development: the exceptions of \<^verbatim>\<open>include/utils/exceptions.h\<close> as a
  datatype, fallible computations as sums, stateful fallible computations as state transformers
  that keep the state reached when an exception leaves them, machine-integer types, little-endian
  byte codecs and the list lemmas the storage components share.
\<close>

unbundle bit_operations_syntax

section \<open>Machine integers, bytes and strings\<close>

type_synonym u8 = "8 word"
type_synonym u16 = "16 word"
type_synonym u32 = "32 word"
type_synonym u64 = "64 word"
type_synonym i64 = "64 word"
type_synonym bytes = "u8 list"

section \<open>Exceptions\<close>

text \<open>
  The exception classes the program throws, with their message. \<open>OutOfRange\<close>,
  \<open>InvalidArgument\<close> and \<open>FilesystemError\<close> are the standard library's; \<open>UndefinedBehaviour\<close> marks an
  access outside a buffer, which C++ leaves undefined: no theorem relies on its outcome; \<open>Halted\<close> is
  the process stopping in the middle of a file operation, which no handler sees.
\<close>

datatype db_error =
    ParseException string
  | ConstraintException string
  | TypeException string
  | NotFoundException string
  | InvalidOperationException string
  | StorageException string
  | DeadlockException string
  | OutOfRange string
  | InvalidArgument string
  | FilesystemError string
  | UndefinedBehaviour
  | Halted

fun is_storage_exception :: "db_error \<Rightarrow> bool" where
  "is_storage_exception (StorageException _) = True"
| "is_storage_exception _ = False"

section \<open>Fallible computations\<close>

type_synonym 'a result = "db_error + 'a"

definition bindR :: "'a result \<Rightarrow> ('a \<Rightarrow> 'b result) \<Rightarrow> 'b result" where
  "bindR m f = (case m of Inl e \<Rightarrow> Inl e | Inr x \<Rightarrow> f x)"

fun mapR :: "('a \<Rightarrow> 'b result) \<Rightarrow> 'a list \<Rightarrow> 'b list result" where
  "mapR f [] = Inr []"
| "mapR f (x # xs) = bindR (f x) (\<lambda>y. bindR (mapR f xs) (\<lambda>ys. Inr (y # ys)))"

text \<open>
  A method of an object with state \<open>'s\<close>: it returns a value or throws, and in both cases leaves
  a state behind, so that what a throwing method has already changed stays changed.
\<close>

type_synonym ('s, 'a) proc = "'s \<Rightarrow> 'a result \<times> 's"

definition ret :: "'a \<Rightarrow> ('s, 'a) proc" where
  "ret x s = (Inr x, s)"

definition throw :: "db_error \<Rightarrow> ('s, 'a) proc" where
  "throw e s = (Inl e, s)"

definition bindM :: "('s, 'a) proc \<Rightarrow> ('a \<Rightarrow> ('s, 'b) proc) \<Rightarrow> ('s, 'b) proc" where
  "bindM m f s = (case m s of (Inl e, t) \<Rightarrow> (Inl e, t) | (Inr x, t) \<Rightarrow> f x t)"

definition catchM :: "('s, 'a) proc \<Rightarrow> (db_error \<Rightarrow> ('s, 'a) proc) \<Rightarrow> ('s, 'a) proc" where
  "catchM m h s = (case m s of (Inl e, t) \<Rightarrow> h e t | (Inr x, t) \<Rightarrow> (Inr x, t))"

definition readM :: "('s \<Rightarrow> 'a) \<Rightarrow> ('s, 'a) proc" where
  "readM f s = (Inr (f s), s)"

definition modifyM :: "('s \<Rightarrow> 's) \<Rightarrow> ('s, unit) proc" where
  "modifyM f s = (Inr (), f s)"

definition liftR :: "'a result \<Rightarrow> ('s, 'a) proc" where
  "liftR r s = (r, s)"

fun forM :: "('a \<Rightarrow> ('s, unit) proc) \<Rightarrow> 'a list \<Rightarrow> ('s, unit) proc" where
  "forM f [] = ret ()"
| "forM f (x # xs) = bindM (f x) (\<lambda>_. forM f xs)"

named_theorems method_simps "unfolding of the state-and-exception combinators"
named_theorems codec_simps "byte-level encoders and decoders"
named_theorems invar_intros "operations keep their component's invariant"

section \<open>Little-endian codecs\<close>

fun le_bytes :: "nat \<Rightarrow> 'a::len word \<Rightarrow> bytes" where
  "le_bytes 0 w = []"
| "le_bytes (Suc n) w = ucast w # le_bytes n (drop_bit 8 w)"

fun le_word :: "bytes \<Rightarrow> 'a::len word" where
  "le_word [] = 0"
| "le_word (b # bs) = ucast b OR push_bit 8 (le_word bs)"

definition string_bytes :: "string \<Rightarrow> bytes" where
  "string_bytes s = map of_char s"

definition bytes_string :: "bytes \<Rightarrow> string" where
  "bytes_string bs = map (\<lambda>b. char_of (unat b)) bs"

section \<open>Buffers\<close>

text \<open>
  \<open>slice xs off n\<close> is the range \<open>[off, off + n)\<close> of a buffer and \<open>splice xs off ys\<close> the buffer
  after copying \<open>ys\<close> to \<open>off\<close>; \<open>memread\<close> and \<open>memwrite\<close> are the checked versions.
\<close>

definition slice :: "'a list \<Rightarrow> nat \<Rightarrow> nat \<Rightarrow> 'a list" where
  "slice xs off n = take n (drop off xs)"

definition splice :: "'a list \<Rightarrow> nat \<Rightarrow> 'a list \<Rightarrow> 'a list" where
  "splice xs off ys = take off xs @ ys @ drop (off + length ys) xs"

definition memread :: "'a list \<Rightarrow> nat \<Rightarrow> nat \<Rightarrow> 'a list result" where
  "memread xs off n = (if off + n \<le> length xs then Inr (slice xs off n) else Inl UndefinedBehaviour)"

definition memwrite :: "'a list \<Rightarrow> nat \<Rightarrow> 'a list \<Rightarrow> 'a list result" where
  "memwrite xs off ys =
     (if off + length ys \<le> length xs then Inr (splice xs off ys) else Inl UndefinedBehaviour)"

section \<open>Lemmas\<close>

lemma bindR_simps [simp]:
  "bindR (Inl e) f = Inl e"
  "bindR (Inr x) f = f x"
  by (simp_all add: bindR_def)

lemma bindR_eq_Inr: "bindR m f = Inr y \<longleftrightarrow> (\<exists>x. m = Inr x \<and> f x = Inr y)"
  by (cases m) auto

lemma bindR_eq_Inl: "bindR m f = Inl e \<longleftrightarrow> m = Inl e \<or> (\<exists>x. m = Inr x \<and> f x = Inl e)"
  by (cases m) auto

lemma mapR_eq_Inr_iff: "mapR f xs = Inr ys \<longleftrightarrow> list_all2 (\<lambda>x y. f x = Inr y) xs ys"
  by (induction xs arbitrary: ys) (auto simp: bindR_eq_Inr list_all2_Cons1)

lemma mapR_Inr_map: "(\<And>x. x \<in> set xs \<Longrightarrow> f x = Inr (g x)) \<Longrightarrow> mapR f xs = Inr (map g xs)"
  by (induction xs) auto

lemma ret_apply [simp, method_simps]: "ret x s = (Inr x, s)"
  by (simp add: ret_def)

lemma throw_apply [simp, method_simps]: "throw e s = (Inl e, s)"
  by (simp add: throw_def)

lemma readM_apply [simp, method_simps]: "readM f s = (Inr (f s), s)"
  by (simp add: readM_def)

lemma modifyM_apply [simp, method_simps]: "modifyM f s = (Inr (), f s)"
  by (simp add: modifyM_def)

lemma liftR_apply [simp, method_simps]: "liftR r s = (r, s)"
  by (simp add: liftR_def)

lemma bindM_Inr: "m s = (Inr x, t) \<Longrightarrow> bindM m f s = f x t"
  by (simp add: bindM_def)

lemma bindM_Inl: "m s = (Inl e, t) \<Longrightarrow> bindM m f s = (Inl e, t)"
  by (simp add: bindM_def)

lemma bindM_eq_Inr:
  "bindM m f s = (Inr y, u) \<longleftrightarrow> (\<exists>x t. m s = (Inr x, t) \<and> f x t = (Inr y, u))"
  by (auto simp: bindM_def split: prod.splits sum.splits)

lemma bindM_eq_Inl:
  "bindM m f s = (Inl e, u) \<longleftrightarrow>
     m s = (Inl e, u) \<or> (\<exists>x t. m s = (Inr x, t) \<and> f x t = (Inl e, u))"
  by (auto simp: bindM_def split: prod.splits sum.splits)

lemma catchM_Inr: "m s = (Inr x, t) \<Longrightarrow> catchM m h s = (Inr x, t)"
  by (simp add: catchM_def)

lemma catchM_Inl: "m s = (Inl e, t) \<Longrightarrow> catchM m h s = h e t"
  by (simp add: catchM_def)

lemma catchM_eq_Inr:
  "catchM m h s = (Inr y, u) \<longleftrightarrow>
     m s = (Inr y, u) \<or> (\<exists>e t. m s = (Inl e, t) \<and> h e t = (Inr y, u))"
  by (auto simp: catchM_def split: prod.splits sum.splits)

lemmas method_defs = bindM_def catchM_def

lemma length_le_bytes [simp]: "length (le_bytes n w) = n"
  by (induction n arbitrary: w) auto

lemma le_word_le_bytes:
  fixes w :: "'a::len word"
  shows "le_word (le_bytes n w) = take_bit (8 * n) w"
proof (induction n arbitrary: w)
  case 0
  then show ?case by simp
next
  case (Suc n)
  have "(le_word (le_bytes (Suc n) w) :: 'a word) =
      ucast (ucast w :: u8) OR push_bit 8 (take_bit (8 * n) (drop_bit 8 w))"
    by (simp add: Suc.IH)
  also have "\<dots> = take_bit (8 * Suc n) w"
    by (rule bit_word_eqI)
      (auto simp: bit_simps le_diff_conv2 algebra_simps not_le)
  finally show ?case .
qed

lemma le_word_le_bytes_full [codec_simps]:
  fixes w :: "'a::len word"
  shows "LENGTH('a) \<le> 8 * n \<Longrightarrow> le_word (le_bytes n w) = w"
  by (simp add: le_word_le_bytes take_bit_word_eq_self)

lemma unat_of_char_u8 [simp]: "unat (of_char c :: u8) = of_char c"
proof -
  have "(of_char c :: u8) = of_nat (of_char c)"
    by (simp add: of_nat_of_char)
  moreover have "(of_char c :: nat) < 256"
    by simp
  ultimately show ?thesis
    by (simp add: unat_of_nat take_bit_nat_eq_self)
qed

lemma bytes_string_inverse [simp]: "bytes_string (string_bytes s) = s"
  by (simp add: bytes_string_def string_bytes_def comp_def)

lemma length_string_bytes [simp]: "length (string_bytes s) = length s"
  by (simp add: string_bytes_def)

lemma length_slice [simp]: "off + n \<le> length xs \<Longrightarrow> length (slice xs off n) = n"
  by (simp add: slice_def)

lemma length_splice [simp]: "off + length ys \<le> length xs \<Longrightarrow> length (splice xs off ys) = length xs"
  by (simp add: splice_def)

lemma slice_splice_same [simp]:
  "off + length ys \<le> length xs \<Longrightarrow> n = length ys \<Longrightarrow> slice (splice xs off ys) off n = ys"
  by (simp add: slice_def splice_def)

lemma nth_splice:
  "off + length ys \<le> length xs \<Longrightarrow> i < length xs \<Longrightarrow>
     splice xs off ys ! i = (if off \<le> i \<and> i < off + length ys then ys ! (i - off) else xs ! i)"
  by (auto simp: splice_def nth_append min_def)

lemma slice_splice_disjoint:
  assumes "off + length ys \<le> length xs" and "off' + n \<le> length xs"
    and "off' + n \<le> off \<or> off + length ys \<le> off'"
  shows "slice (splice xs off ys) off' n = slice xs off' n"
proof (rule nth_equalityI)
  show "length (slice (splice xs off ys) off' n) = length (slice xs off' n)"
    using assms by (simp add: slice_def)
next
  fix i assume "i < length (slice (splice xs off ys) off' n)"
  then have "i < n" using assms by (simp add: slice_def)
  then show "slice (splice xs off ys) off' n ! i = slice xs off' n ! i"
    using assms by (auto simp: slice_def nth_splice)
qed

lemma slice_nth: "i < n \<Longrightarrow> off + n \<le> length xs \<Longrightarrow> slice xs off n ! i = xs ! (off + i)"
  by (simp add: slice_def)

lemma le_bytes_conv_map: "le_bytes n w = map (\<lambda>i. ucast (drop_bit (8 * i) w)) [0..<n]"
proof (induction n arbitrary: w)
  case 0
  then show ?case by simp
next
  case (Suc n)
  have "map (\<lambda>i. ucast (drop_bit (8 * i) w) :: u8) [0..<Suc n] =
      ucast w # map (\<lambda>i. ucast (drop_bit (8 * Suc i) w)) [0..<n]"
    by (simp only: upt_conv_Cons [of 0 "Suc n"] map_Suc_upt [symmetric]) (simp add: comp_def)
  then show ?case
    by (simp add: Suc.IH drop_bit_drop_bit add.commute)
qed

lemma le_word_snoc:
  "(le_word (bs @ [b]) :: 'a::len word) = le_word bs OR push_bit (8 * length bs) (ucast b)"
  by (induction bs) (simp_all add: push_bit_or push_bit_push_bit or.assoc)

lemma foldl_or_le_word:
  "k + n \<le> length bs \<Longrightarrow>
     foldl (\<lambda>v i. v OR push_bit (8 * i) (ucast (bs ! (i + k)))) (0 :: 'a::len word) [0..<n] =
     le_word (slice bs k n)"
proof (induction n)
  case 0
  then show ?case by (simp add: slice_def)
next
  case (Suc n)
  have "slice bs k (Suc n) = slice bs k n @ [bs ! (n + k)]"
    using Suc.prems by (simp add: slice_def take_Suc_conv_app_nth add.commute)
  then show ?case
    using Suc by (simp add: le_word_snoc)
qed

lemma and_byte_mask: "x AND 0xFF = take_bit 8 (x :: 'a::len word)"
proof -
  have "(0xFF :: 'a word) = mask 8" by (simp add: mask_eq_exp_minus_1)
  then show ?thesis by (simp add: take_bit_eq_mask)
qed

lemma ucast_take_byte: "(ucast (take_bit 8 (w :: 'a::len word)) :: u8) = ucast w"
  by (rule bit_word_eqI) (simp add: bit_simps)

lemma ucast_signed_byte:
  "k + 8 \<le> 64 \<Longrightarrow> (ucast (signed_drop_bit k (w :: i64)) :: u8) = ucast (drop_bit k w)"
  by (rule bit_word_eqI) (auto simp: bit_simps)

lemma serialize_u32_bytes:
  "map (\<lambda>i. ucast (drop_bit (8 * i) (len :: 'a::len word) AND 0xFF)) [0..<n] = le_bytes n len"
  by (simp add: le_bytes_conv_map and_byte_mask ucast_take_byte)

lemma serialize_i64_bytes:
  "map (\<lambda>i. ucast (signed_drop_bit (8 * i) (w :: i64) AND 0xFF)) [0..<8] = le_bytes 8 w"
  unfolding le_bytes_conv_map and_byte_mask ucast_take_byte
  by (rule map_cong) (auto simp: ucast_signed_byte)

lemma slice_append_exact: "length xs = k \<Longrightarrow> length ys = n \<Longrightarrow> slice (xs @ ys @ zs) k n = ys"
  by (simp add: slice_def)

lemma slice_Cons_exact: "length ys = n \<Longrightarrow> slice (x # ys @ zs) 1 n = ys"
  by (simp add: slice_def)

end
