(* ===== verification/Doubles.thy ===== *)
theory Doubles
  imports Prelude "HOL-Library.Char_ord" "HOL-Library.List_Lexorder"
begin

text \<open>
  What the program uses of the C++ arithmetic types and their text conversions: IEEE 754 binary64
  values as bit patterns with exact comparison and round-to-nearest-even arithmetic, the
  conversions between \<^verbatim>\<open>double\<close> and \<^verbatim>\<open>int64_t\<close>, the default stream format of both, and the
  parsers \<^verbatim>\<open>std::stoll\<close> and \<^verbatim>\<open>std::stod\<close>. Every finite double is an integral multiple of
  \<open>2 ^ - 1074\<close>, so magnitudes are natural numbers in that unit and all arithmetic is exact until
  the final rounding.
\<close>

type_synonym double = "64 word"

section \<open>Decoding\<close>

definition d_neg :: "double \<Rightarrow> bool" where
  "d_neg w = bit w 63"

definition d_exponent :: "double \<Rightarrow> nat" where
  "d_exponent w = unat w div 2 ^ 52 mod 2048"

definition d_fraction :: "double \<Rightarrow> nat" where
  "d_fraction w = unat w mod 2 ^ 52"

definition d_is_nan :: "double \<Rightarrow> bool" where
  "d_is_nan w = (d_exponent w = 2047 \<and> d_fraction w \<noteq> 0)"

definition d_is_inf :: "double \<Rightarrow> bool" where
  "d_is_inf w = (d_exponent w = 2047 \<and> d_fraction w = 0)"

text \<open>Infinity decodes to \<open>2 ^ 2098\<close>, above every finite magnitude.\<close>

definition d_magnitude :: "double \<Rightarrow> nat" where
  "d_magnitude w =
     (if d_exponent w = 0 then d_fraction w
      else (2 ^ 52 + d_fraction w) * 2 ^ (d_exponent w - 1))"

definition d_key :: "double \<Rightarrow> int" where
  "d_key w = (if d_neg w then - int (d_magnitude w) else int (d_magnitude w))"

definition d_lt :: "double \<Rightarrow> double \<Rightarrow> bool" where
  "d_lt a b = (\<not> d_is_nan a \<and> \<not> d_is_nan b \<and> d_key a < d_key b)"

definition d_eq :: "double \<Rightarrow> double \<Rightarrow> bool" where
  "d_eq a b = (\<not> d_is_nan a \<and> \<not> d_is_nan b \<and> d_key a = d_key b)"

section \<open>Rounding and arithmetic\<close>

fun bit_length :: "nat \<Rightarrow> nat" where
  "bit_length n = (if n = 0 then 0 else Suc (bit_length (n div 2)))"

declare bit_length.simps [simp del]

definition round_half_even :: "nat \<Rightarrow> nat \<Rightarrow> nat" where
  "round_half_even n d =
     (let q = n div d; r = n mod d in
      if 2 * r < d \<or> (2 * r = d \<and> even q) then q else Suc q)"

definition d_with_sign :: "bool \<Rightarrow> nat \<Rightarrow> double" where
  "d_with_sign neg b = of_nat (if neg then 2 ^ 63 + b else b)"

definition d_zero :: "bool \<Rightarrow> double" where
  "d_zero neg = d_with_sign neg 0"

definition d_inf :: "bool \<Rightarrow> double" where
  "d_inf neg = d_with_sign neg (2047 * 2 ^ 52)"

text \<open>The double nearest to \<open>(n / d) \<cdot> 2 ^ - 1074\<close>, ties to even, overflowing to infinity.\<close>

definition d_round :: "bool \<Rightarrow> nat \<Rightarrow> nat \<Rightarrow> double" where
  "d_round neg n d =
     (let k = bit_length (n div d) - 53;
          b = k * 2 ^ 52 + round_half_even n (d * 2 ^ k)
      in d_with_sign neg (min b (2047 * 2 ^ 52)))"

definition d_unit :: nat where
  "d_unit = 2 ^ 1074"

definition d_default_nan :: double where
  "d_default_nan = of_nat (4095 * 2 ^ 52 + 2 ^ 51)"

definition d_quiet :: "double \<Rightarrow> double" where
  "d_quiet w = w OR push_bit 51 1"

definition d_flip :: "double \<Rightarrow> double" where
  "d_flip w = w XOR push_bit 63 1"

definition d_abs :: "double \<Rightarrow> double" where
  "d_abs w = w AND NOT (push_bit 63 1)"

definition d_add :: "double \<Rightarrow> double \<Rightarrow> double" where
  "d_add a b =
     (if d_is_nan a then d_quiet a
      else if d_is_nan b then d_quiet b
      else if d_is_inf a then (if d_is_inf b \<and> d_neg a \<noteq> d_neg b then d_default_nan else a)
      else if d_is_inf b then b
      else let k = d_key a + d_key b in
        if k = 0 then d_zero (d_neg a \<and> d_neg b) else d_round (k < 0) (nat \<bar>k\<bar>) 1)"

definition d_sub :: "double \<Rightarrow> double \<Rightarrow> double" where
  "d_sub a b =
     (if d_is_nan a then d_quiet a
      else if d_is_nan b then d_quiet b
      else d_add a (d_flip b))"

definition d_mul :: "double \<Rightarrow> double \<Rightarrow> double" where
  "d_mul a b =
     (let neg = (d_neg a \<noteq> d_neg b) in
      if d_is_nan a then d_quiet a
      else if d_is_nan b then d_quiet b
      else if d_is_inf a \<or> d_is_inf b
        then (if d_magnitude a = 0 \<or> d_magnitude b = 0 then d_default_nan else d_inf neg)
      else d_round neg (d_magnitude a * d_magnitude b) d_unit)"

definition d_div :: "double \<Rightarrow> double \<Rightarrow> double" where
  "d_div a b =
     (let neg = (d_neg a \<noteq> d_neg b) in
      if d_is_nan a then d_quiet a
      else if d_is_nan b then d_quiet b
      else if d_is_inf a then (if d_is_inf b then d_default_nan else d_inf neg)
      else if d_is_inf b then d_zero neg
      else if d_magnitude b = 0
        then (if d_magnitude a = 0 then d_default_nan else d_inf neg)
      else d_round neg (d_magnitude a * d_unit) (d_magnitude b))"

section \<open>Conversions with 64-bit integers\<close>

definition d_of_int :: "int \<Rightarrow> double" where
  "d_of_int i = d_round (i < 0) (nat \<bar>i\<bar> * d_unit) 1"

definition in_i64 :: "int \<Rightarrow> bool" where
  "in_i64 i = (- (2 ^ 63) \<le> i \<and> i < 2 ^ 63)"

text \<open>Truncation toward zero; outside the range of \<^verbatim>\<open>int64_t\<close> the cast is undefined.\<close>

definition d_to_i64 :: "double \<Rightarrow> i64 option" where
  "d_to_i64 w =
     (let m = int (d_magnitude w div d_unit); i = (if d_neg w then - m else m)
      in if d_is_nan w \<or> \<not> in_i64 i then None else Some (of_int i))"

section \<open>Decimal text\<close>

fun nat_digits :: "nat \<Rightarrow> string" where
  "nat_digits n =
     (if n < 10 then [char_of (48 + n)] else nat_digits (n div 10) @ [char_of (48 + n mod 10)])"

declare nat_digits.simps [simp del]

definition int_to_text :: "int \<Rightarrow> string" where
  "int_to_text i = (if i < 0 then CHR ''-'' # nat_digits (nat (- i)) else nat_digits (nat i))"

text \<open>The decimal exponent of \<open>n / d\<close>, the \<open>x\<close> with \<open>10 ^ x \<le> n / d < 10 ^ (x + 1)\<close>.\<close>

fun exp10_up :: "nat \<Rightarrow> nat \<Rightarrow> nat \<Rightarrow> nat \<Rightarrow> nat" where
  "exp10_up 0 k n d = k"
| "exp10_up (Suc fuel) k n d = (if 10 ^ Suc k * d \<le> n then exp10_up fuel (Suc k) n d else k)"

fun exp10_down :: "nat \<Rightarrow> nat \<Rightarrow> nat \<Rightarrow> nat \<Rightarrow> nat" where
  "exp10_down 0 k n d = k"
| "exp10_down (Suc fuel) k n d = (if d \<le> 10 ^ k * n then k else exp10_down fuel (Suc k) n d)"

definition exp10 :: "nat \<Rightarrow> nat \<Rightarrow> int" where
  "exp10 n d = (if d \<le> n then int (exp10_up 400 0 n d) else - int (exp10_down 400 1 n d))"

definition pad_left :: "nat \<Rightarrow> string \<Rightarrow> string" where
  "pad_left k s = replicate (k - length s) (CHR ''0'') @ s"

definition strip_zeros :: "string \<Rightarrow> string" where
  "strip_zeros s = rev (dropWhile (\<lambda>c. c = CHR ''0'') (rev s))"

definition with_point :: "string \<Rightarrow> string \<Rightarrow> string" where
  "with_point whole part =
     (let f = strip_zeros part in if f = [] then whole else whole @ CHR ''.'' # f)"

text \<open>The stream format of a positive rational: six significant digits, as \<^verbatim>\<open>%g\<close>.\<close>

definition general_format :: "nat \<Rightarrow> nat \<Rightarrow> string" where
  "general_format n d =
     (let x0 = exp10 n d;
          scaled = (if x0 \<le> 5 then round_half_even (n * 10 ^ nat (5 - x0)) d
                    else round_half_even n (d * 10 ^ nat (x0 - 5)));
          x = (if scaled = 10 ^ 6 then x0 + 1 else x0);
          digits = nat_digits (if scaled = 10 ^ 6 then 10 ^ 5 else scaled)
      in if x < - 4 \<or> 6 \<le> x
         then with_point (take 1 digits) (drop 1 digits) @ CHR ''e'' #
              (if x < 0 then CHR ''-'' else CHR ''+'') # pad_left 2 (nat_digits (nat \<bar>x\<bar>))
         else if 0 \<le> x
         then with_point (take (nat x + 1) digits) (drop (nat x + 1) digits)
         else with_point ''0'' (replicate (nat (- x) - 1) (CHR ''0'') @ digits))"

definition double_to_text :: "double \<Rightarrow> string" where
  "double_to_text w =
     (if d_neg w then ''-'' else '''') @
     (if d_is_nan w then ''nan''
      else if d_is_inf w then ''inf''
      else if d_magnitude w = 0 then ''0''
      else general_format (d_magnitude w) d_unit)"

section \<open>Character classes (C locale)\<close>

definition is_space :: "char \<Rightarrow> bool" where
  "is_space c = (let n = (of_char c :: nat) in n = 32 \<or> (9 \<le> n \<and> n \<le> 13))"

definition is_digit :: "char \<Rightarrow> bool" where
  "is_digit c = (let n = (of_char c :: nat) in 48 \<le> n \<and> n \<le> 57)"

definition to_lower :: "char \<Rightarrow> char" where
  "to_lower c = (let n = (of_char c :: nat) in if 65 \<le> n \<and> n \<le> 90 then char_of (n + 32) else c)"

definition to_upper :: "char \<Rightarrow> char" where
  "to_upper c = (let n = (of_char c :: nat) in if 97 \<le> n \<and> n \<le> 122 then char_of (n - 32) else c)"

definition digit_val :: "char \<Rightarrow> nat" where
  "digit_val c = of_char c - 48"

definition is_xdigit :: "char \<Rightarrow> bool" where
  "is_xdigit c = (is_digit c \<or> (let n = (of_char (to_lower c) :: nat) in 97 \<le> n \<and> n \<le> 102))"

definition xdigit_val :: "char \<Rightarrow> nat" where
  "xdigit_val c = (if is_digit c then digit_val c else of_char (to_lower c) - 87)"

definition digits_val :: "string \<Rightarrow> nat" where
  "digits_val s = foldl (\<lambda>n c. 10 * n + digit_val c) 0 s"

definition xdigits_val :: "string \<Rightarrow> nat" where
  "xdigits_val s = foldl (\<lambda>n c. 16 * n + xdigit_val c) 0 s"

section \<open>Numeric parsers of the standard library\<close>

text \<open>An optional sign: whether it is a minus, and the rest.\<close>

definition split_sign :: "string \<Rightarrow> bool \<times> string" where
  "split_sign s =
     (case s of [] \<Rightarrow> (False, [])
      | c # cs \<Rightarrow> if c = CHR ''-'' then (True, cs) else if c = CHR ''+'' then (False, cs) else (False, s))"

definition stoll :: "string \<Rightarrow> i64 result" where
  "stoll s =
     (let (neg, body) = split_sign (dropWhile is_space s);
          ds = takeWhile is_digit body;
          i = (if neg then - int (digits_val ds) else int (digits_val ds))
      in if ds = [] then Inl (InvalidArgument ''stoll'')
         else if in_i64 i then Inr (of_int i)
         else Inl (OutOfRange ''stoll''))"

text \<open>
  \<open>scan_exponent m s\<close>: the value of an exponent part introduced by the character \<open>m\<close>, or 0 when
  there is none.
\<close>

definition scan_exponent :: "char \<Rightarrow> string \<Rightarrow> int" where
  "scan_exponent m s =
     (case s of [] \<Rightarrow> 0
      | c # cs \<Rightarrow>
        if to_lower c \<noteq> m then 0
        else let (neg, body) = split_sign cs; v = int (digits_val (takeWhile is_digit body))
             in if neg then - v else v)"

definition scan_fraction :: "(char \<Rightarrow> bool) \<Rightarrow> string \<Rightarrow> string \<times> string \<times> string" where
  "scan_fraction p s =
     (let whole = takeWhile p s; rest = dropWhile p s in
      case rest of
        [] \<Rightarrow> (whole, [], [])
      | c # cs \<Rightarrow>
        if c = CHR ''.'' \<and> (whole \<noteq> [] \<or> takeWhile p cs \<noteq> [])
        then (whole, takeWhile p cs, dropWhile p cs) else (whole, [], rest))"

text \<open>
  The double nearest to \<open>m \<cdot> b ^ e\<close>; \<^verbatim>\<open>stod\<close> reports overflow, and an inexact result below the
  normal range, as \<^verbatim>\<open>out_of_range\<close>.
\<close>

definition scaled_double :: "bool \<Rightarrow> nat \<Rightarrow> nat \<Rightarrow> int \<Rightarrow> double result" where
  "scaled_double neg m b e =
     (let n = (if 0 \<le> e then m * b ^ nat e * d_unit else m * d_unit);
          d = (if 0 \<le> e then 1 else b ^ nat (- e));
          r = d_round neg n d
      in if d_is_inf r \<or> (d_magnitude r < 2 ^ 52 \<and> \<not> d dvd n)
         then Inl (OutOfRange ''stod'') else Inr r)"

definition stod :: "string \<Rightarrow> double result" where
  "stod s =
     (let (neg, body) = split_sign (dropWhile is_space s); lower = map to_lower body in
      if take 2 lower = ''0x'' \<and> fst (scan_fraction is_xdigit (drop 2 body)) @
           fst (snd (scan_fraction is_xdigit (drop 2 body))) \<noteq> []
      then let (w, f, rest) = scan_fraction is_xdigit (drop 2 body)
           in scaled_double neg (xdigits_val (w @ f)) 2
                (scan_exponent (CHR ''p'') rest - 4 * int (length f))
      else let (w, f, rest) = scan_fraction is_digit body in
        if w @ f \<noteq> []
        then scaled_double neg (digits_val (w @ f)) 10
               (scan_exponent (CHR ''e'') rest - int (length f))
        else if take 3 lower = ''inf'' then Inr (d_inf neg)
        else if take 3 lower = ''nan'' then Inr (d_with_sign neg (2047 * 2 ^ 52 + 2 ^ 51))
        else Inl (InvalidArgument ''stod''))"

end
