(* ===== verification/Key_Orders.thy ===== *)
theory Key_Orders
  imports Prelude
begin

text \<open>
  The ordering contract the index structures, the sort and the set operators rely on: a strict
  total order on a domain, with an equality test that agrees with it. Sorted association lists
  under such an order are the abstract specification of the B-tree index.
\<close>

section \<open>Sorted association lists\<close>

text \<open>\<open>upsert\<close> appends a row to the entry of a key, or opens a new entry at its place.\<close>

fun upsert :: "('k \<Rightarrow> 'k \<Rightarrow> bool) \<Rightarrow> 'k \<Rightarrow> 'v \<Rightarrow> ('k \<times> 'v list) list \<Rightarrow> ('k \<times> 'v list) list" where
  "upsert lt k v [] = [(k, [v])]"
| "upsert lt k v ((k', vs) # es) =
     (if lt k' k then (k', vs) # upsert lt k v es
      else if lt k k' then (k, [v]) # (k', vs) # es
      else (k', vs @ [v]) # es)"

definition lookup_rows :: "('k \<times> 'v list) list \<Rightarrow> 'k \<Rightarrow> 'v list" where
  "lookup_rows es k = (case map_of es k of None \<Rightarrow> [] | Some vs \<Rightarrow> vs)"

section \<open>The contract\<close>

locale key_order =
  fixes dom :: "'k \<Rightarrow> bool" and lt :: "'k \<Rightarrow> 'k \<Rightarrow> bool" and eq :: "'k \<Rightarrow> 'k \<Rightarrow> bool"
  assumes less_irrefl: "dom a \<Longrightarrow> \<not> lt a a"
    and less_trans: "dom a \<Longrightarrow> dom b \<Longrightarrow> dom c \<Longrightarrow> lt a b \<Longrightarrow> lt b c \<Longrightarrow> lt a c"
    and less_total: "dom a \<Longrightarrow> dom b \<Longrightarrow> lt a b \<or> a = b \<or> lt b a"
    and eq_iff: "dom a \<Longrightarrow> dom b \<Longrightarrow> eq a b = (a = b)"
begin

lemma less_asym: "dom a \<Longrightarrow> dom b \<Longrightarrow> lt a b \<Longrightarrow> \<not> lt b a"
  using less_irrefl less_trans by blast

lemma not_less_iff: "dom a \<Longrightarrow> dom b \<Longrightarrow> (\<not> lt a b) = (a = b \<or> lt b a)"
  using less_irrefl less_asym less_total by blast

definition ordered :: "('k \<times> 'v list) list \<Rightarrow> bool" where
  "ordered es = (sorted_wrt lt (map fst es) \<and> (\<forall>k \<in> set (map fst es). dom k))"

lemma ordered_Nil [simp]: "ordered []"
  by (simp add: ordered_def)

lemma ordered_append:
  "ordered (xs @ ys) \<longleftrightarrow> ordered xs \<and> ordered ys \<and> (\<forall>x \<in> set xs. \<forall>y \<in> set ys. lt (fst x) (fst y))"
  by (auto simp: ordered_def sorted_wrt_append)

lemma ordered_Cons:
  "ordered (x # xs) \<longleftrightarrow> dom (fst x) \<and> ordered xs \<and> (\<forall>y \<in> set xs. lt (fst x) (fst y))"
  by (auto simp: ordered_def)

lemma ordered_dom: "ordered es \<Longrightarrow> (k, vs) \<in> set es \<Longrightarrow> dom k"
  by (force simp: ordered_def)

lemma ordered_distinct: "ordered es \<Longrightarrow> distinct (map fst es)"
proof (induction es)
  case (Cons e es)
  then have "fst e \<notin> fst ` set es"
    using less_irrefl by (auto simp: ordered_Cons)
  with Cons show ?case by (simp add: ordered_Cons)
qed simp

lemma upsert_prefix:
  "(\<And>x. x \<in> set xs \<Longrightarrow> lt (fst x) k) \<Longrightarrow> upsert lt k v (xs @ ys) = xs @ upsert lt k v ys"
proof (induction xs)
  case (Cons x xs)
  then have "lt (fst x) k" by simp
  with Cons show ?case by (cases x) simp
qed simp

lemma upsert_suffix:
  assumes "dom k" and "ordered (xs @ [(a, vs)])" and "lt k a"
  shows "upsert lt k v (xs @ (a, vs) # ys) = upsert lt k v xs @ (a, vs) # ys"
  using assms
proof (induction xs)
  case Nil
  then show ?case using less_asym by (auto simp: ordered_Cons)
next
  case (Cons x xs)
  then show ?case by (cases x) (auto simp: ordered_Cons)
qed

lemma upsert_hit:
  assumes "dom k" and "ordered (xs @ [(k, vs)])"
  shows "upsert lt k v (xs @ (k, vs) # ys) = xs @ (k, vs @ [v]) # ys"
proof -
  have "upsert lt k v (xs @ (k, vs) # ys) = xs @ upsert lt k v ((k, vs) # ys)"
    using assms by (intro upsert_prefix) (auto simp: ordered_append)
  then show ?thesis using assms less_irrefl by simp
qed

lemma keys_upsert: "dom k \<Longrightarrow> ordered es \<Longrightarrow> fst ` set (upsert lt k v es) = insert k (fst ` set es)"
proof (induction es)
  case (Cons e es)
  obtain k' vs where e: "e = (k', vs)" by (cases e)
  have "lt k' k \<or> k' = k \<or> lt k k'"
    using Cons.prems e less_total by (auto simp: ordered_Cons)
  then show ?case
    using Cons e less_asym less_irrefl by (auto simp: ordered_Cons)
qed simp

lemma ordered_upsert: "dom k \<Longrightarrow> ordered es \<Longrightarrow> ordered (upsert lt k v es)"
proof (induction es)
  case Nil
  then show ?case by (simp add: ordered_Cons)
next
  case (Cons e es)
  obtain k' vs where e: "e = (k', vs)" by (cases e)
  have dom: "dom k'" "ordered es" and rest: "\<forall>y \<in> set es. lt k' (fst y)"
    using Cons.prems e by (auto simp: ordered_Cons)
  have keys: "fst ` set (upsert lt k v es) = insert k (fst ` set es)"
    using Cons.prems(1) dom(2) by (rule keys_upsert)
  consider "lt k' k" | "\<not> lt k' k" "lt k k'" | "\<not> lt k' k" "\<not> lt k k'" by blast
  then show ?case
  proof cases
    case 1
    have "\<forall>y \<in> set (upsert lt k v es). lt k' (fst y)"
    proof
      fix y assume "y \<in> set (upsert lt k v es)"
      then have "fst y \<in> insert k (fst ` set es)" using keys by blast
      then show "lt k' (fst y)" using 1 rest by auto
    qed
    then show ?thesis using 1 Cons dom e by (simp add: ordered_Cons)
  next
    case 2
    have "\<forall>y \<in> set es. lt k (fst y)"
    proof
      fix y assume y: "y \<in> set es"
      then have "dom (fst y)" using dom(2) by (auto simp: ordered_def)
      then show "lt k (fst y)" using 2(2) y rest dom(1) Cons.prems(1) less_trans by blast
    qed
    then show ?thesis using 2 Cons.prems dom rest e by (simp add: ordered_Cons)
  next
    case 3
    then show ?thesis using dom rest e by (simp add: ordered_Cons)
  qed
qed

lemma map_of_upsert:
  "dom k \<Longrightarrow> ordered es \<Longrightarrow>
     map_of (upsert lt k v es) = (map_of es)(k \<mapsto> lookup_rows es k @ [v])"
proof (induction es)
  case Nil
  then show ?case by (simp add: lookup_rows_def)
next
  case (Cons e es)
  obtain k' vs where e: "e = (k', vs)" by (cases e)
  have dom: "dom k'" "ordered es" and rest: "\<forall>y \<in> set es. lt k' (fst y)"
    using Cons.prems e by (auto simp: ordered_Cons)
  consider "lt k' k" | "\<not> lt k' k" "lt k k'" | "\<not> lt k' k" "\<not> lt k k'" by blast
  then show ?case
  proof cases
    case 1
    then have "k \<noteq> k'" using less_irrefl dom by blast
    then show ?thesis using 1 Cons dom e by (auto simp: lookup_rows_def fun_eq_iff)
  next
    case 2
    then have ne: "k \<noteq> k'" using less_irrefl dom by blast
    have "k \<notin> fst ` set es"
    proof
      assume "k \<in> fst ` set es"
      then have "lt k' k" using rest by auto
      with 2 show False by simp
    qed
    then have "map_of es k = None" by (simp add: map_of_eq_None_iff)
    then show ?thesis using 2 e ne by (auto simp: lookup_rows_def fun_eq_iff)
  next
    case 3
    then have "k = k'" using less_total Cons.prems(1) dom(1) by blast
    then show ?thesis using 3 e by (auto simp: lookup_rows_def fun_eq_iff)
  qed
qed

lemma lookup_upsert:
  "dom k \<Longrightarrow> ordered es \<Longrightarrow>
     lookup_rows (upsert lt k v es) k' = (if k' = k then lookup_rows es k @ [v] else lookup_rows es k')"
  by (simp add: lookup_rows_def map_of_upsert)

lemma lookup_rows_prefix:
  assumes "\<And>x. x \<in> set xs \<Longrightarrow> lt (fst x) k" and "dom k"
  shows "lookup_rows (xs @ ys) k = lookup_rows ys k"
proof -
  have "k \<notin> fst ` set xs" using assms less_irrefl by auto
  then have "map_of xs k = None" by (simp add: map_of_eq_None_iff)
  then show ?thesis by (simp add: lookup_rows_def map_add_def)
qed

lemma lookup_rows_suffix:
  assumes "\<And>y. y \<in> set ys \<Longrightarrow> lt k (fst y)" and "dom k"
  shows "lookup_rows (xs @ ys) k = lookup_rows xs k"
proof -
  have "k \<notin> fst ` set ys" using assms less_irrefl by auto
  then have "map_of ys k = None" by (simp add: map_of_eq_None_iff)
  then show ?thesis by (simp add: lookup_rows_def map_add_def split: option.splits)
qed

lemma lookup_rows_hit:
  assumes "ordered (xs @ (k, vs) # ys)"
  shows "lookup_rows (xs @ (k, vs) # ys) k = vs"
proof -
  have "map_of (xs @ (k, vs) # ys) k = Some vs"
    using ordered_distinct [OF assms] by (intro map_of_is_SomeI) auto
  then show ?thesis by (simp add: lookup_rows_def)
qed

end

end
