(* ===== verification/Values.thy ===== *)
theory Values
  imports Doubles Key_Orders
begin

text \<open>
  The SQL data types and runtime values: \<^verbatim>\<open>include/types/data_type.h\<close>, \<^verbatim>\<open>src/types/value.cc\<close> and
  \<^verbatim>\<open>src/types/type_converter.cc\<close>. A \<open>sql_value\<close> is the variant of \<^verbatim>\<open>class Value\<close>; the comparison and
  arithmetic operators follow the C++ branch by branch, and the binary codec works on the same
  bytes as \<^verbatim>\<open>serialize_value\<close> and \<^verbatim>\<open>deserialize_value\<close>.
\<close>

section \<open>Data types\<close>

datatype data_type = INT_T | FLOAT_T | STRING_T | BOOLEAN_T | DATE_T | UUID_T

fun data_type_to_string :: "data_type \<Rightarrow> string" where
  "data_type_to_string INT_T = ''INT''"
| "data_type_to_string FLOAT_T = ''FLOAT''"
| "data_type_to_string STRING_T = ''STRING''"
| "data_type_to_string BOOLEAN_T = ''BOOLEAN''"
| "data_type_to_string DATE_T = ''DATE''"
| "data_type_to_string UUID_T = ''UUID''"

definition string_to_data_type :: "string \<Rightarrow> data_type result" where
  "string_to_data_type str =
     (let upper = map to_upper str in
      if upper = ''INT'' \<or> upper = ''INTEGER'' then Inr INT_T
      else if upper = ''FLOAT'' \<or> upper = ''REAL'' \<or> upper = ''DOUBLE'' then Inr FLOAT_T
      else if upper = ''STRING'' \<or> upper = ''TEXT'' \<or> upper = ''VARCHAR'' then Inr STRING_T
      else if upper = ''BOOLEAN'' \<or> upper = ''BOOL'' then Inr BOOLEAN_T
      else if upper = ''DATE'' then Inr DATE_T
      else if upper = ''UUID'' then Inr UUID_T
      else Inl (InvalidArgument (''Unknown data type: '' @ str)))"

fun get_type_size :: "data_type \<Rightarrow> nat" where
  "get_type_size INT_T = 8"
| "get_type_size FLOAT_T = 8"
| "get_type_size STRING_T = 0"
| "get_type_size BOOLEAN_T = 1"
| "get_type_size DATE_T = 10"
| "get_type_size UUID_T = 36"

section \<open>Values\<close>

datatype sql_value = NullV | IntV i64 | FloatV double | StringV string | BoolV bool

fun is_null :: "sql_value \<Rightarrow> bool" where
  "is_null NullV = True"
| "is_null _ = False"

fun is_numeric :: "sql_value \<Rightarrow> bool" where
  "is_numeric (IntV _) = True"
| "is_numeric (FloatV _) = True"
| "is_numeric _ = False"

fun is_stringv :: "sql_value \<Rightarrow> bool" where
  "is_stringv (StringV _) = True"
| "is_stringv _ = False"

fun get_type :: "sql_value \<Rightarrow> data_type" where
  "get_type (IntV _) = INT_T"
| "get_type (FloatV _) = FLOAT_T"
| "get_type (StringV _) = STRING_T"
| "get_type (BoolV _) = BOOLEAN_T"
| "get_type NullV = STRING_T"

definition i64_to_text :: "i64 \<Rightarrow> string" where
  "i64_to_text i = int_to_text (sint i)"

fun value_to_string :: "sql_value \<Rightarrow> string" where
  "value_to_string NullV = ''NULL''"
| "value_to_string (IntV i) = i64_to_text i"
| "value_to_string (FloatV d) = double_to_text d"
| "value_to_string (StringV s) = s"
| "value_to_string (BoolV b) = (if b then ''true'' else ''false'')"

fun as_int :: "sql_value \<Rightarrow> i64 result" where
  "as_int (IntV i) = Inr i"
| "as_int (FloatV d) = (case d_to_i64 d of None \<Rightarrow> Inl UndefinedBehaviour | Some i \<Rightarrow> Inr i)"
| "as_int (StringV s) =
     (case stoll s of Inr i \<Rightarrow> Inr i
      | Inl _ \<Rightarrow> Inl (TypeException (''Cannot convert string to int: '' @ s)))"
| "as_int (BoolV b) = Inr (if b then 1 else 0)"
| "as_int NullV = Inl (TypeException ''Cannot convert NULL to int'')"

definition i64_to_double :: "i64 \<Rightarrow> double" where
  "i64_to_double i = d_of_int (sint i)"

fun as_float :: "sql_value \<Rightarrow> double result" where
  "as_float (FloatV d) = Inr d"
| "as_float (IntV i) = Inr (i64_to_double i)"
| "as_float (StringV s) =
     (case stod s of Inr d \<Rightarrow> Inr d
      | Inl _ \<Rightarrow> Inl (TypeException (''Cannot convert string to float: '' @ s)))"
| "as_float (BoolV b) = Inr (d_of_int (if b then 1 else 0))"
| "as_float NullV = Inl (TypeException ''Cannot convert NULL to float'')"

fun as_string :: "sql_value \<Rightarrow> string" where
  "as_string (StringV s) = s"
| "as_string v = value_to_string v"

fun as_bool :: "sql_value \<Rightarrow> bool result" where
  "as_bool (BoolV b) = Inr b"
| "as_bool (IntV i) = Inr (i \<noteq> 0)"
| "as_bool (FloatV d) = Inr (\<not> d_eq d 0)"
| "as_bool (StringV s) = Inr (s \<noteq> '''' \<and> s \<noteq> ''0'' \<and> s \<noteq> ''false'')"
| "as_bool NullV = Inl (TypeException ''Cannot convert NULL to bool'')"

subsection \<open>Comparison\<close>

text \<open>The literal \<^verbatim>\<open>1e-9\<close>.\<close>

definition d_epsilon :: double where
  "d_epsilon = 4472406533629990549"

definition d_close :: "double \<Rightarrow> double \<Rightarrow> bool" where
  "d_close a b = d_lt (d_abs (d_sub a b)) d_epsilon"

fun value_eq :: "sql_value \<Rightarrow> sql_value \<Rightarrow> bool" where
  "value_eq NullV NullV = True"
| "value_eq (IntV a) (IntV b) = (a = b)"
| "value_eq (FloatV a) (FloatV b) = d_close a b"
| "value_eq (StringV a) (StringV b) = (a = b)"
| "value_eq (BoolV a) (BoolV b) = (a = b)"
| "value_eq (IntV a) (FloatV b) = d_close (i64_to_double a) b"
| "value_eq (FloatV a) (IntV b) = d_close a (i64_to_double b)"
| "value_eq _ _ = False"

fun value_less :: "sql_value \<Rightarrow> sql_value \<Rightarrow> bool" where
  "value_less NullV NullV = False"
| "value_less NullV _ = True"
| "value_less _ NullV = False"
| "value_less (IntV a) (IntV b) = (sint a < sint b)"
| "value_less (FloatV a) (FloatV b) = d_lt a b"
| "value_less (StringV a) (StringV b) = (a < b)"
| "value_less (IntV a) (FloatV b) = d_lt (i64_to_double a) b"
| "value_less (FloatV a) (IntV b) = d_lt a (i64_to_double b)"
| "value_less v w = (value_to_string v < value_to_string w)"

definition value_le :: "sql_value \<Rightarrow> sql_value \<Rightarrow> bool" where
  "value_le v w = (value_less v w \<or> value_eq v w)"

definition value_gt :: "sql_value \<Rightarrow> sql_value \<Rightarrow> bool" where
  "value_gt v w = (\<not> value_le v w)"

definition value_ge :: "sql_value \<Rightarrow> sql_value \<Rightarrow> bool" where
  "value_ge v w = (\<not> value_less v w)"

subsection \<open>Arithmetic\<close>

text \<open>Signed overflow is undefined in C++, and is kept apart as such.\<close>

definition checked_int :: "int \<Rightarrow> sql_value result" where
  "checked_int i = (if in_i64 i then Inr (IntV (of_int i)) else Inl UndefinedBehaviour)"

fun numeric_double :: "sql_value \<Rightarrow> double" where
  "numeric_double (IntV i) = i64_to_double i"
| "numeric_double (FloatV d) = d"
| "numeric_double _ = 0"

definition value_add :: "sql_value \<Rightarrow> sql_value \<Rightarrow> sql_value result" where
  "value_add v w =
     (case (v, w) of
        (IntV a, IntV b) \<Rightarrow> checked_int (sint a + sint b)
      | _ \<Rightarrow>
        if is_numeric v \<and> is_numeric w then Inr (FloatV (d_add (numeric_double v) (numeric_double w)))
        else if is_stringv v \<or> is_stringv w then Inr (StringV (as_string v @ as_string w))
        else Inl (TypeException ''Cannot add these types''))"

definition value_sub :: "sql_value \<Rightarrow> sql_value \<Rightarrow> sql_value result" where
  "value_sub v w =
     (case (v, w) of
        (IntV a, IntV b) \<Rightarrow> checked_int (sint a - sint b)
      | _ \<Rightarrow>
        if is_numeric v \<and> is_numeric w then Inr (FloatV (d_sub (numeric_double v) (numeric_double w)))
        else Inl (TypeException ''Cannot subtract these types''))"

definition value_mul :: "sql_value \<Rightarrow> sql_value \<Rightarrow> sql_value result" where
  "value_mul v w =
     (case (v, w) of
        (IntV a, IntV b) \<Rightarrow> checked_int (sint a * sint b)
      | _ \<Rightarrow>
        if is_numeric v \<and> is_numeric w then Inr (FloatV (d_mul (numeric_double v) (numeric_double w)))
        else Inl (TypeException ''Cannot multiply these types''))"

definition value_div :: "sql_value \<Rightarrow> sql_value \<Rightarrow> sql_value result" where
  "value_div v w =
     (if is_numeric v \<and> is_numeric w
      then let divisor = numeric_double w in
        if d_lt (d_abs divisor) d_epsilon then Inl (TypeException ''Division by zero'')
        else Inr (FloatV (d_div (numeric_double v) divisor))
      else Inl (TypeException ''Cannot divide these types''))"

section \<open>Conversion from text\<close>

definition is_blank :: "char \<Rightarrow> bool" where
  "is_blank c = (c = CHR '' '' \<or> c = CHR 0x09 \<or> c = CHR 0x0A \<or> c = CHR 0x0D)"

definition trim_whitespace :: "string \<Rightarrow> string" where
  "trim_whitespace s = rev (dropWhile is_blank (rev (dropWhile is_blank s)))"

definition string_to_int :: "string \<Rightarrow> i64 result" where
  "string_to_int s =
     (case stoll s of Inr i \<Rightarrow> Inr i
      | Inl _ \<Rightarrow> Inl (TypeException (''Cannot convert to integer: '' @ s)))"

definition string_to_float :: "string \<Rightarrow> double result" where
  "string_to_float s =
     (case stod s of Inr d \<Rightarrow> Inr d
      | Inl _ \<Rightarrow> Inl (TypeException (''Cannot convert to float: '' @ s)))"

definition string_to_bool :: "string \<Rightarrow> bool result" where
  "string_to_bool s =
     (let lower = map to_lower s in
      if lower = ''true'' \<or> lower = ''1'' \<or> lower = ''yes'' then Inr True
      else if lower = ''false'' \<or> lower = ''0'' \<or> lower = ''no'' then Inr False
      else Inl (TypeException (''Cannot convert to boolean: '' @ s)))"

text \<open>The two regular expressions: a shape is a list of character classes.\<close>

definition matches_shape :: "(char \<Rightarrow> bool) list \<Rightarrow> string \<Rightarrow> bool" where
  "matches_shape shape s = list_all2 (\<lambda>p c. p c) shape s"

definition date_shape :: "(char \<Rightarrow> bool) list" where
  "date_shape = replicate 4 is_digit @ [(=) (CHR ''-'')] @ replicate 2 is_digit @
     [(=) (CHR ''-'')] @ replicate 2 is_digit"

definition is_valid_date_format :: "string \<Rightarrow> bool" where
  "is_valid_date_format s =
     (matches_shape date_shape s \<and>
      (let year = digits_val (slice s 0 4); month = digits_val (slice s 5 2);
           day = digits_val (slice s 8 2)
       in \<not> year < 1 \<and> \<not> (month < 1 \<or> 12 < month) \<and> \<not> (day < 1 \<or> 31 < day)))"

definition uuid_shape :: "(char \<Rightarrow> bool) list" where
  "uuid_shape = replicate 8 is_xdigit @ [(=) (CHR ''-'')] @ replicate 4 is_xdigit @
     [(=) (CHR ''-'')] @ replicate 4 is_xdigit @ [(=) (CHR ''-'')] @ replicate 4 is_xdigit @
     [(=) (CHR ''-'')] @ replicate 12 is_xdigit"

definition is_valid_uuid_format :: "string \<Rightarrow> bool" where
  "is_valid_uuid_format s = matches_shape uuid_shape s"

definition string_to_value :: "string \<Rightarrow> data_type \<Rightarrow> sql_value result" where
  "string_to_value str t =
     (if str = ''NULL'' \<or> str = '''' then Inr NullV
      else let trimmed = trim_whitespace str in
        case t of
          INT_T \<Rightarrow> bindR (string_to_int trimmed) (\<lambda>i. Inr (IntV i))
        | FLOAT_T \<Rightarrow> bindR (string_to_float trimmed) (\<lambda>d. Inr (FloatV d))
        | STRING_T \<Rightarrow> Inr (StringV trimmed)
        | BOOLEAN_T \<Rightarrow> bindR (string_to_bool trimmed) (\<lambda>b. Inr (BoolV b))
        | DATE_T \<Rightarrow>
            if \<not> is_valid_date_format trimmed
            then Inl (TypeException (''Invalid date format: '' @ trimmed @ ''. Expected YYYY-MM-DD''))
            else Inr (StringV trimmed)
        | UUID_T \<Rightarrow>
            if \<not> is_valid_uuid_format trimmed
            then Inl (TypeException (''Invalid UUID format: '' @ trimmed))
            else Inr (StringV trimmed))"

fun succeeded :: "'a result \<Rightarrow> bool" where
  "succeeded (Inr _) = True"
| "succeeded (Inl _) = False"

definition is_valid_value :: "string \<Rightarrow> data_type \<Rightarrow> bool" where
  "is_valid_value str t =
     (str = ''NULL'' \<or>
      (let trimmed = trim_whitespace str in
       trimmed \<noteq> '''' \<and>
       (case t of
          INT_T \<Rightarrow> succeeded (string_to_int trimmed)
        | FLOAT_T \<Rightarrow> succeeded (string_to_float trimmed)
        | STRING_T \<Rightarrow> True
        | BOOLEAN_T \<Rightarrow>
            trimmed = ''true'' \<or> trimmed = ''false'' \<or> trimmed = ''TRUE'' \<or>
            trimmed = ''FALSE'' \<or> trimmed = ''1'' \<or> trimmed = ''0''
        | DATE_T \<Rightarrow> is_valid_date_format trimmed
        | UUID_T \<Rightarrow> is_valid_uuid_format trimmed)))"

section \<open>Binary codec\<close>

definition serialize_value :: "sql_value \<Rightarrow> bytes" where
  "serialize_value v =
     (case v of
        NullV \<Rightarrow> [0xFF]
      | IntV val \<Rightarrow> 0x00 # map (\<lambda>i. ucast (signed_drop_bit (8 * i) val AND 0xFF)) [0..<8]
      | FloatV val \<Rightarrow> 0x01 # le_bytes 8 val
      | StringV str \<Rightarrow>
          let len = (of_nat (length str) :: u32) in
          0x02 # map (\<lambda>i. ucast (drop_bit (8 * i) len AND 0xFF)) [0..<4] @ string_bytes str
      | BoolV b \<Rightarrow> [0x03, if b then 0x01 else 0x00])"

text \<open>
  The comparison \<^verbatim>\<open>bytes.size() >= 5 + len\<close> adds in 32 bits, since \<^verbatim>\<open>len\<close> is a \<^verbatim>\<open>uint32_t\<close>; the
  iterator arithmetic that follows it does not wrap, and leaves the buffer when the sum did.
\<close>

definition deserialize_value :: "bytes \<Rightarrow> data_type \<Rightarrow> sql_value result" where
  "deserialize_value bs t =
     (case bs of
        [] \<Rightarrow> Inr NullV
      | marker # _ \<Rightarrow>
        if marker = 0xFF then Inr NullV
        else if marker = 0x00 \<and> 9 \<le> length bs
        then Inr (IntV (foldl (\<lambda>val i. val OR push_bit (8 * i) (ucast (bs ! (i + 1)))) 0 [0..<8]))
        else if marker = 0x01 \<and> 9 \<le> length bs
        then Inr (FloatV (le_word (slice bs 1 8)))
        else if marker = 0x02 \<and> 5 \<le> length bs \<and>
          (let len = foldl (\<lambda>l i. l OR push_bit (8 * i) (ucast (bs ! (i + 1)))) (0 :: u32) [0..<4]
           in unat (5 + len) \<le> length bs)
        then (let len = foldl (\<lambda>l i. l OR push_bit (8 * i) (ucast (bs ! (i + 1)))) (0 :: u32) [0..<4]
              in bindR (memread bs 5 (unat len)) (\<lambda>str. Inr (StringV (bytes_string str))))
        else if marker = 0x03 \<and> 2 \<le> length bs then Inr (BoolV (bs ! 1 \<noteq> 0))
        else Inl (TypeException ''Invalid serialized value''))"

section \<open>Well-formed values\<close>

text \<open>Strings the 32-bit length field of the codec can describe.\<close>

definition wf_value :: "sql_value \<Rightarrow> bool" where
  "wf_value v = (case v of StringV s \<Rightarrow> length s + 5 < 2 ^ 32 | _ \<Rightarrow> True)"

text \<open>Values a column of a type holds, and those whose comparison is exact (no doubles).\<close>

fun of_type :: "data_type \<Rightarrow> sql_value \<Rightarrow> bool" where
  "of_type _ NullV = True"
| "of_type t (IntV _) = (t = INT_T)"
| "of_type t (FloatV _) = (t = FLOAT_T)"
| "of_type t (StringV _) = (t = STRING_T \<or> t = DATE_T \<or> t = UUID_T)"
| "of_type t (BoolV _) = (t = BOOLEAN_T)"

definition exact_of :: "data_type \<Rightarrow> sql_value \<Rightarrow> bool" where
  "exact_of t v = (of_type t v \<and> (t = FLOAT_T \<longrightarrow> v = NullV))"

section \<open>The order of values\<close>

lemma value_eq_exact: "exact_of t a \<Longrightarrow> exact_of t b \<Longrightarrow> value_eq a b = (a = b)"
  by (cases a; cases b) (auto simp: exact_of_def)

lemma value_less_exact_simps:
  "value_less (BoolV a) (BoolV b) = (\<not> a \<and> b)"
  by (cases a; cases b) (simp_all add: list_less_def)

interpretation value_order: key_order "exact_of t" value_less value_eq for t
proof
  fix a b c
  show "exact_of t a \<Longrightarrow> \<not> value_less a a"
    by (cases a) (auto simp: exact_of_def)
  show "exact_of t a \<Longrightarrow> exact_of t b \<Longrightarrow> exact_of t c \<Longrightarrow> value_less a b \<Longrightarrow> value_less b c \<Longrightarrow> value_less a c"
    by (cases a; cases b; cases c) (auto simp: exact_of_def value_less_exact_simps)
  show "exact_of t a \<Longrightarrow> exact_of t b \<Longrightarrow> value_less a b \<or> a = b \<or> value_less b a"
    by (cases a; cases b) (auto simp: exact_of_def value_less_exact_simps intro: signed_word_eqI)
qed (rule value_eq_exact)

section \<open>Decimal text\<close>

lemma digits_val_snoc: "digits_val (s @ [c]) = 10 * digits_val s + digit_val c"
  by (simp add: digits_val_def)

lemma digit_char:
  assumes "d < 10"
  shows "digit_val (char_of (48 + d)) = d" and "is_digit (char_of (48 + d))"
  using assms by (simp_all add: digit_val_def is_digit_def)

lemma digits_val_nat_digits [simp]: "digits_val (nat_digits n) = n"
proof (induction n rule: nat_digits.induct)
  case (1 n)
  then show ?case
    by (subst nat_digits.simps)
      (auto simp: digits_val_snoc digit_char digits_val_def [of "[_]"])
qed

lemma nat_digits_digits: "list_all is_digit (nat_digits n)"
proof (induction n rule: nat_digits.induct)
  case (1 n)
  then show ?case
    by (subst nat_digits.simps) (auto simp: digit_char)
qed

lemma nat_digits_nonempty [simp]: "nat_digits n \<noteq> []"
  by (subst nat_digits.simps) simp

lemma takeWhile_nat_digits [simp]: "takeWhile is_digit (nat_digits n) = nat_digits n"
  using nat_digits_digits [of n] by (simp add: takeWhile_eq_all_conv list_all_iff)

lemma digit_not_special: "is_digit c \<Longrightarrow> \<not> is_space c \<and> c \<noteq> CHR ''-'' \<and> c \<noteq> CHR ''+'' \<and> \<not> is_blank c"
  by (auto simp: is_digit_def is_space_def is_blank_def Let_def)

lemma nat_digits_Cons: obtains c cs where "nat_digits n = c # cs" "is_digit c"
  using nat_digits_digits [of n] nat_digits_nonempty [of n] by (cases "nat_digits n") auto

lemma split_sign_nat_digits:
  "split_sign (dropWhile is_space (nat_digits n)) = (False, nat_digits n)"
proof -
  obtain c cs where "nat_digits n = c # cs" and c: "is_digit c" by (rule nat_digits_Cons)
  then show ?thesis using digit_not_special [OF c] by (simp add: split_sign_def)
qed

lemma split_sign_minus: "split_sign (dropWhile is_space (CHR ''-'' # s)) = (True, s)"
  by (simp add: is_space_def split_sign_def)

lemma stoll_int_to_text: "in_i64 i \<Longrightarrow> stoll (int_to_text i) = Inr (of_int i)"
  by (cases "i < 0") (simp_all add: stoll_def int_to_text_def split_sign_nat_digits split_sign_minus
    del: dropWhile.simps)

lemma trim_no_blank: "s \<noteq> [] \<Longrightarrow> \<not> is_blank (hd s) \<Longrightarrow> \<not> is_blank (last s) \<Longrightarrow> trim_whitespace s = s"
  using dropWhile_eq_self_iff [of is_blank s] dropWhile_eq_self_iff [of is_blank "rev s"]
  by (simp add: trim_whitespace_def hd_rev)

lemma hd_last_nat_digits: "is_digit (hd (nat_digits n)) \<and> is_digit (last (nat_digits n))"
  using nat_digits_digits [of n] by (simp add: list_all_iff)

lemma trim_int_to_text: "trim_whitespace (int_to_text i) = int_to_text i"
  by (rule trim_no_blank)
    (use hd_last_nat_digits digit_not_special in \<open>auto simp: int_to_text_def is_blank_def\<close>)

lemma int_to_text_not_NULL: "int_to_text i \<noteq> ''NULL'' \<and> int_to_text i \<noteq> []"
proof -
  have "is_digit (last (int_to_text i))"
    using hd_last_nat_digits by (simp add: int_to_text_def)
  then have "int_to_text i \<noteq> ''NULL''"
    by (auto simp: is_digit_def)
  then show ?thesis by (simp add: int_to_text_def)
qed

lemma in_i64_sint [simp]: "in_i64 (sint (w :: i64))"
  using sint_lt [of w] sint_ge [of w] by (simp add: in_i64_def)

section \<open>The codec\<close>

lemma deserialize_serialize:
  assumes "wf_value v"
  shows "deserialize_value (serialize_value v) t = Inr v"
proof (cases v)
  case NullV
  then show ?thesis by (simp add: serialize_value_def deserialize_value_def)
next
  case (IntV w)
  have "foldl (\<lambda>val i. val OR push_bit (8 * i) (ucast ((0 # le_bytes 8 w) ! (i + 1)))) (0 :: i64) [0..<8] =
      le_word (slice (0 # le_bytes 8 w) 1 8)"
    by (rule foldl_or_le_word) simp
  also have "\<dots> = w"
    using slice_Cons_exact [of "le_bytes 8 w" 8 0 "[]"] by (simp add: codec_simps)
  finally show ?thesis
    using IntV by (simp add: serialize_value_def deserialize_value_def serialize_i64_bytes del: upt_Suc)
next
  case (FloatV w)
  then show ?thesis
    using slice_Cons_exact [of "le_bytes 8 w" 8 1 "[]"]
    by (simp add: serialize_value_def deserialize_value_def codec_simps)
next
  case (StringV s)
  let ?len = "of_nat (length s) :: u32"
  let ?bs = "2 # le_bytes 4 ?len @ string_bytes s"
  have len: "foldl (\<lambda>l i. l OR push_bit (8 * i) (ucast (?bs ! (i + 1)))) (0 :: u32) [0..<4] = ?len"
    using foldl_or_le_word [where 'a = 32, of 1 4 ?bs] slice_Cons_exact [of "le_bytes 4 ?len" 4 2 "string_bytes s"]
    by (simp add: codec_simps)
  have small: "length s + 5 < 2 ^ 32" using assms StringV by (simp add: wf_value_def)
  then have u: "unat ?len = length s" "unat (5 + ?len) = 5 + length s"
    by (simp_all add: unat_of_nat unat_word_ariths)
  have "slice ?bs 5 (length s) = string_bytes s"
    using slice_append_exact [of "2 # le_bytes 4 ?len" 5 "string_bytes s" "length s" "[]"] by simp
  then have "memread ?bs 5 (length s) = Inr (string_bytes s)"
    by (simp add: memread_def)
  then show ?thesis
    using StringV len u by (simp add: serialize_value_def deserialize_value_def serialize_u32_bytes del: upt_Suc)
next
  case (BoolV b)
  then show ?thesis by (simp add: serialize_value_def deserialize_value_def)
qed

text \<open>C25: decoding the encoding of a value gives the value back, whatever the declared column type,
  for every value whose text is shorter than \<open>2 ^ 32 - 5\<close> bytes.\<close>

theorem value_codec_roundtrip:
  "wf_value v \<Longrightarrow> deserialize_value (serialize_value v) t = Inr v"
  by (rule deserialize_serialize)

theorem value_codec_roundtrip_witness:
  "wf_value (StringV ''ab'') \<and> deserialize_value (serialize_value (StringV ''ab'')) STRING_T = Inr (StringV ''ab'')"
proof -
  have "wf_value (StringV ''ab'')" by (simp add: wf_value_def)
  then show ?thesis using value_codec_roundtrip [of "StringV ''ab''" STRING_T] by simp
qed

text \<open>C34: an integer or a Boolean printed by \<^verbatim>\<open>to_string\<close> and read back by \<^verbatim>\<open>string_to_value\<close> at its own
  type is the same value, for every 64-bit integer.\<close>

theorem value_text_roundtrip:
  "string_to_value (value_to_string (IntV i)) INT_T = Inr (IntV i) \<and>
   string_to_value (value_to_string (BoolV b)) BOOLEAN_T = Inr (BoolV b)"
proof
  show "string_to_value (value_to_string (IntV i)) INT_T = Inr (IntV i)"
    by (simp add: string_to_value_def i64_to_text_def int_to_text_not_NULL trim_int_to_text
      string_to_int_def stoll_int_to_text)
  show "string_to_value (value_to_string (BoolV b)) BOOLEAN_T = Inr (BoolV b)"
    by (cases b) (simp_all add: string_to_value_def trim_whitespace_def is_blank_def
      string_to_bool_def to_lower_def)
qed

text \<open>C40: a string blob whose length field is at least \<open>2 ^ 32 - 5\<close> passes the size check, because the
  check adds 5 in 32 bits, and the decoder then reads outside the buffer; with a smaller length
  field the decoder never does.\<close>

theorem deserialize_length_wraps:
  "deserialize_value bs t = Inl UndefinedBehaviour \<longleftrightarrow>
     5 \<le> length bs \<and> hd bs = 2 \<and> 2 ^ 32 - 5 \<le> unat (le_word (slice bs 1 4) :: u32) \<and>
     length bs < 5 + unat (le_word (slice bs 1 4) :: u32)"
proof -
  let ?len = "le_word (slice bs 1 4) :: u32"
  have len: "foldl (\<lambda>l i. l OR push_bit (8 * i) (ucast (bs ! (i + 1)))) (0 :: u32) [0..<4] = ?len"
    if "5 \<le> length bs"
    using that foldl_or_le_word [where 'a = 32, of 1 4 bs] by simp
  have bound: "unat ?len < 2 ^ 32"
    using unsigned_less [where 'a = nat, of ?len] by simp
  have sum: "unat (5 + ?len) = (if unat ?len < 2 ^ 32 - 5 then 5 + unat ?len else unat ?len + 5 - 2 ^ 32)"
    using bound by (auto simp: unat_word_ariths mod_if)
  show ?thesis
    using len bound sum
    by (cases bs) (auto simp: deserialize_value_def memread_def bindR_eq_Inl Let_def split: if_splits)
qed

theorem deserialize_length_wraps_witness:
  "deserialize_value [2, 255, 255, 255, 255] STRING_T = Inl UndefinedBehaviour"
  using deserialize_length_wraps [of "[2, 255, 255, 255, 255]" STRING_T]
  by (simp add: slice_def)


text \<open>C33: on the values of one column type other than \<^verbatim>\<open>FLOAT\<close>, \<^verbatim>\<open>NULL\<close> included, the operators of
  \<^verbatim>\<open>Value\<close> are a strict total order and its equality: \<^verbatim>\<open><\<close> is irreflexive, transitive and total,
  \<^verbatim>\<open>==\<close> is identity, and \<^verbatim>\<open><=\<close>, \<^verbatim>\<open>>\<close>, \<^verbatim>\<open>>=\<close> are the relations derived from \<^verbatim>\<open><\<close>.\<close>

theorem value_comparison_total_order:
  assumes "exact_of t a" and "exact_of t b" and "exact_of t c"
  shows "\<not> value_less a a \<and>
    (value_less a b \<and> value_less b c \<longrightarrow> value_less a c) \<and>
    (value_less a b \<or> a = b \<or> value_less b a) \<and>
    value_eq a b = (a = b) \<and>
    value_le a b = (\<not> value_less b a) \<and>
    value_gt a b = value_less b a \<and>
    value_ge a b = (\<not> value_less a b)"
  using assms value_order.less_irrefl value_order.less_trans [of t a b c] value_order.less_total
    value_order.eq_iff value_order.not_less_iff [of t b a]
  by (auto simp: value_le_def value_gt_def value_ge_def)

theorem value_comparison_total_order_witness:
  "exact_of INT_T (IntV 1) \<and> exact_of INT_T (IntV 2) \<and> exact_of INT_T NullV \<and>
   value_gt (IntV 2) (IntV 1) = value_less (IntV 1) (IntV 2) \<and> \<not> value_less (IntV 2) (IntV 2)"
proof -
  have h: "exact_of INT_T (IntV 1)" "exact_of INT_T (IntV 2)" "exact_of INT_T NullV"
    by (simp_all add: exact_of_def)
  show ?thesis
    using h value_comparison_total_order [OF h(2) h(1) h(3)] by simp
qed

end
