(* ===== verification/Rows.thy ===== *)
theory Rows
  imports Values
begin

text \<open>
  Rows, columns and the tuple format: \<^verbatim>\<open>src/core/row.cc\<close>, \<^verbatim>\<open>src/core/column.cc\<close> and
  \<^verbatim>\<open>src/storage/page_format.cc\<close>. A tuple is two 64-bit transaction ids followed by one
  length-prefixed value blob per column.
\<close>

section \<open>Rows\<close>

record row =
  row_values :: "sql_value list"
  row_xmin :: u64
  row_xmax :: u64

definition make_row :: "sql_value list \<Rightarrow> row" where
  "make_row vs = \<lparr>row_values = vs, row_xmin = 0, row_xmax = 0\<rparr>"

definition add_value :: "row \<Rightarrow> sql_value \<Rightarrow> row" where
  "add_value r v = r\<lparr>row_values := row_values r @ [v]\<rparr>"

definition set_value :: "row \<Rightarrow> nat \<Rightarrow> sql_value \<Rightarrow> row result" where
  "set_value r i v =
     (if length (row_values r) \<le> i then Inl (OutOfRange ''Row index out of range'')
      else Inr (r\<lparr>row_values := (row_values r)[i := v]\<rparr>))"

definition remove_value :: "row \<Rightarrow> nat \<Rightarrow> row result" where
  "remove_value r i =
     (if length (row_values r) \<le> i then Inl (OutOfRange ''Row index out of range'')
      else Inr (r\<lparr>row_values := take i (row_values r) @ drop (Suc i) (row_values r)\<rparr>))"

definition get_value :: "row \<Rightarrow> nat \<Rightarrow> sql_value result" where
  "get_value r i =
     (if length (row_values r) \<le> i then Inl (OutOfRange ''Row index out of range'')
      else Inr (row_values r ! i))"

definition get_column_count :: "row \<Rightarrow> nat" where
  "get_column_count r = length (row_values r)"

definition row_eq :: "row \<Rightarrow> row \<Rightarrow> bool" where
  "row_eq r s = list_all2 value_eq (row_values r) (row_values s)"

section \<open>Columns\<close>

record column =
  col_name :: string
  col_type :: data_type
  col_nullable :: bool
  col_primary_key :: bool
  col_unique :: bool
  col_default :: "sql_value option"

definition make_column :: "string \<Rightarrow> data_type \<Rightarrow> bool \<Rightarrow> bool \<Rightarrow> bool \<Rightarrow> column result" where
  "make_column name t nullable is_primary_key is_unique =
     (if is_primary_key \<and> nullable
      then Inl (ConstraintException ''Primary key column cannot be nullable'')
      else Inr \<lparr>col_name = name, col_type = t, col_nullable = nullable,
             col_primary_key = is_primary_key, col_unique = is_unique, col_default = None\<rparr>)"

definition set_nullable :: "column \<Rightarrow> bool \<Rightarrow> column result" where
  "set_nullable c nullable =
     (if col_primary_key c \<and> nullable
      then Inl (ConstraintException ''Primary key column cannot be nullable'')
      else Inr (c\<lparr>col_nullable := nullable\<rparr>))"

definition set_primary_key :: "column \<Rightarrow> bool \<Rightarrow> column" where
  "set_primary_key c is_primary_key =
     (if is_primary_key then c\<lparr>col_nullable := False, col_primary_key := True\<rparr>
      else c\<lparr>col_primary_key := False\<rparr>)"

definition set_unique :: "column \<Rightarrow> bool \<Rightarrow> column" where
  "set_unique c is_unique = c\<lparr>col_unique := is_unique\<rparr>"

definition set_column_name :: "column \<Rightarrow> string \<Rightarrow> column" where
  "set_column_name c name = c\<lparr>col_name := name\<rparr>"

definition set_default_value :: "column \<Rightarrow> sql_value \<Rightarrow> column" where
  "set_default_value c v = c\<lparr>col_default := Some v\<rparr>"

definition clear_default_value :: "column \<Rightarrow> column" where
  "clear_default_value c = c\<lparr>col_default := None\<rparr>"

definition column_eq :: "column \<Rightarrow> column \<Rightarrow> bool" where
  "column_eq c d = (col_name c = col_name d \<and> col_type c = col_type d)"

text \<open>What the constructor and every setter keep: a primary-key column is not nullable.\<close>

definition wf_column :: "column \<Rightarrow> bool" where
  "wf_column c = (col_primary_key c \<longrightarrow> \<not> col_nullable c)"

section \<open>The tuple format\<close>

definition append_u32 :: "bytes \<Rightarrow> u32 \<Rightarrow> bytes" where
  "append_u32 out v =
     out @ [ucast (v AND 0xFF)] @ [ucast (drop_bit 8 v AND 0xFF)] @
     [ucast (drop_bit 16 v AND 0xFF)] @ [ucast (drop_bit 24 v AND 0xFF)]"

definition append_u64 :: "bytes \<Rightarrow> u64 \<Rightarrow> bytes" where
  "append_u64 out v = out @ map (\<lambda>i. ucast (drop_bit (8 * i) v AND 0xFF)) [0..<8]"

text \<open>The readers take the offset by reference: they return the value and the new offset.\<close>

definition read_u32 :: "bytes \<Rightarrow> nat \<Rightarrow> nat \<Rightarrow> (u32 \<times> nat) result" where
  "read_u32 d offset len =
     (if len < offset + 4 then Inl (StorageException ''Truncated tuple while reading u32'')
      else Inr (ucast (d ! offset) OR push_bit 8 (ucast (d ! (offset + 1))) OR
            push_bit 16 (ucast (d ! (offset + 2))) OR push_bit 24 (ucast (d ! (offset + 3))),
          offset + 4))"

definition read_u64 :: "bytes \<Rightarrow> nat \<Rightarrow> nat \<Rightarrow> (u64 \<times> nat) result" where
  "read_u64 d offset len =
     (if len < offset + 8 then Inl (StorageException ''Truncated tuple while reading u64'')
      else Inr (foldl (\<lambda>v i. v OR push_bit (8 * i) (ucast (d ! (offset + i)))) 0 [0..<8],
          offset + 8))"

definition serialize_columns :: "bytes \<Rightarrow> sql_value list \<Rightarrow> bytes" where
  "serialize_columns out vs =
     foldl (\<lambda>acc v. let blob = serialize_value v in append_u32 acc (of_nat (length blob)) @ blob) out vs"

definition serialize_tuple :: "row \<Rightarrow> bytes" where
  "serialize_tuple r =
     serialize_columns (append_u64 (append_u64 [] (row_xmin r)) (row_xmax r)) (row_values r)"

definition measure_tuple_size :: "row \<Rightarrow> nat" where
  "measure_tuple_size r = foldl (\<lambda>sz v. sz + (4 + length (serialize_value v))) 16 (row_values r)"

fun deserialize_columns :: "bytes \<Rightarrow> nat \<Rightarrow> nat \<Rightarrow> data_type list \<Rightarrow> row \<Rightarrow> row result" where
  "deserialize_columns d len offset [] r = Inr r"
| "deserialize_columns d len offset (t # ts) r =
     bindR (read_u32 d offset len) (\<lambda>(value_len, offset').
       if len < offset' + unat value_len
       then Inl (StorageException ''Truncated tuple column payload'')
       else bindR (deserialize_value (slice d offset' (unat value_len)) t) (\<lambda>v.
         deserialize_columns d len (offset' + unat value_len) ts (add_value r v)))"

text \<open>The data pointer and the length come from one vector, so the length is that of the buffer.\<close>

definition deserialize_tuple :: "bytes \<Rightarrow> data_type list \<Rightarrow> row result" where
  "deserialize_tuple d column_types =
     bindR (read_u64 d 0 (length d)) (\<lambda>(xmin, o1).
       bindR (read_u64 d o1 (length d)) (\<lambda>(xmax, o2).
         deserialize_columns d (length d) o2 column_types
           ((make_row [])\<lparr>row_xmin := xmin, row_xmax := xmax\<rparr>)))"

definition wf_row :: "row \<Rightarrow> bool" where
  "wf_row r = list_all wf_value (row_values r)"

text \<open>The bytes one column contributes to a tuple.\<close>

definition col_bytes :: "sql_value \<Rightarrow> bytes" where
  "col_bytes v = le_bytes 4 (of_nat (length (serialize_value v)) :: u32) @ serialize_value v"

section \<open>Columns stay well formed\<close>

lemma wf_make_column [invar_intros]: "make_column n t nl pk uq = Inr c \<Longrightarrow> wf_column c"
  by (auto simp: make_column_def wf_column_def split: if_splits)

lemma wf_set_nullable [invar_intros]: "wf_column c \<Longrightarrow> set_nullable c nl = Inr c' \<Longrightarrow> wf_column c'"
  by (auto simp: set_nullable_def wf_column_def split: if_splits)

lemma wf_column_setters [invar_intros]:
  "wf_column (set_primary_key c True)"
  "wf_column c \<Longrightarrow> wf_column (set_primary_key c pk)"
  "wf_column c \<Longrightarrow> wf_column (set_unique c uq)"
  "wf_column c \<Longrightarrow> wf_column (set_column_name c n)"
  "wf_column c \<Longrightarrow> wf_column (set_default_value c v)"
  "wf_column c \<Longrightarrow> wf_column (clear_default_value c)"
  by (auto simp: wf_column_def set_primary_key_def set_unique_def set_column_name_def
    set_default_value_def clear_default_value_def)

section \<open>The tuple codec\<close>

lemma append_u32_conv: "append_u32 out v = out @ le_bytes 4 v"
  by (simp add: append_u32_def le_bytes_conv_map and_byte_mask ucast_take_byte upt_rec [of _ 4])

lemma append_u64_conv: "append_u64 out v = out @ le_bytes 8 v"
  by (simp add: append_u64_def serialize_u32_bytes del: upt_Suc)

lemma read_u64_conv:
  "off + 8 \<le> length d \<Longrightarrow> read_u64 d off (length d) = Inr (le_word (slice d off 8), off + 8)"
  using foldl_or_le_word [where 'a = 64, of off 8 d] by (simp add: read_u64_def add.commute del: upt_Suc)

lemma read_u32_conv:
  assumes "off + 4 \<le> length d"
  shows "read_u32 d off (length d) = Inr (le_word (slice d off 4), off + 4)"
proof -
  have "foldl (\<lambda>v i. v OR push_bit (8 * i) (ucast (d ! (i + off)))) (0 :: u32) [0..<4] = le_word (slice d off 4)"
    using assms by (rule foldl_or_le_word)
  moreover have "[0..<4] = [0, 1, 2, 3 :: nat]" by (simp add: upt_rec)
  ultimately show ?thesis
    using assms by (simp add: read_u32_def add.commute or.assoc)
qed

lemma slice_at: "length pre = k \<Longrightarrow> slice (pre @ xs @ post) k (length xs) = xs"
  by (simp add: slice_def)

lemma read_u32_at:
  assumes "d = pre @ le_bytes 4 v @ post" and "length pre = off"
  shows "read_u32 d off (length d) = Inr (v, off + 4)"
  using assms slice_at [of pre off "le_bytes 4 v" post] read_u32_conv [of off d]
  by (simp add: codec_simps)

lemma read_u64_at:
  assumes "d = pre @ le_bytes 8 v @ post" and "length pre = off"
  shows "read_u64 d off (length d) = Inr (v, off + 8)"
  using assms slice_at [of pre off "le_bytes 8 v" post] read_u64_conv [of off d]
  by (simp add: codec_simps)

lemma length_serialize_value:
  "length (serialize_value v) =
     (case v of NullV \<Rightarrow> 1 | IntV _ \<Rightarrow> 9 | FloatV _ \<Rightarrow> 9 | StringV s \<Rightarrow> 5 + length s | BoolV _ \<Rightarrow> 2)"
  by (simp add: serialize_value_def Let_def split: sql_value.splits)

lemma unat_blob_length:
  "wf_value v \<Longrightarrow> unat (of_nat (length (serialize_value v)) :: u32) = length (serialize_value v)"
  by (auto simp: length_serialize_value wf_value_def unat_of_nat split: sql_value.splits)

lemma serialize_columns_conv: "serialize_columns out vs = out @ concat (map col_bytes vs)"
  by (induction vs arbitrary: out)
    (simp_all add: serialize_columns_def col_bytes_def append_u32_conv Let_def)

lemma serialize_tuple_conv:
  "serialize_tuple r = le_bytes 8 (row_xmin r) @ le_bytes 8 (row_xmax r) @ concat (map col_bytes (row_values r))"
  by (simp add: serialize_tuple_def serialize_columns_conv append_u64_conv)

lemma foldl_sum: "foldl (\<lambda>sz v. sz + f v) (n :: nat) vs = n + sum_list (map f vs)"
  by (induction vs arbitrary: n) auto

lemma length_serialize_tuple: "length (serialize_tuple r) = measure_tuple_size r"
  by (simp add: serialize_tuple_conv measure_tuple_size_def foldl_sum length_concat comp_def col_bytes_def)

lemma deserialize_columns_at:
  assumes "d = pre @ concat (map col_bytes vs) @ post" and "length pre = off"
    and "length ts \<le> length vs" and "list_all wf_value vs"
  shows "deserialize_columns d (length d) off ts r =
           Inr (r\<lparr>row_values := row_values r @ take (length ts) vs\<rparr>)"
  using assms
proof (induction ts arbitrary: vs pre off r)
  case Nil
  then show ?case by simp
next
  case (Cons t ts)
  obtain v vs' where vs: "vs = v # vs'" using Cons.prems(3) by (cases vs) auto
  let ?n = "of_nat (length (serialize_value v)) :: u32"
  let ?rest = "concat (map col_bytes vs') @ post"
  have d: "d = pre @ le_bytes 4 ?n @ serialize_value v @ ?rest"
    using Cons.prems(1) vs by (simp add: col_bytes_def [of v])
  have n: "unat ?n = length (serialize_value v)" and wf: "wf_value v"
    using Cons.prems(4) vs by (simp_all add: unat_blob_length)
  have "slice d (off + 4) (length (serialize_value v)) = serialize_value v"
    using slice_at [of "pre @ le_bytes 4 ?n" "off + 4" "serialize_value v" ?rest] d Cons.prems(2) by simp
  moreover have "off + 4 + length (serialize_value v) \<le> length d"
    using d Cons.prems(2) by simp
  moreover have "deserialize_columns d (length d) (off + 4 + length (serialize_value v)) ts (add_value r v) =
      Inr ((add_value r v)\<lparr>row_values := row_values (add_value r v) @ take (length ts) vs'\<rparr>)"
    by (rule Cons.IH [of "pre @ le_bytes 4 ?n @ serialize_value v"])
      (use d Cons.prems vs in auto)
  ultimately show ?case
    using read_u32_at [OF d Cons.prems(2)] n wf deserialize_serialize [OF wf] vs
    by (simp add: add_value_def)
qed

lemma deserialize_serialize_tuple:
  assumes "wf_row r" and "length ts \<le> get_column_count r"
  shows "deserialize_tuple (serialize_tuple r) ts = Inr (r\<lparr>row_values := take (length ts) (row_values r)\<rparr>)"
proof -
  let ?d = "serialize_tuple r"
  let ?pre = "le_bytes 8 (row_xmin r) @ le_bytes 8 (row_xmax r)"
  have d: "?d = [] @ le_bytes 8 (row_xmin r) @ (le_bytes 8 (row_xmax r) @ concat (map col_bytes (row_values r)))"
    "?d = le_bytes 8 (row_xmin r) @ le_bytes 8 (row_xmax r) @ concat (map col_bytes (row_values r))"
    "?d = ?pre @ concat (map col_bytes (row_values r)) @ []"
    by (simp_all add: serialize_tuple_conv)
  have cols: "deserialize_columns ?d (length ?d) 16 ts q = Inr (q\<lparr>row_values := row_values q @ take (length ts) (row_values r)\<rparr>)" for q
    by (rule deserialize_columns_at [OF d(3)]) (use assms in \<open>auto simp: wf_row_def get_column_count_def\<close>)
  have "read_u64 ?d 0 (length ?d) = Inr (row_xmin r, 8)"
    using read_u64_at [OF d(1)] by simp
  moreover have "read_u64 ?d 8 (length ?d) = Inr (row_xmax r, 16)"
    using read_u64_at [OF d(2)] by simp
  ultimately show ?thesis
    by (simp add: deserialize_tuple_def cols make_row_def)
qed

text \<open>C24: decoding the encoding of a row with the types of its columns, or of a prefix of them, gives
  the row back with its transaction ids, restricted to that prefix; and the encoding has the size
  \<^verbatim>\<open>measure_tuple_size\<close> announces.\<close>

theorem tuple_codec_roundtrip:
  assumes "wf_row r" and "length ts \<le> get_column_count r"
  shows "deserialize_tuple (serialize_tuple r) ts = Inr (r\<lparr>row_values := take (length ts) (row_values r)\<rparr>) \<and>
    length (serialize_tuple r) = measure_tuple_size r"
  using deserialize_serialize_tuple [OF assms] by (simp add: length_serialize_tuple)

theorem tuple_codec_roundtrip_witness:
  "wf_row (make_row [IntV 7, StringV ''x'']) \<and>
   deserialize_tuple (serialize_tuple (make_row [IntV 7, StringV ''x''])) [INT_T, STRING_T] =
     Inr (make_row [IntV 7, StringV ''x''])"
proof -
  have "wf_row (make_row [IntV 7, StringV ''x''])"
    "length [INT_T, STRING_T] \<le> get_column_count (make_row [IntV 7, StringV ''x''])"
    by (simp_all add: wf_row_def wf_value_def make_row_def get_column_count_def)
  from tuple_codec_roundtrip [OF this] this(1) show ?thesis by (simp add: make_row_def)
qed

end
