(* ===== verification/Pages.thy ===== *)
theory Pages
  imports Rows
begin

text \<open>
  The slotted page of \<^verbatim>\<open>src/storage/page.cc\<close> at the level of its 8192 bytes: a packed header
  (\<^verbatim>\<open>page_id\<close>, \<^verbatim>\<open>slot_count\<close>, \<^verbatim>\<open>lower\<close>, \<^verbatim>\<open>upper\<close>, \<^verbatim>\<open>flags\<close>), tuples growing upward from the
  header and the slot directory growing downward from the end. An access outside the buffer, which
  a corrupted header can cause, is \<open>UndefinedBehaviour\<close>. The abstract view of a page is the list of
  its slots, each holding a tuple or nothing.
\<close>

type_synonym page = bytes

definition kPageSize :: nat where
  "kPageSize = 8192"

definition header_size :: nat where
  "header_size = 12"

definition slot_entry_size :: nat where
  "slot_entry_size = 4"

section \<open>Header and slot fields\<close>

definition get16 :: "page \<Rightarrow> nat \<Rightarrow> u16" where
  "get16 p off = le_word (slice p off 2)"

definition put16 :: "page \<Rightarrow> nat \<Rightarrow> u16 \<Rightarrow> page" where
  "put16 p off v = splice p off (le_bytes 2 v)"

definition get_page_id :: "page \<Rightarrow> u32" where
  "get_page_id p = le_word (slice p 0 4)"

definition get_slot_count :: "page \<Rightarrow> u16" where
  "get_slot_count p = get16 p 4"

definition hdr_lower :: "page \<Rightarrow> u16" where
  "hdr_lower p = get16 p 6"

definition hdr_upper :: "page \<Rightarrow> u16" where
  "hdr_upper p = get16 p 8"

definition page_initialize :: "u32 \<Rightarrow> page" where
  "page_initialize page_id =
     (let z = replicate kPageSize (0 :: u8);
          p1 = splice z 0 (le_bytes 4 page_id);
          p2 = put16 p1 4 0;
          p3 = put16 p2 6 (of_nat header_size);
          p4 = put16 p3 8 (of_nat kPageSize)
      in put16 p4 10 0)"

definition page_from_bytes :: "bytes option \<Rightarrow> page result" where
  "page_from_bytes raw =
     (case raw of None \<Rightarrow> Inl (StorageException ''Null page bytes'')
      | Some bs \<Rightarrow> memread bs 0 kPageSize)"

definition get_free_space :: "page \<Rightarrow> nat" where
  "get_free_space p =
     (if unat (hdr_upper p) < unat (hdr_lower p) then 0
      else unat (hdr_upper p) - unat (hdr_lower p))"

definition slot_base :: "page \<Rightarrow> u16 \<Rightarrow> nat" where
  "slot_base p index =
     unat (hdr_upper p) + (unat (get_slot_count p) - 1 - unat index) * slot_entry_size"

definition slot_at :: "page \<Rightarrow> u16 \<Rightarrow> (u16 \<times> u16) result" where
  "slot_at p index =
     bindR (memread p (slot_base p index) slot_entry_size) (\<lambda>e.
       Inr (le_word (slice e 0 2), le_word (slice e 2 2)))"

section \<open>Operations\<close>

definition is_slot_live :: "page \<Rightarrow> u16 \<Rightarrow> bool result" where
  "is_slot_live p slot =
     (if unat (get_slot_count p) \<le> unat slot then Inr False
      else bindR (slot_at p slot) (\<lambda>(offset, len). Inr (offset \<noteq> 0 \<and> len \<noteq> 0)))"

text \<open>The result is the new slot's index and the changed page; a throw changes nothing.\<close>

definition insert_tuple :: "page \<Rightarrow> bytes option \<Rightarrow> u16 \<Rightarrow> (u16 \<times> page) result" where
  "insert_tuple p tuple_bytes tuple_length =
     (case tuple_bytes of
        None \<Rightarrow> Inl (StorageException ''Null tuple bytes'')
      | Some src \<Rightarrow>
        let needed = unat tuple_length + slot_entry_size in
        if get_free_space p < needed then Inl (StorageException ''Tuple does not fit on page'')
        else
          let offset = hdr_lower p in
          bindR (memread src 0 (unat tuple_length)) (\<lambda>tup.
          bindR (memwrite p (unat offset) tup) (\<lambda>p1.
            let p2 = put16 p1 6 (hdr_lower p1 + tuple_length);
                p3 = put16 p2 8 (hdr_upper p2 - of_nat slot_entry_size)
            in bindR (memwrite p3 (unat (hdr_upper p3)) (le_bytes 2 offset @ le_bytes 2 tuple_length))
              (\<lambda>p4.
                let slot_index = get_slot_count p4
                in Inr (slot_index, put16 p4 4 (get_slot_count p4 + 1))))))"

definition read_tuple :: "page \<Rightarrow> u16 \<Rightarrow> bytes option result" where
  "read_tuple p slot =
     bindR (is_slot_live p slot) (\<lambda>live.
       if \<not> live then Inr None
       else bindR (slot_at p slot) (\<lambda>(offset, len).
         bindR (memread p (unat offset) (unat len)) (\<lambda>t. Inr (Some t))))"

definition delete_tuple :: "page \<Rightarrow> u16 \<Rightarrow> page result" where
  "delete_tuple p slot =
     (if unat (get_slot_count p) \<le> unat slot then Inl (StorageException ''Invalid slot index'')
      else bindR (memwrite p (slot_base p slot) (le_bytes 2 (0 :: u16) @ le_bytes 2 (0 :: u16))) Inr)"

definition update_tuple_in_place :: "page \<Rightarrow> u16 \<Rightarrow> bytes option \<Rightarrow> u16 \<Rightarrow> (bool \<times> page) result" where
  "update_tuple_in_place p slot tuple_bytes tuple_length =
     (case tuple_bytes of
        None \<Rightarrow> Inr (False, p)
      | Some src \<Rightarrow>
        bindR (is_slot_live p slot) (\<lambda>live.
          if \<not> live then Inr (False, p)
          else bindR (slot_at p slot) (\<lambda>(offset, len).
            if len \<noteq> tuple_length then Inr (False, p)
            else bindR (memread src 0 (unat tuple_length)) (\<lambda>tup.
              bindR (memwrite p (unat offset) tup) (\<lambda>p'. Inr (True, p'))))))"

section \<open>Invariant and abstract view\<close>

text \<open>In a well-formed page slot \<open>i\<close> stands at a place that does not depend on the slot count.\<close>

definition dir_pos :: "nat \<Rightarrow> nat" where
  "dir_pos i = kPageSize - slot_entry_size * Suc i"

definition slot_off :: "page \<Rightarrow> nat \<Rightarrow> nat" where
  "slot_off p i = unat (get16 p (dir_pos i))"

definition slot_len :: "page \<Rightarrow> nat \<Rightarrow> nat" where
  "slot_len p i = unat (get16 p (dir_pos i + 2))"

definition num_slots :: "page \<Rightarrow> nat" where
  "num_slots p = unat (get_slot_count p)"

definition lower_of :: "page \<Rightarrow> nat" where
  "lower_of p = unat (hdr_lower p)"

definition upper_of :: "page \<Rightarrow> nat" where
  "upper_of p = unat (hdr_upper p)"

definition slot_ok :: "page \<Rightarrow> nat \<Rightarrow> bool" where
  "slot_ok p i =
     ((slot_off p i = 0 \<and> slot_len p i = 0) \<or>
      (header_size \<le> slot_off p i \<and> slot_off p i + slot_len p i \<le> lower_of p))"

definition slots_apart :: "page \<Rightarrow> nat \<Rightarrow> nat \<Rightarrow> bool" where
  "slots_apart p i j =
     (slot_off p i = 0 \<or> slot_off p j = 0 \<or> slot_off p i + slot_len p i \<le> slot_off p j)"

definition wf_page :: "page \<Rightarrow> bool" where
  "wf_page p =
     (length p = kPageSize \<and> header_size \<le> lower_of p \<and> lower_of p \<le> upper_of p \<and>
      upper_of p + slot_entry_size * num_slots p = kPageSize \<and>
      (\<forall>i \<in> {..<num_slots p}. slot_ok p i) \<and>
      (\<forall>j \<in> {..<num_slots p}. \<forall>i \<in> {..<j}. slots_apart p i j))"

definition slot_view :: "page \<Rightarrow> nat \<Rightarrow> bytes option" where
  "slot_view p i =
     (if slot_off p i = 0 \<or> slot_len p i = 0 then None
      else Some (slice p (slot_off p i) (slot_len p i)))"

definition page_view :: "page \<Rightarrow> bytes option list" where
  "page_view p = map (slot_view p) [0..<num_slots p]"

definition placed :: "page \<Rightarrow> bytes \<Rightarrow> u16 \<Rightarrow> page" where
  "placed p t len =
     (let p1 = splice p (lower_of p) t;
          p2 = put16 p1 6 (hdr_lower p + len);
          p3 = put16 p2 8 (hdr_upper p - 4);
          p4 = splice p3 (upper_of p - 4) (le_bytes 2 (hdr_lower p) @ le_bytes 2 len)
      in put16 p4 4 (get_slot_count p + 1))"

definition fits :: "page \<Rightarrow> bytes \<Rightarrow> u16 \<Rightarrow> bool" where
  "fits p t len =
     (wf_page p \<and> length t = unat len \<and> 0 < length t \<and> lower_of p + length t + 4 \<le> upper_of p)"

definition same_size_slot :: "page \<Rightarrow> nat \<Rightarrow> bytes \<Rightarrow> bool" where
  "same_size_slot p i t =
     (i < length (page_view p) \<and>
      (case page_view p ! i of None \<Rightarrow> False | Some old \<Rightarrow> length old = length t))"

section \<open>Lemmas\<close>

lemmas page_consts = kPageSize_def header_size_def slot_entry_size_def

lemma length_put16 [simp]: "off + 2 \<le> length p \<Longrightarrow> length (put16 p off v) = length p"
  by (simp add: put16_def)

lemma get16_put16_same [simp]: "off + 2 \<le> length p \<Longrightarrow> get16 (put16 p off v) off = v"
  by (simp add: get16_def put16_def codec_simps)

lemma get16_splice [simp]:
  "off + length ys \<le> length p \<Longrightarrow> o' + 2 \<le> length p \<Longrightarrow> o' + 2 \<le> off \<or> off + length ys \<le> o' \<Longrightarrow>
     get16 (splice p off ys) o' = get16 p o'"
  by (simp add: get16_def slice_splice_disjoint)

lemma slice_put16 [simp]:
  "off + 2 \<le> length p \<Longrightarrow> o' + n \<le> length p \<Longrightarrow> o' + n \<le> off \<or> off + 2 \<le> o' \<Longrightarrow>
     slice (put16 p off v) o' n = slice p o' n"
  by (simp add: put16_def slice_splice_disjoint)

lemma get16_put16_other [simp]:
  "off + 2 \<le> length p \<Longrightarrow> o' + 2 \<le> length p \<Longrightarrow> o' + 2 \<le> off \<or> off + 2 \<le> o' \<Longrightarrow>
     get16 (put16 p off v) o' = get16 p o'"
  by (simp add: get16_def)

lemma get16_splice_entry:
  assumes "b + 4 \<le> length p"
  shows "get16 (splice p b (le_bytes 2 x @ le_bytes 2 y)) b = x"
    and "get16 (splice p b (le_bytes 2 x @ le_bytes 2 y)) (b + 2) = y"
proof -
  have "slice (splice p b (le_bytes 2 x @ le_bytes 2 y)) b 2 = le_bytes 2 x"
    "slice (splice p b (le_bytes 2 x @ le_bytes 2 y)) (b + 2) 2 = le_bytes 2 y"
    using assms by (simp_all add: splice_def slice_def)
  then show "get16 (splice p b (le_bytes 2 x @ le_bytes 2 y)) b = x"
    and "get16 (splice p b (le_bytes 2 x @ le_bytes 2 y)) (b + 2) = y"
    by (simp_all add: get16_def codec_simps)
qed

lemma wf_pageD:
  assumes "wf_page p"
  shows "length p = 8192" and "12 \<le> lower_of p" and "lower_of p \<le> upper_of p"
    and "upper_of p + 4 * num_slots p = 8192"
    and "i < num_slots p \<Longrightarrow> slot_ok p i"
    and "i < j \<Longrightarrow> j < num_slots p \<Longrightarrow> slots_apart p i j"
  using assms by (auto simp: wf_page_def page_consts)

lemma wf_pageI:
  assumes "length p = 8192" and "12 \<le> lower_of p" and "lower_of p \<le> upper_of p"
    and "upper_of p + 4 * num_slots p = 8192"
    and "\<And>i. i < num_slots p \<Longrightarrow> slot_ok p i"
    and "\<And>i j. i < j \<Longrightarrow> j < num_slots p \<Longrightarrow> slots_apart p i j"
  shows "wf_page p"
  using assms by (auto simp: wf_page_def page_consts)

lemma slot_base_conv:
  assumes "wf_page p" and "unat i < num_slots p"
  shows "slot_base p i = dir_pos (unat i)"
  using assms wf_pageD(4) [OF assms(1)]
  by (auto simp: slot_base_def dir_pos_def page_consts upper_of_def num_slots_def)

lemma dir_pos_bounds:
  assumes "wf_page p" and "i < num_slots p"
  shows "upper_of p \<le> dir_pos i" and "dir_pos i + 4 \<le> 8192"
  using assms wf_pageD(4) [OF assms(1)] by (auto simp: dir_pos_def page_consts)

lemma slot_at_conv:
  assumes "wf_page p" and "unat i < num_slots p"
  shows "slot_at p i = Inr (get16 p (dir_pos (unat i)), get16 p (dir_pos (unat i) + 2))"
proof -
  have b: "dir_pos (unat i) + 4 \<le> length p"
    using dir_pos_bounds [OF assms] wf_pageD(1) [OF assms(1)] by simp
  have "slice (slice p (dir_pos (unat i)) 4) 0 2 = slice p (dir_pos (unat i)) 2"
    "slice (slice p (dir_pos (unat i)) 4) 2 2 = slice p (dir_pos (unat i) + 2) 2"
    using b by (simp_all add: slice_def drop_take)
  then show ?thesis
    using b by (simp add: slot_at_def slot_base_conv [OF assms] memread_def page_consts get16_def)
qed

lemma is_slot_live_conv:
  assumes "wf_page p"
  shows "is_slot_live p i = Inr (unat i < num_slots p \<and> slot_view p (unat i) \<noteq> None)"
proof (cases "unat i < num_slots p")
  case True
  have "get16 p (dir_pos (unat i)) \<noteq> 0 \<longleftrightarrow> slot_off p (unat i) \<noteq> 0"
    "get16 p (dir_pos (unat i) + 2) \<noteq> 0 \<longleftrightarrow> slot_len p (unat i) \<noteq> 0"
    by (simp_all add: slot_off_def slot_len_def unat_eq_zero)
  then show ?thesis
    using True by (simp add: is_slot_live_def slot_at_conv [OF assms True] slot_view_def num_slots_def not_le)
next
  case False
  then show ?thesis by (simp add: is_slot_live_def num_slots_def)
qed

lemma slot_view_bounds:
  assumes "wf_page p" and "i < num_slots p" and "slot_view p i = Some t"
  shows "12 \<le> slot_off p i" and "slot_off p i + slot_len p i \<le> lower_of p"
    and "length t = slot_len p i" and "t = slice p (slot_off p i) (slot_len p i)"
  using assms wf_pageD(5) [OF assms(1,2)] wf_pageD(1-4) [OF assms(1)]
  by (auto simp: slot_view_def slot_ok_def page_consts split: if_splits)

lemma read_tuple_conv:
  assumes "wf_page p"
  shows "read_tuple p i = Inr (if unat i < num_slots p then page_view p ! unat i else None)"
proof (cases "unat i < num_slots p \<and> slot_view p (unat i) \<noteq> None")
  case True
  then obtain t where t: "unat i < num_slots p" "slot_view p (unat i) = Some t" by auto
  note b = slot_view_bounds [OF assms t]
  have "slot_off p (unat i) + slot_len p (unat i) \<le> length p"
    using b(2) wf_pageD(1-4) [OF assms] by linarith
  then show ?thesis
    using t b by (simp add: read_tuple_def is_slot_live_conv [OF assms] slot_at_conv [OF assms] page_view_def
        memread_def slot_off_def slot_len_def)
next
  case False
  then show ?thesis by (auto simp: read_tuple_def is_slot_live_conv [OF assms] page_view_def)
qed

lemma delete_tuple_conv:
  assumes "wf_page p" and "unat i < num_slots p"
  shows "\<exists>p'. delete_tuple p i = Inr p' \<and> wf_page p' \<and> page_view p' = (page_view p)[unat i := None] \<and>
    get_page_id p' = get_page_id p"
proof -
  let ?p' = "splice p (dir_pos (unat i)) (le_bytes 2 (0 :: u16) @ le_bytes 2 (0 :: u16))"
  note wf = wf_pageD [OF assms(1)] and b = dir_pos_bounds [OF assms]
  have hdr: "num_slots ?p' = num_slots p" "lower_of ?p' = lower_of p" "upper_of ?p' = upper_of p"
    "get_page_id ?p' = get_page_id p"
    using wf(1-3) b by (simp_all add: num_slots_def lower_of_def upper_of_def get_slot_count_def
        hdr_lower_def hdr_upper_def get_page_id_def slice_splice_disjoint)
  have same: "slot_off ?p' (unat i) = 0" "slot_len ?p' (unat i) = 0"
    using wf(1) b get16_splice_entry [of "dir_pos (unat i)" p 0 0]
    by (simp_all add: slot_off_def slot_len_def)
  have other: "slot_off ?p' j = slot_off p j" "slot_len ?p' j = slot_len p j"
    if "j < num_slots p" "j \<noteq> unat i" for j
  proof -
    have "dir_pos j + 4 \<le> dir_pos (unat i) \<or> dir_pos (unat i) + 4 \<le> dir_pos j"
      using that assms(2) wf(4) by (auto simp: dir_pos_def page_consts)
    then show "slot_off ?p' j = slot_off p j" "slot_len ?p' j = slot_len p j"
      using dir_pos_bounds [OF assms(1) that(1)] b wf(1) by (auto simp: slot_off_def slot_len_def)
  qed
  have view: "slot_view ?p' j = (if j = unat i then None else slot_view p j)" if "j < num_slots p" for j
  proof (cases "j = unat i")
    case False
    then show ?thesis
      using other [OF that False] slot_view_bounds [OF assms(1) that] wf(1-4) b
      by (auto simp: slot_view_def slice_splice_disjoint split: if_splits)
  qed (simp add: slot_view_def same)
  have "wf_page ?p'"
  proof (rule wf_pageI)
    fix j assume "j < num_slots ?p'"
    then show "slot_ok ?p' j"
      using wf(5) [of j] other [of j] same hdr by (cases "j = unat i") (auto simp: slot_ok_def)
  next
    fix j k assume "j < k" "k < num_slots ?p'"
    then show "slots_apart ?p' j k"
      using wf(6) [of j k] other [of j] other [of k] same hdr
      by (cases "j = unat i"; cases "k = unat i") (auto simp: slots_apart_def)
  qed (use wf(1-4) b hdr in auto)
  moreover have "page_view ?p' = (page_view p)[unat i := None]"
    using view hdr by (auto simp: page_view_def list_eq_iff_nth_eq nth_list_update)
  ultimately show ?thesis
    using assms b wf(1) hdr slot_base_conv [OF assms]
    by (simp add: delete_tuple_def memwrite_def num_slots_def not_le)
qed

lemma fitsD:
  assumes "fits p t len"
  shows "wf_page p" and "length t = unat len" and "0 < length t" and "length p = 8192"
    and "12 \<le> lower_of p" and "lower_of p + length t + 4 \<le> upper_of p" and "upper_of p \<le> 8192"
    and "upper_of p + 4 * num_slots p = 8192" and "num_slots p < 65535"
proof -
  show wf: "wf_page p" and "length t = unat len" and "0 < length t"
    and "lower_of p + length t + 4 \<le> upper_of p"
    using assms unfolding fits_def by blast+
  show "length p = 8192" and "12 \<le> lower_of p" and "upper_of p \<le> 8192"
    and "upper_of p + 4 * num_slots p = 8192" and "num_slots p < 65535"
    using wf_pageD(1-4) [OF wf] by linarith+
qed

lemma length_placed: "fits p t len \<Longrightarrow> length (placed p t len) = 8192"
  using fitsD [of p t len] by (simp add: placed_def Let_def)

lemma placed_words:
  assumes "fits p t len"
  shows "get_slot_count (placed p t len) = get_slot_count p + 1"
    and "hdr_lower (placed p t len) = hdr_lower p + len"
    and "hdr_upper (placed p t len) = hdr_upper p - 4"
    and "get_page_id (placed p t len) = get_page_id p"
  using fitsD [OF assms]
  by (simp_all add: placed_def Let_def get_slot_count_def hdr_lower_def hdr_upper_def get_page_id_def
      slice_splice_disjoint)

lemma placed_header:
  assumes "fits p t len"
  shows "num_slots (placed p t len) = Suc (num_slots p)"
    and "lower_of (placed p t len) = lower_of p + length t"
    and "upper_of (placed p t len) = upper_of p - 4"
proof -
  note f = fitsD [OF assms] and w = placed_words [OF assms]
  show "num_slots (placed p t len) = Suc (num_slots p)"
    using f(9) w(1) by (simp add: num_slots_def unat_word_ariths)
  show "lower_of (placed p t len) = lower_of p + length t"
    using f w(2) by (simp add: lower_of_def unat_word_ariths)
  show "upper_of (placed p t len) = upper_of p - 4"
    using f w(3) by (simp add: upper_of_def unat_sub word_le_nat_alt)
qed

lemma placed_keeps:
  assumes "fits p t len" and "12 \<le> a" and "a + k \<le> lower_of p \<or> upper_of p \<le> a" and "a + k \<le> 8192"
  shows "slice (placed p t len) a k = slice p a k"
  using fitsD [OF assms(1)] assms(2-) by (auto simp: placed_def Let_def slice_splice_disjoint)

lemma placed_tuple:
  assumes "fits p t len"
  shows "slice (placed p t len) (lower_of p) (length t) = t"
  using fitsD [OF assms] by (simp add: placed_def Let_def slice_splice_disjoint)

lemma placed_old_slot:
  assumes "fits p t len" and "i < num_slots p"
  shows "slot_off (placed p t len) i = slot_off p i" and "slot_len (placed p t len) i = slot_len p i"
  using dir_pos_bounds [OF fitsD(1) [OF assms(1)] assms(2)] fitsD [OF assms(1)]
    placed_keeps [OF assms(1), of "dir_pos i" 2] placed_keeps [OF assms(1), of "dir_pos i + 2" 2]
  by (simp_all add: slot_off_def slot_len_def get16_def)

lemma placed_new_slot:
  assumes "fits p t len"
  shows "slot_off (placed p t len) (num_slots p) = lower_of p"
    and "slot_len (placed p t len) (num_slots p) = length t"
proof -
  note f = fitsD [OF assms]
  define b where "b = upper_of p - 4"
  define q where "q = put16 (put16 (splice p (lower_of p) t) 6 (hdr_lower p + len)) 8 (hdr_upper p - 4)"
  have b: "12 \<le> b" "b + 4 \<le> 8192" "dir_pos (num_slots p) = b"
    using f by (simp_all add: b_def dir_pos_def page_consts)
  have q: "length q = 8192" using f by (simp add: q_def)
  have "placed p t len = put16 (splice q b (le_bytes 2 (hdr_lower p) @ le_bytes 2 len)) 4 (get_slot_count p + 1)"
    by (simp add: placed_def Let_def q_def b_def)
  then have "get16 (placed p t len) b = hdr_lower p" "get16 (placed p t len) (b + 2) = len"
    using q b get16_splice_entry [of b q "hdr_lower p" len] by simp_all
  then show "slot_off (placed p t len) (num_slots p) = lower_of p"
    and "slot_len (placed p t len) (num_slots p) = length t"
    using b(3) f(2) by (simp_all add: slot_off_def slot_len_def lower_of_def)
qed

lemma placed_slot_view:
  assumes "fits p t len" and "i < Suc (num_slots p)"
  shows "slot_view (placed p t len) i = (if i = num_slots p then Some t else slot_view p i)"
proof (cases "i = num_slots p")
  case True
  then show ?thesis
    using placed_new_slot [OF assms(1)] placed_tuple [OF assms(1)] fitsD [OF assms(1)]
    by (simp add: slot_view_def)
next
  case False
  then have i: "i < num_slots p" using assms(2) by simp
  note old = placed_old_slot [OF assms(1) i]
  show ?thesis
  proof (cases "slot_view p i")
    case None
    then show ?thesis using False old by (simp add: slot_view_def split: if_splits)
  next
    case (Some u)
    then show ?thesis
      using False old slot_view_bounds [OF fitsD(1) [OF assms(1)] i Some] fitsD [OF assms(1)]
        placed_keeps [OF assms(1), of "slot_off p i" "slot_len p i"]
      by (simp add: slot_view_def split: if_splits)
  qed
qed

lemma wf_placed:
  assumes "fits p t len"
  shows "wf_page (placed p t len)"
proof (rule wf_pageI)
  note f = fitsD [OF assms] and w = wf_pageD [OF fitsD(1) [OF assms]]
  note hdr = placed_header [OF assms] and old = placed_old_slot [OF assms] and new = placed_new_slot [OF assms]
  fix i assume "i < num_slots (placed p t len)"
  then show "slot_ok (placed p t len) i"
    using w(5) [of i] old [of i] new hdr f(5)
    by (cases "i = num_slots p") (auto simp: slot_ok_def page_consts)
next
  note w = wf_pageD [OF fitsD(1) [OF assms]]
  fix i j assume "i < j" "j < num_slots (placed p t len)"
  then show "slots_apart (placed p t len) i j"
    using w(5) [of i] w(6) [of i j] placed_old_slot [OF assms, of i] placed_old_slot [OF assms, of j]
      placed_new_slot [OF assms] placed_header [OF assms]
    by (cases "j = num_slots p") (auto simp: slots_apart_def slot_ok_def)
qed (use length_placed [OF assms] placed_header [OF assms] fitsD [OF assms] in auto)

lemma page_view_placed: "fits p t len \<Longrightarrow> page_view (placed p t len) = page_view p @ [Some t]"
  using placed_slot_view placed_header(1)
  by (auto simp: page_view_def list_eq_iff_nth_eq nth_append)

lemma insert_tuple_placed:
  assumes "fits p t len"
  shows "insert_tuple p (Some t) len = Inr (get_slot_count p, placed p t len)"
proof -
  note f = fitsD [OF assms]
  let ?p1 = "splice p (lower_of p) t"
  let ?p2 = "put16 ?p1 6 (hdr_lower p + len)"
  let ?p3 = "put16 ?p2 8 (hdr_upper p - 4)"
  have h: "hdr_lower ?p1 = hdr_lower p" "hdr_upper ?p2 = hdr_upper p" "hdr_upper ?p3 = hdr_upper p - 4"
    "get_slot_count (splice ?p3 (upper_of p - 4) (le_bytes 2 (hdr_lower p) @ le_bytes 2 len)) = get_slot_count p"
    using f by (simp_all add: hdr_lower_def hdr_upper_def get_slot_count_def)
  have u: "unat (hdr_upper p - 4) = upper_of p - 4"
    using f by (simp add: upper_of_def unat_sub word_le_nat_alt)
  have "memread t 0 (unat len) = Inr t" using f by (simp add: memread_def slice_def)
  moreover have "memwrite p (unat (hdr_lower p)) t = Inr ?p1"
    using f by (simp add: memwrite_def lower_of_def)
  moreover have "memwrite ?p3 (upper_of p - 4) (le_bytes 2 (hdr_lower p) @ le_bytes 2 len) =
      Inr (splice ?p3 (upper_of p - 4) (le_bytes 2 (hdr_lower p) @ le_bytes 2 len))"
    using f by (simp add: memwrite_def)
  moreover have "\<not> get_free_space p < unat len + 4"
    using f by (simp add: get_free_space_def lower_of_def upper_of_def)
  ultimately show ?thesis
    using h u by (simp add: insert_tuple_def page_consts Let_def placed_def)
qed

lemma fits_iff_free_space:
  assumes "wf_page p" and "length t = unat len" and "0 < length t"
  shows "fits p t len \<longleftrightarrow> length t + 4 \<le> get_free_space p"
  using assms wf_pageD(3) [of p]
  by (auto simp: fits_def get_free_space_def lower_of_def upper_of_def)

lemma page_initialize_fields:
  "length (page_initialize pid) = 8192" "get_page_id (page_initialize pid) = pid"
  "num_slots (page_initialize pid) = 0" "lower_of (page_initialize pid) = 12"
  "upper_of (page_initialize pid) = 8192"
  by (simp_all add: page_initialize_def Let_def kPageSize_def header_size_def get_page_id_def num_slots_def
      lower_of_def upper_of_def get_slot_count_def hdr_lower_def hdr_upper_def codec_simps)

lemma wf_page_initialize: "wf_page (page_initialize pid)"
  by (rule wf_pageI) (simp_all add: page_initialize_fields)

lemma page_view_initialize: "page_view (page_initialize pid) = []"
  by (simp add: page_view_def page_initialize_fields)

lemma length_page_view [simp]: "length (page_view p) = num_slots p"
  by (simp add: page_view_def)

lemma overwrite_slot:
  assumes wf: "wf_page p" and i: "i < num_slots p" and old: "slot_view p i = Some old"
    and len: "length old = length t" and pos: "0 < length t"
  shows "wf_page (splice p (slot_off p i) t)"
    and "page_view (splice p (slot_off p i) t) = (page_view p)[i := Some t]"
    and "get_page_id (splice p (slot_off p i) t) = get_page_id p"
    and "slot_off p i + length t \<le> length p" and "slot_len p i = length t"
proof -
  let ?off = "slot_off p i" let ?p' = "splice p ?off t"
  note w = wf_pageD [OF wf] and b = slot_view_bounds [OF wf i old]
  have bound: "12 \<le> ?off" "?off + length t \<le> lower_of p" "slot_len p i = length t"
    using b len by simp_all
  show le: "?off + length t \<le> length p" and "slot_len p i = length t"
    using bound w(1-4) by linarith+
  have hdr: "num_slots ?p' = num_slots p" "lower_of ?p' = lower_of p" "upper_of ?p' = upper_of p"
    using w(1-3) bound le by (simp_all add: num_slots_def lower_of_def upper_of_def get_slot_count_def
        hdr_lower_def hdr_upper_def)
  show "get_page_id ?p' = get_page_id p"
    using w(1-3) bound le by (simp add: get_page_id_def slice_splice_disjoint)
  have dir: "slot_off ?p' j = slot_off p j" "slot_len ?p' j = slot_len p j" if "j < num_slots p" for j
    using dir_pos_bounds [OF wf that] bound le w(1-3) by (simp_all add: slot_off_def slot_len_def)
  have others: "slice ?p' (slot_off p j) (slot_len p j) = slice p (slot_off p j) (slot_len p j)"
    if j: "j < num_slots p" "j \<noteq> i" "slot_view p j = Some u" for j u
  proof -
    have bj: "12 \<le> slot_off p j" "slot_off p j + slot_len p j \<le> lower_of p"
      using slot_view_bounds [OF wf j(1,3)] by simp_all
    then have "slot_off p j + slot_len p j \<le> ?off \<or> ?off + length t \<le> slot_off p j"
      using w(6) [of j i] w(6) [of i j] i j bound by (cases "j < i") (auto simp: slots_apart_def)
    then show ?thesis using le bj w(1-4) by (intro slice_splice_disjoint) auto
  qed
  have view: "slot_view ?p' j = (if j = i then Some t else slot_view p j)" if j: "j < num_slots p" for j
    using dir [OF j] bound le pos others [OF j] by (auto simp: slot_view_def split: if_splits)
  show "wf_page ?p'"
    using w dir hdr le by (intro wf_pageI) (auto simp: slot_ok_def slots_apart_def)
  show "page_view ?p' = (page_view p)[i := Some t]"
    using view hdr by (auto simp: page_view_def list_eq_iff_nth_eq nth_list_update)
qed

lemma update_in_place_hit:
  assumes "wf_page p" and "length t = unat len" and "0 < length t" and "same_size_slot p (unat i) t"
  shows "update_tuple_in_place p i (Some t) len = Inr (True, splice p (slot_off p (unat i)) t)"
proof -
  obtain old where i: "unat i < num_slots p" and old: "slot_view p (unat i) = Some old" "length old = length t"
    using assms(4) by (auto simp: same_size_slot_def page_view_def split: option.splits)
  note o = overwrite_slot(4,5) [OF assms(1) i old assms(3)]
  have "get16 p (dir_pos (unat i) + 2) = len"
    using o(2) assms(2) by (simp add: slot_len_def word_unat_eq_iff)
  moreover have "memread t 0 (unat len) = Inr t"
    using assms(2) by (simp add: memread_def slice_def)
  moreover have "memwrite p (unat (get16 p (dir_pos (unat i)))) t = Inr (splice p (slot_off p (unat i)) t)"
    using o(1) by (simp add: memwrite_def slot_off_def)
  ultimately show ?thesis
    using old(1) i
    by (simp add: update_tuple_in_place_def is_slot_live_conv [OF assms(1)] slot_at_conv [OF assms(1)])
qed

lemma update_in_place_miss:
  assumes "wf_page p" and "length t = unat len" and "\<not> same_size_slot p (unat i) t"
  shows "update_tuple_in_place p i (Some t) len = Inr (False, p)"
proof (cases "unat i < num_slots p \<and> slot_view p (unat i) \<noteq> None")
  case True
  then obtain old where i: "unat i < num_slots p" and old: "slot_view p (unat i) = Some old" by auto
  then have "length old \<noteq> length t" using assms(3) by (auto simp: same_size_slot_def page_view_def)
  then have "get16 p (dir_pos (unat i) + 2) \<noteq> len"
    using slot_view_bounds(3) [OF assms(1) i old] assms(2) by (auto simp: slot_len_def)
  then show ?thesis
    using True by (simp add: update_tuple_in_place_def is_slot_live_conv [OF assms(1)] slot_at_conv [OF assms(1)])
qed (auto simp: update_tuple_in_place_def is_slot_live_conv [OF assms(1)])

lemma insert_tuple_no_space:
  "get_free_space p < unat len + 4 \<Longrightarrow>
     insert_tuple p (Some t) len = Inl (StorageException ''Tuple does not fit on page'')"
  by (simp add: insert_tuple_def page_consts)

section \<open>The contract of a slotted page\<close>

text \<open>
  What the heap file relies on: a page behaves as a list of slots. \<open>space\<close> is the free space in
  bytes; a tuple needs four bytes more than its length.
\<close>

locale slotted_page =
  fixes invar :: "'p \<Rightarrow> bool" and view :: "'p \<Rightarrow> bytes option list" and space :: "'p \<Rightarrow> nat"
    and ins :: "'p \<Rightarrow> bytes option \<Rightarrow> u16 \<Rightarrow> (u16 \<times> 'p) result"
    and rd :: "'p \<Rightarrow> u16 \<Rightarrow> bytes option result"
    and del :: "'p \<Rightarrow> u16 \<Rightarrow> 'p result"
    and upd :: "'p \<Rightarrow> u16 \<Rightarrow> bytes option \<Rightarrow> u16 \<Rightarrow> (bool \<times> 'p) result"
  assumes view_small: "invar p \<Longrightarrow> length (view p) < 2 ^ 16"
    and rd_view: "invar p \<Longrightarrow>
      rd p i = Inr (if unat i < length (view p) then view p ! unat i else None)"
    and ins_view: "invar p \<Longrightarrow> length t = unat len \<Longrightarrow> 0 < length t \<Longrightarrow> length t + 4 \<le> space p \<Longrightarrow>
      \<exists>p'. ins p (Some t) len = Inr (of_nat (length (view p)), p') \<and> invar p' \<and> view p' = view p @ [Some t]"
    and ins_full: "space p < unat len + 4 \<Longrightarrow>
      ins p (Some t) len = Inl (StorageException ''Tuple does not fit on page'')"
    and del_view: "invar p \<Longrightarrow> unat i < length (view p) \<Longrightarrow>
      \<exists>p'. del p i = Inr p' \<and> invar p' \<and> view p' = (view p)[unat i := None]"
    and del_bad: "invar p \<Longrightarrow> length (view p) \<le> unat i \<Longrightarrow>
      del p i = Inl (StorageException ''Invalid slot index'')"
    and upd_view: "invar p \<Longrightarrow> length t = unat len \<Longrightarrow> 0 < length t \<Longrightarrow>
      unat i < length (view p) \<Longrightarrow> view p ! unat i = Some old \<Longrightarrow> length old = length t \<Longrightarrow>
      \<exists>p'. upd p i (Some t) len = Inr (True, p') \<and> invar p' \<and> view p' = (view p)[unat i := Some t]"
    and upd_other: "invar p \<Longrightarrow> length t = unat len \<Longrightarrow>
      \<not> (unat i < length (view p) \<and> (\<exists>old. view p ! unat i = Some old \<and> length old = length t)) \<Longrightarrow>
      upd p i (Some t) len = Inr (False, p)"
begin

lemma read_after_insert:
  assumes "invar p" and "length t = unat len" and "0 < length t" and "length t + 4 \<le> space p"
  shows "\<exists>slot p'. ins p (Some t) len = Inr (slot, p') \<and> invar p' \<and> rd p' slot = Inr (Some t) \<and>
    (\<forall>i. i \<noteq> slot \<longrightarrow> rd p' i = rd p i)"
proof -
  let ?slot = "of_nat (length (view p)) :: u16"
  obtain p' where p': "ins p (Some t) len = Inr (?slot, p')" "invar p'" "view p' = view p @ [Some t]"
    using ins_view [OF assms] by blast
  have slot: "unat ?slot = length (view p)"
    using view_small [OF assms(1)] by (simp add: unat_of_nat)
  have "rd p' i = rd p i" if "i \<noteq> ?slot" for i
  proof -
    have "unat i \<noteq> length (view p)" using that slot by (metis word_unat_eq_iff)
    then show ?thesis using p' assms(1) by (auto simp: rd_view nth_append)
  qed
  moreover have "rd p' ?slot = Inr (Some t)" using p' slot by (simp add: rd_view)
  ultimately show ?thesis using p' by blast
qed

lemma read_after_delete:
  assumes "invar p" and "unat slot < length (view p)"
  shows "\<exists>p'. del p slot = Inr p' \<and> invar p' \<and> rd p' slot = Inr None \<and>
    (\<forall>i. i \<noteq> slot \<longrightarrow> rd p' i = rd p i)"
proof -
  obtain p' where p': "del p slot = Inr p'" "invar p'" "view p' = (view p)[unat slot := None]"
    using del_view [OF assms] by blast
  moreover have "rd p' i = (if i = slot then Inr None else rd p i)" for i
    using p' assms by (auto simp: rd_view nth_list_update word_unat_eq_iff)
  ultimately show ?thesis by auto
qed

end

interpretation pg: slotted_page wf_page page_view get_free_space insert_tuple read_tuple delete_tuple
  update_tuple_in_place
proof
  fix p and i len :: u16 and t old :: bytes
  assume wf: "wf_page p"
  show "length (page_view p) < 2 ^ 16" using wf_pageD(4) [OF wf] by simp
  show "read_tuple p i = Inr (if unat i < length (page_view p) then page_view p ! unat i else None)"
    by (simp add: read_tuple_conv [OF wf])
  show "unat i < length (page_view p) \<Longrightarrow>
      \<exists>p'. delete_tuple p i = Inr p' \<and> wf_page p' \<and> page_view p' = (page_view p)[unat i := None]"
    using delete_tuple_conv [OF wf, of i] by auto
  show "length (page_view p) \<le> unat i \<Longrightarrow> delete_tuple p i = Inl (StorageException ''Invalid slot index'')"
    by (simp add: delete_tuple_def num_slots_def)
  assume len: "length t = unat len"
  show "\<not> (unat i < length (page_view p) \<and> (\<exists>old. page_view p ! unat i = Some old \<and> length old = length t)) \<Longrightarrow>
      update_tuple_in_place p i (Some t) len = Inr (False, p)"
    by (rule update_in_place_miss [OF wf len]) (auto simp: same_size_slot_def split: option.splits)
  assume pos: "0 < length t"
  show "length t + 4 \<le> get_free_space p \<Longrightarrow> \<exists>p'. insert_tuple p (Some t) len = Inr (of_nat (length (page_view p)), p') \<and>
      wf_page p' \<and> page_view p' = page_view p @ [Some t]"
    using fits_iff_free_space [OF wf len pos] insert_tuple_placed wf_placed page_view_placed
    by (auto simp: num_slots_def)
  assume "unat i < length (page_view p)" "page_view p ! unat i = Some old" "length old = length t"
  then have i: "unat i < num_slots p" and old: "slot_view p (unat i) = Some old" "length old = length t"
    and same: "same_size_slot p (unat i) t"
    by (auto simp: page_view_def same_size_slot_def)
  show "\<exists>p'. update_tuple_in_place p i (Some t) len = Inr (True, p') \<and> wf_page p' \<and>
      page_view p' = (page_view p)[unat i := Some t]"
    using update_in_place_hit [OF wf len pos same] overwrite_slot(1,2) [OF wf i old pos] by auto
qed (rule insert_tuple_no_space)

lemma one_tuple_page: "\<exists>p. wf_page p \<and> page_view p = [Some [1, 2, 3]]"
proof -
  have "fits (page_initialize 7) [1, 2, 3] 3"
    using wf_page_initialize [of 7] page_initialize_fields [of 7] by (simp add: fits_def)
  then show ?thesis using wf_placed page_view_placed page_view_initialize by fastforce
qed

section \<open>Properties\<close>

text \<open>C18: a tuple of at least one byte that fits the free space of a well-formed page is stored: the
  page stays well formed, the returned slot reads back exactly the tuple, no other slot changes,
  and the slots of the page are the old ones with the tuple appended.\<close>

theorem page_insert_refines:
  assumes "wf_page p" and "length t = unat len" and "0 < length t" and "length t + 4 \<le> get_free_space p"
  shows "\<exists>slot p'. insert_tuple p (Some t) len = Inr (slot, p') \<and> wf_page p' \<and>
    get_page_id p' = get_page_id p \<and> page_view p' = page_view p @ [Some t] \<and>
    read_tuple p' slot = Inr (Some t) \<and> (\<forall>i. i \<noteq> slot \<longrightarrow> read_tuple p' i = read_tuple p i)"
proof -
  have "fits p t len" using fits_iff_free_space [OF assms(1-3)] assms(4) by simp
  then show ?thesis
    using pg.read_after_insert [OF assms] insert_tuple_placed page_view_placed placed_words(4) by fastforce
qed

theorem page_insert_refines_witness:
  "\<exists>slot p'. insert_tuple (page_initialize 7) (Some [1, 2, 3]) 3 = Inr (slot, p') \<and> wf_page p' \<and>
     page_view p' = [Some [1, 2, 3]] \<and> read_tuple p' slot = Inr (Some [1, 2, 3])"
proof -
  have "length ([1, 2, 3] :: bytes) + 4 \<le> get_free_space (page_initialize 7)"
    using page_initialize_fields [of 7] by (simp add: get_free_space_def lower_of_def upper_of_def)
  then show ?thesis
    using page_insert_refines [of "page_initialize 7" "[1, 2, 3]" 3] wf_page_initialize [of 7]
      page_view_initialize [of 7] by fastforce
qed

text \<open>C32: deleting a slot of a well-formed page empties that slot and no other, and deleting a slot the
  page does not have is the storage error \<^verbatim>\<open>Invalid slot index\<close>.\<close>

theorem page_delete_refines:
  assumes "wf_page p"
  shows "if unat slot < length (page_view p)
    then \<exists>p'. delete_tuple p slot = Inr p' \<and> wf_page p' \<and> page_view p' = (page_view p)[unat slot := None] \<and>
      read_tuple p' slot = Inr None \<and> (\<forall>i. i \<noteq> slot \<longrightarrow> read_tuple p' i = read_tuple p i)
    else delete_tuple p slot = Inl (StorageException ''Invalid slot index'')"
  using pg.read_after_delete [OF assms, of slot] pg.del_view [OF assms, of slot] pg.del_bad [OF assms, of slot]
  by fastforce

theorem page_delete_refines_witness:
  "\<exists>p p'. wf_page p \<and> page_view p = [Some [1, 2, 3]] \<and> delete_tuple p 0 = Inr p' \<and>
     page_view p' = [None] \<and> read_tuple p' 0 = Inr None"
proof -
  obtain p where p: "wf_page p" "page_view p = [Some [1, 2, 3]]" using one_tuple_page by blast
  then show ?thesis using page_delete_refines [OF p(1), of 0] by fastforce
qed

text \<open>C31: an in-place update succeeds exactly when the slot is live and holds a tuple of the same size; it
  then replaces that tuple and no other, and otherwise it leaves the page unchanged.\<close>

theorem page_update_refines:
  assumes "wf_page p" and "length t = unat len" and "0 < length t"
  shows "if same_size_slot p (unat slot) t
    then \<exists>p'. update_tuple_in_place p slot (Some t) len = Inr (True, p') \<and> wf_page p' \<and>
      get_page_id p' = get_page_id p \<and> page_view p' = (page_view p)[unat slot := Some t]
    else update_tuple_in_place p slot (Some t) len = Inr (False, p)"
proof (cases "same_size_slot p (unat slot) t")
  case True
  then obtain old where "unat slot < num_slots p" "slot_view p (unat slot) = Some old" "length old = length t"
    by (auto simp: same_size_slot_def page_view_def split: option.splits)
  from overwrite_slot(1-3) [OF assms(1) this assms(3)] True show ?thesis
    using update_in_place_hit [OF assms True] by simp
next
  case False
  then show ?thesis using update_in_place_miss [OF assms(1,2)] by simp
qed

theorem page_update_refines_witness:
  "\<exists>p p'. wf_page p \<and> page_view p = [Some [1, 2, 3]] \<and>
     update_tuple_in_place p 0 (Some [4, 5, 6]) 3 = Inr (True, p') \<and> page_view p' = [Some [4, 5, 6]]"
proof -
  obtain p where p: "wf_page p" "page_view p = [Some [1, 2, 3]]" using one_tuple_page by blast
  have "same_size_slot p 0 [4, 5, 6]" using p(2) by (simp add: same_size_slot_def del: length_page_view)
  then show ?thesis using page_update_refines [OF p(1), of "[4, 5, 6]" 3 0] p by fastforce
qed

end
