(* ===== verification/Buffer.thy ===== *)
theory Buffer
  imports Pages
begin

text \<open>
  The page stores and the buffer pool: \<open>MemoryPageStore\<close> of src/src/storage/page\_store.cc and
  \<open>BufferPool\<close> of src/src/storage/buffer\_pool.cc. A page store is the list of its page images. The
  pool is a record of its frames, its clock hand, its page table and the stores registered with it;
  \<open>IPageStore *\<close> is an address into \<open>disks\<close>, so that two files sharing a store would be seen. A
  \<open>Page &\<close> returned by \<open>pin\<close> is the index of the frame that owns the page.

  The abstract state of the pool is \<open>current s f p\<close>, the bytes a reader of page \<open>p\<close> of file \<open>f\<close>
  gets: the frame's image when the page is resident, the stored one otherwise. Every operation is
  described by what it does to \<open>current\<close>; the locale \<open>page_cache\<close> is the contract of
  \<open>IBufferPool\<close> its clients rely on.
\<close>

section \<open>Page stores\<close>

type_synonym file_id = u32
type_synonym page_id = u32
type_synonym store_ref = nat
type_synonym page_store = "bytes list"

definition store_read_page :: "page_store \<Rightarrow> page_id \<Rightarrow> bytes option \<Rightarrow> bytes result" where
  "store_read_page pages page_id out_bytes =
     (case out_bytes of
        None \<Rightarrow> Inl (StorageException ''Null read buffer'')
      | Some out \<Rightarrow>
          if length pages \<le> unat page_id then Inl (StorageException ''Page id out of range'')
          else bindR (memread (pages ! unat page_id) 0 kPageSize) (memwrite out 0))"

definition store_write_page :: "page_id \<Rightarrow> bytes option \<Rightarrow> page_store \<Rightarrow> page_store result" where
  "store_write_page page_id bs pages =
     (case bs of
        None \<Rightarrow> Inl (StorageException ''Null write buffer'')
      | Some src \<Rightarrow>
          if length pages \<le> unat page_id then Inl (StorageException ''Page id out of range'')
          else bindR (memread src 0 kPageSize) (\<lambda>raw.
            bindR (memwrite (pages ! unat page_id) 0 raw) (\<lambda>pg. Inr (pages[unat page_id := pg]))))"

definition store_allocate_page :: "page_store \<Rightarrow> page_id \<times> page_store" where
  "store_allocate_page pages = (of_nat (length pages), pages @ [replicate kPageSize 0])"

definition store_page_count :: "page_store \<Rightarrow> u32" where
  "store_page_count pages = of_nat (length pages)"

fun push_pages :: "bytes list \<Rightarrow> (page_store, unit) proc" where
  "push_pages [] pages = (Inr (), pages)"
| "push_pages (p # ps) pages =
     (if length p \<noteq> kPageSize then (Inl (StorageException ''Invalid page size in replace_pages''), pages)
      else push_pages ps (pages @ [p]))"

definition store_replace_pages :: "bytes list \<Rightarrow> (page_store, unit) proc" where
  "store_replace_pages new_pages pages = push_pages new_pages []"

section \<open>The buffer pool\<close>

record frame =
  fr_page :: page
  fr_file :: file_id
  fr_page_id :: page_id
  pin_count :: int
  is_dirty :: bool
  is_referenced :: bool
  is_occupied :: bool

record buffer_pool =
  frame_count :: nat
  frames :: "frame list"
  clock_hand :: nat
  page_table :: "file_id \<times> page_id \<rightharpoonup> nat"
  stores :: "file_id \<rightharpoonup> store_ref"
  disks :: "store_ref \<rightharpoonup> page_store"

definition empty_frame :: frame where
  "empty_frame = \<lparr>fr_page = page_initialize 0, fr_file = 0, fr_page_id = 0, pin_count = 0,
     is_dirty = False, is_referenced = False, is_occupied = False\<rparr>"

definition make_buffer_pool :: "nat \<Rightarrow> (store_ref \<rightharpoonup> page_store) \<Rightarrow> buffer_pool result" where
  "make_buffer_pool n ds =
     (if n = 0 then Inl (StorageException ''Buffer pool must have at least one frame'')
      else Inr \<lparr>frame_count = n, frames = replicate n empty_frame, clock_hand = 0,
             page_table = Map.empty, stores = Map.empty, disks = ds\<rparr>)"

definition upd_frame :: "nat \<Rightarrow> (frame \<Rightarrow> frame) \<Rightarrow> buffer_pool \<Rightarrow> buffer_pool" where
  "upd_frame i g s = s\<lparr>frames := (frames s)[i := g (frames s ! i)]\<rparr>"

definition frame_page :: "buffer_pool \<Rightarrow> nat \<Rightarrow> page" where
  "frame_page s i = fr_page (frames s ! i)"

definition set_frame_page :: "nat \<Rightarrow> page \<Rightarrow> buffer_pool \<Rightarrow> buffer_pool" where
  "set_frame_page i pg = upd_frame i (\<lambda>fr. fr\<lparr>fr_page := pg\<rparr>)"

definition register_store :: "file_id \<Rightarrow> store_ref option \<Rightarrow> (buffer_pool, unit) proc" where
  "register_store file_id store s =
     (case store of
        None \<Rightarrow> (Inl (StorageException ''Null page store''), s)
      | Some r \<Rightarrow> (Inr (), s\<lparr>stores := (stores s)(file_id \<mapsto> r)\<rparr>))"

definition require_store :: "file_id \<Rightarrow> (buffer_pool, store_ref) proc" where
  "require_store file_id s =
     (case stores s file_id of
        None \<Rightarrow> (Inl (StorageException ''No page store registered for file''), s)
      | Some r \<Rightarrow> (Inr r, s))"

text \<open>Calls through the \<open>IPageStore *\<close>; a dangling address is undefined behaviour.\<close>

definition disk_read :: "store_ref \<Rightarrow> page_id \<Rightarrow> bytes \<Rightarrow> (buffer_pool, bytes) proc" where
  "disk_read r page_id raw s =
     (case disks s r of
        None \<Rightarrow> (Inl UndefinedBehaviour, s)
      | Some d \<Rightarrow> (store_read_page d page_id (Some raw), s))"

definition disk_write :: "store_ref \<Rightarrow> page_id \<Rightarrow> bytes \<Rightarrow> (buffer_pool, unit) proc" where
  "disk_write r page_id bs s =
     (case disks s r of
        None \<Rightarrow> (Inl UndefinedBehaviour, s)
      | Some d \<Rightarrow>
          (case store_write_page page_id (Some bs) d of
             Inl e \<Rightarrow> (Inl e, s)
           | Inr d' \<Rightarrow> (Inr (), s\<lparr>disks := (disks s)(r \<mapsto> d')\<rparr>)))"

definition write_frame_if_dirty :: "nat \<Rightarrow> (buffer_pool, unit) proc" where
  "write_frame_if_dirty i s =
     (let fr = frames s ! i in
      if \<not> is_occupied fr \<or> \<not> is_dirty fr then (Inr (), s)
      else bindM (require_store (fr_file fr)) (\<lambda>store.
        bindM (disk_write store (fr_page_id fr) (fr_page fr)) (\<lambda>_.
          modifyM (upd_frame i (\<lambda>fr. fr\<lparr>is_dirty := False\<rparr>)))) s)"

definition erase_page_key :: "nat \<Rightarrow> buffer_pool \<Rightarrow> buffer_pool" where
  "erase_page_key i s =
     s\<lparr>page_table := (page_table s)((fr_file (frames s ! i), fr_page_id (frames s ! i)) := None)\<rparr>"

definition evict_frame :: "nat \<Rightarrow> (buffer_pool, unit) proc" where
  "evict_frame i s =
     (if \<not> is_occupied (frames s ! i) then (Inr (), s)
      else bindM (write_frame_if_dirty i) (\<lambda>_.
        modifyM (\<lambda>s. upd_frame i (\<lambda>fr. fr\<lparr>is_occupied := False, pin_count := 0, is_referenced := False\<rparr>)
          (erase_page_key i s))) s)"

fun clock_scan :: "nat \<Rightarrow> (buffer_pool, nat) proc" where
  "clock_scan 0 s = (Inl (StorageException ''No free buffer frame available (all pinned)''), s)"
| "clock_scan (Suc n) s =
     (let fr = frames s ! clock_hand s; victim = clock_hand s;
          s1 = s\<lparr>clock_hand := (clock_hand s + 1) mod frame_count s\<rparr> in
      if \<not> is_occupied fr then (Inr victim, s1)
      else if 0 < pin_count fr then clock_scan n s1
      else if is_referenced fr then clock_scan n (upd_frame victim (\<lambda>fr. fr\<lparr>is_referenced := False\<rparr>) s1)
      else (Inr victim, s1))"

definition find_victim_frame :: "(buffer_pool, nat) proc" where
  "find_victim_frame s = clock_scan (frame_count s * 2) s"

definition load_frame :: "nat \<Rightarrow> file_id \<Rightarrow> page_id \<Rightarrow> page \<Rightarrow> buffer_pool \<Rightarrow> buffer_pool" where
  "load_frame i file_id page_id pg s =
     (upd_frame i (\<lambda>fr. fr\<lparr>fr_page := pg, fr_file := file_id, fr_page_id := page_id, pin_count := 1,
        is_dirty := False, is_referenced := True, is_occupied := True\<rparr>) s)
       \<lparr>page_table := (page_table s)((file_id, page_id) \<mapsto> i)\<rparr>"

definition pin :: "file_id \<Rightarrow> page_id \<Rightarrow> (buffer_pool, nat) proc" where
  "pin file_id page_id s =
     (case page_table s (file_id, page_id) of
        Some i \<Rightarrow> (Inr i, upd_frame i (\<lambda>fr. fr\<lparr>pin_count := pin_count fr + 1, is_referenced := True\<rparr>) s)
      | None \<Rightarrow>
          bindM find_victim_frame (\<lambda>i.
          bindM (evict_frame i) (\<lambda>_.
          bindM (require_store file_id) (\<lambda>store.
          bindM (disk_read store page_id (replicate kPageSize 0)) (\<lambda>raw.
          bindM (liftR (page_from_bytes (Some raw))) (\<lambda>pg.
          bindM (modifyM (load_frame i file_id page_id pg)) (\<lambda>_. ret i)))))) s)"

definition unpin :: "file_id \<Rightarrow> page_id \<Rightarrow> bool \<Rightarrow> (buffer_pool, unit) proc" where
  "unpin file_id page_id dirty s =
     (case page_table s (file_id, page_id) of
        None \<Rightarrow> (Inl (StorageException ''Unpin of page not in pool''), s)
      | Some i \<Rightarrow>
          if pin_count (frames s ! i) \<le> 0 then (Inl (StorageException ''Unpin with zero pin count''), s)
          else (Inr (), upd_frame i (\<lambda>fr. fr\<lparr>pin_count := pin_count fr - 1,
                  is_dirty := (if dirty then True else is_dirty fr)\<rparr>) s))"

definition flush_all :: "(buffer_pool, unit) proc" where
  "flush_all s = forM write_frame_if_dirty [0..<length (frames s)] s"

definition flush_file_frame :: "file_id \<Rightarrow> nat \<Rightarrow> (buffer_pool, unit) proc" where
  "flush_file_frame file_id i s =
     (if is_occupied (frames s ! i) \<and> fr_file (frames s ! i) = file_id then write_frame_if_dirty i s
      else (Inr (), s))"

definition flush_file :: "file_id \<Rightarrow> (buffer_pool, unit) proc" where
  "flush_file file_id s = forM (flush_file_frame file_id) [0..<length (frames s)] s"

definition unregister_frame :: "file_id \<Rightarrow> nat \<Rightarrow> (buffer_pool, unit) proc" where
  "unregister_frame file_id i s =
     (let fr = frames s ! i in
      if \<not> is_occupied fr \<or> fr_file fr \<noteq> file_id then (Inr (), s)
      else if 0 < pin_count fr then (Inl (StorageException ''Cannot unregister store with pinned pages''), s)
      else bindM (write_frame_if_dirty i) (\<lambda>_.
        modifyM (\<lambda>s. upd_frame i (\<lambda>fr. fr\<lparr>is_occupied := False, is_dirty := False, is_referenced := False\<rparr>)
          (erase_page_key i s))) s)"

definition unregister_store :: "file_id \<Rightarrow> (buffer_pool, unit) proc" where
  "unregister_store file_id s =
     bindM (forM (unregister_frame file_id) [0..<length (frames s)]) (\<lambda>_.
       modifyM (\<lambda>s. s\<lparr>stores := (stores s)(file_id := None)\<rparr>)) s"

section \<open>Abstract state and invariant\<close>

definition stored :: "buffer_pool \<Rightarrow> file_id \<Rightarrow> page_store option" where
  "stored s f = (case stores s f of None \<Rightarrow> None | Some r \<Rightarrow> disks s r)"

definition stored_page :: "buffer_pool \<Rightarrow> file_id \<Rightarrow> page_id \<Rightarrow> page option" where
  "stored_page s f p =
     (case stored s f of None \<Rightarrow> None | Some d \<Rightarrow> if unat p < length d then Some (d ! unat p) else None)"

definition current :: "buffer_pool \<Rightarrow> file_id \<Rightarrow> page_id \<Rightarrow> page option" where
  "current s f p =
     (case page_table s (f, p) of Some i \<Rightarrow> Some (fr_page (frames s ! i)) | None \<Rightarrow> stored_page s f p)"

definition layout :: "buffer_pool \<Rightarrow> (file_id \<rightharpoonup> store_ref) \<times> (store_ref \<rightharpoonup> nat)" where
  "layout s = (stores s, \<lambda>r. map_option length (disks s r))"

definition frame_ok :: "buffer_pool \<Rightarrow> frame \<Rightarrow> bool" where
  "frame_ok s fr =
     (is_occupied fr \<longrightarrow>
        length (fr_page fr) = kPageSize \<and> 0 \<le> pin_count fr \<and>
        (\<exists>pg. stored_page s (fr_file fr) (fr_page_id fr) = Some pg \<and> (is_dirty fr \<or> pg = fr_page fr)))"

definition stores_ok :: "buffer_pool \<Rightarrow> bool" where
  "stores_ok s =
     ((\<forall>f r. stores s f = Some r \<longrightarrow> (\<exists>d. disks s r = Some d \<and> (\<forall>pg\<in>set d. length pg = kPageSize))) \<and>
      (\<forall>f g r. stores s f = Some r \<longrightarrow> stores s g = Some r \<longrightarrow> f = g))"

definition table_ok :: "buffer_pool \<Rightarrow> bool" where
  "table_ok s =
     (\<forall>f p i. page_table s (f, p) = Some i \<longleftrightarrow>
        i < length (frames s) \<and> is_occupied (frames s ! i) \<and> fr_file (frames s ! i) = f \<and>
        fr_page_id (frames s ! i) = p)"

definition pool_ok :: "buffer_pool \<Rightarrow> bool" where
  "pool_ok s =
     (length (frames s) = frame_count s \<and> clock_hand s < frame_count s \<and> table_ok s \<and> stores_ok s \<and>
      (\<forall>i < length (frames s). frame_ok s (frames s ! i)))"

definition available :: "frame \<Rightarrow> bool" where
  "available fr = (\<not> is_occupied fr \<or> pin_count fr \<le> 0)"

definition pins :: "buffer_pool \<Rightarrow> file_id \<times> page_id \<Rightarrow> int" where
  "pins s k = (case page_table s k of None \<Rightarrow> 0 | Some i \<Rightarrow> pin_count (frames s ! i))"

definition idle :: "buffer_pool \<Rightarrow> bool" where
  "idle s = (pool_ok s \<and> pins s = (\<lambda>_. 0))"

definition held :: "buffer_pool \<Rightarrow> nat \<Rightarrow> file_id \<Rightarrow> page_id \<Rightarrow> bool" where
  "held s i f p = (pool_ok s \<and> page_table s (f, p) = Some i \<and> pins s = (\<lambda>_. 0)((f, p) := 1))"

text \<open>
  Auxiliary notions of the proofs: the pool without its replacement state, the number of clock steps
  until a frame is chosen, and frames with nothing to write back.
\<close>

definition unreferenced :: "buffer_pool \<Rightarrow> buffer_pool" where
  "unreferenced s = s\<lparr>frames := map (\<lambda>fr. fr\<lparr>is_referenced := False\<rparr>) (frames s), clock_hand := 0\<rparr>"

definition clock_distance :: "buffer_pool \<Rightarrow> nat \<Rightarrow> nat" where
  "clock_distance s i =
     (if clock_hand s \<le> i then i - clock_hand s else i + frame_count s - clock_hand s) +
     (if is_referenced (frames s ! i) then frame_count s else 0)"

definition clean :: "frame \<Rightarrow> bool" where
  "clean fr = (is_occupied fr \<longrightarrow> \<not> is_dirty fr)"

section \<open>Access to a pinned page\<close>

text \<open>
  The pattern every method of \<open>HeapFile\<close> uses: pin the page, call a \<open>Page\<close> method on the frame in a
  \<open>try\<close> block, unpin with the dirty flag, and on an exception unpin as clean and rethrow. It is
  written over the operations of \<open>IBufferPool\<close>, which are its arguments.
\<close>

definition page_call :: "('s \<Rightarrow> 'r \<Rightarrow> page) \<Rightarrow> ('r \<Rightarrow> page \<Rightarrow> 's \<Rightarrow> 's) \<Rightarrow> 'r \<Rightarrow> (page \<Rightarrow> ('a \<times> page) result) \<Rightarrow> ('s, 'a) proc" where
  "page_call get put r h s = (case h (get s r) of Inl e \<Rightarrow> (Inl e, s) | Inr (x, pg) \<Rightarrow> (Inr x, put r pg s))"

definition with_pinned :: "(file_id \<Rightarrow> page_id \<Rightarrow> ('s, 'r) proc) \<Rightarrow> (file_id \<Rightarrow> page_id \<Rightarrow> bool \<Rightarrow> ('s, unit) proc) \<Rightarrow>
    ('s \<Rightarrow> 'r \<Rightarrow> page) \<Rightarrow> ('r \<Rightarrow> page \<Rightarrow> 's \<Rightarrow> 's) \<Rightarrow>
    file_id \<Rightarrow> page_id \<Rightarrow> (page \<Rightarrow> ('a \<times> page) result) \<Rightarrow> ('a \<Rightarrow> bool) \<Rightarrow> ('s, 'a) proc" where
  "with_pinned pin_op unpin_op get put file_id page_id h dirty =
     bindM (pin_op file_id page_id) (\<lambda>r.
       catchM
         (bindM (page_call get put r h) (\<lambda>x. bindM (unpin_op file_id page_id (dirty x)) (\<lambda>_. ret x)))
         (\<lambda>e. bindM (unpin_op file_id page_id False) (\<lambda>_. throw e)))"

section \<open>Lemmas\<close>

lemma upd_frame_simps [simp]:
  "frame_count (upd_frame i g s) = frame_count s" "clock_hand (upd_frame i g s) = clock_hand s"
  "page_table (upd_frame i g s) = page_table s" "stores (upd_frame i g s) = stores s"
  "disks (upd_frame i g s) = disks s" "length (frames (upd_frame i g s)) = length (frames s)"
  "frames (upd_frame i g s) = (frames s)[i := g (frames s ! i)]"
  by (simp_all add: upd_frame_def)

lemma stored_page_cong:
  "stores s' = stores s \<Longrightarrow> disks s' = disks s \<Longrightarrow> stored_page s' = stored_page s"
  by (intro ext) (auto simp: stored_page_def stored_def split: option.splits)

lemma pool_okD:
  assumes "pool_ok s"
  shows "length (frames s) = frame_count s" and "clock_hand s < frame_count s" and "stores_ok s"
    and "table_ok s"
    and "i < frame_count s \<Longrightarrow> frame_ok s (frames s ! i)"
  using assms by (auto simp: pool_ok_def)

lemma table_okD:
  assumes "table_ok s" "page_table s (f, p) = Some i"
  shows "i < length (frames s)" "is_occupied (frames s ! i)" "fr_file (frames s ! i) = f" "fr_page_id (frames s ! i) = p"
  using assms by (auto simp: table_ok_def)

lemma table_ok_resident:
  "table_ok s \<Longrightarrow> i < length (frames s) \<Longrightarrow> is_occupied (frames s ! i) \<Longrightarrow>
     page_table s (fr_file (frames s ! i), fr_page_id (frames s ! i)) = Some i"
  by (auto simp: table_ok_def)

text \<open>Setting reference bits and moving the clock hand changes nothing a client can see.\<close>

lemma unreferenced_view:
  assumes "unreferenced s' = unreferenced s"
  shows "frame_count s' = frame_count s" "length (frames s') = length (frames s)"
    "page_table s' = page_table s" "stores s' = stores s" "disks s' = disks s"
    "i < length (frames s) \<Longrightarrow> (frames s' ! i)\<lparr>is_referenced := False\<rparr> = (frames s ! i)\<lparr>is_referenced := False\<rparr>"
proof -
  note eq = assms [unfolded unreferenced_def]
  show "frame_count s' = frame_count s" using arg_cong [OF eq, of frame_count] by simp
  show "page_table s' = page_table s" using arg_cong [OF eq, of page_table] by simp
  show "stores s' = stores s" using arg_cong [OF eq, of stores] by simp
  show "disks s' = disks s" using arg_cong [OF eq, of disks] by simp
  have fr: "map (\<lambda>fr. fr\<lparr>is_referenced := False\<rparr>) (frames s') = map (\<lambda>fr. fr\<lparr>is_referenced := False\<rparr>) (frames s)"
    using arg_cong [OF eq, of frames] by simp
  show len: "length (frames s') = length (frames s)" using arg_cong [OF fr, of length] by simp
  show "i < length (frames s) \<Longrightarrow> (frames s' ! i)\<lparr>is_referenced := False\<rparr> = (frames s ! i)\<lparr>is_referenced := False\<rparr>"
    using arg_cong [OF fr, of "\<lambda>xs. xs ! i"] len by simp
qed

lemma unreferenced_fields:
  assumes "unreferenced s' = unreferenced s" and "i < length (frames s)"
  shows "fr_page (frames s' ! i) = fr_page (frames s ! i)" "fr_file (frames s' ! i) = fr_file (frames s ! i)"
    "fr_page_id (frames s' ! i) = fr_page_id (frames s ! i)" "pin_count (frames s' ! i) = pin_count (frames s ! i)"
    "is_dirty (frames s' ! i) = is_dirty (frames s ! i)" "is_occupied (frames s' ! i) = is_occupied (frames s ! i)"
  using arg_cong [OF unreferenced_view(6) [OF assms], of fr_page] arg_cong [OF unreferenced_view(6) [OF assms], of fr_file]
    arg_cong [OF unreferenced_view(6) [OF assms], of fr_page_id] arg_cong [OF unreferenced_view(6) [OF assms], of pin_count]
    arg_cong [OF unreferenced_view(6) [OF assms], of is_dirty] arg_cong [OF unreferenced_view(6) [OF assms], of is_occupied]
  by simp_all

lemma unreferenced_pool_ok:
  assumes "unreferenced s' = unreferenced s" and "clock_hand s' < frame_count s'" and "pool_ok s"
  shows "pool_ok s'" and "current s' = current s"
proof -
  note v = unreferenced_view [OF assms(1)] and f = unreferenced_fields [OF assms(1)]
  note ok = pool_okD [OF assms(3)]
  have sp: "stored_page s' = stored_page s" using v by (intro stored_page_cong) simp_all
  have "table_ok s'" using ok(4) v f by (simp add: table_ok_def cong: conj_cong)
  moreover have "stores_ok s'" using ok(3) v by (simp add: stores_ok_def)
  moreover have "frame_ok s' (frames s' ! i)" if "i < length (frames s')" for i
    using ok(5) [of i] that v f [of i] sp ok(1) by (simp add: frame_ok_def)
  ultimately show "pool_ok s'" using assms(2) ok(1) v by (simp add: pool_ok_def)
  show "current s' = current s"
    using sp v f(1) table_okD [OF ok(4)] by (auto simp: current_def fun_eq_iff split: option.splits)
qed

lemma clock_step_unreferenced:
  fixes s defines "s1 \<equiv> s\<lparr>clock_hand := (clock_hand s + 1) mod frame_count s\<rparr>"
  defines "s2 \<equiv> upd_frame (clock_hand s) (\<lambda>fr. fr\<lparr>is_referenced := False\<rparr>) s1"
  assumes "pool_ok s"
  shows "unreferenced s1 = unreferenced s" "unreferenced s2 = unreferenced s" "pool_ok s1" "pool_ok s2"
proof -
  note ok = pool_okD [OF assms(3)]
  have h: "clock_hand s < length (frames s)" "(clock_hand s + 1) mod frame_count s < frame_count s"
    using ok by simp_all
  show u1: "unreferenced s1 = unreferenced s" by (simp add: unreferenced_def s1_def)
  show u2: "unreferenced s2 = unreferenced s"
    using h by (simp add: unreferenced_def upd_frame_def s1_def s2_def list_eq_iff_nth_eq nth_list_update)
  show "pool_ok s1" "pool_ok s2"
    using unreferenced_pool_ok(1) [OF u1 _ assms(3)] unreferenced_pool_ok(1) [OF u2 _ assms(3)] h
    by (simp_all add: s1_def s2_def)
qed

lemma clock_scan_unreferenced:
  assumes "pool_ok s" and "clock_scan n s = (r, s')"
  shows "unreferenced s' = unreferenced s \<and> clock_hand s' < frame_count s' \<and>
    (\<forall>v. r = Inr v \<longrightarrow> v < length (frames s') \<and> available (frames s' ! v)) \<and>
    (\<forall>e. r = Inl e \<longrightarrow> is_storage_exception e)"
  using assms
proof (induction n arbitrary: s)
  case 0
  then show ?case by (auto simp: pool_ok_def)
next
  case (Suc n)
  let ?h = "clock_hand s" let ?fr = "frames s ! ?h"
  let ?s1 = "s\<lparr>clock_hand := (?h + 1) mod frame_count s\<rparr>"
  let ?s2 = "upd_frame ?h (\<lambda>fr. fr\<lparr>is_referenced := False\<rparr>) ?s1"
  note ok = pool_okD [OF Suc.prems(1)]
  have h: "?h < length (frames s)" "(?h + 1) mod frame_count s < frame_count s" using ok by simp_all
  note u = clock_step_unreferenced [OF Suc.prems(1)]
  consider "\<not> is_occupied ?fr" | "is_occupied ?fr" "0 < pin_count ?fr"
    | "is_occupied ?fr" "\<not> 0 < pin_count ?fr" "is_referenced ?fr"
    | "is_occupied ?fr" "\<not> 0 < pin_count ?fr" "\<not> is_referenced ?fr" by blast
  then show ?case
  proof cases
    case 2
    then show ?thesis using Suc.IH [OF u(3)] Suc.prems(2) u(1) by (simp add: Let_def)
  next
    case 3
    then show ?thesis using Suc.IH [OF u(4)] Suc.prems(2) u(2) by (simp add: Let_def)
  qed (use Suc.prems(2) u(1) h in \<open>auto simp: Let_def available_def\<close>)
qed

lemma clock_scan_finds:
  assumes "pool_ok s" and "i < frame_count s" and "available (frames s ! i)" and "clock_distance s i < n"
  shows "\<exists>v s'. clock_scan n s = (Inr v, s')"
  using assms
proof (induction n arbitrary: s)
  case 0
  then show ?case by simp
next
  case (Suc n)
  let ?h = "clock_hand s" let ?fr = "frames s ! ?h"
  let ?s1 = "s\<lparr>clock_hand := (?h + 1) mod frame_count s\<rparr>"
  let ?s2 = "upd_frame ?h (\<lambda>fr. fr\<lparr>is_referenced := False\<rparr>) ?s1"
  note ok = pool_okD [OF Suc.prems(1)]
  have h: "?h < length (frames s)" "(?h + 1) mod frame_count s < frame_count s" using ok by simp_all
  note u = clock_step_unreferenced [OF Suc.prems(1)]
  show ?case
  proof (cases "?h = i")
    case True
    have "clock_distance ?s2 i < n" if "is_referenced ?fr"
      using that True Suc.prems(2,4) ok(1) h by (auto simp: clock_distance_def mod_if)
    moreover have "available (frames ?s2 ! i)" using Suc.prems(2,3) ok(1) True by (simp add: available_def)
    ultimately show ?thesis
      using True Suc.IH [OF u(4)] Suc.prems(2,3) by (auto simp: Let_def available_def)
  next
    case False
    then have "clock_distance ?s1 i < n" "clock_distance ?s2 i < n"
      using Suc.prems(2,4) ok(1) h by (auto simp: clock_distance_def mod_if split: if_splits)
    then show ?thesis
      using False Suc.IH [OF u(3)] Suc.IH [OF u(4)] Suc.prems(2,3) by (simp add: Let_def)
  qed
qed

lemma memread_whole [simp]: "length xs = n \<Longrightarrow> memread xs 0 n = Inr xs"
  by (simp add: memread_def slice_def)

lemma memwrite_whole [simp]: "length xs = length ys \<Longrightarrow> memwrite xs 0 ys = Inr ys"
  by (simp add: memwrite_def splice_def)

lemma page_from_bytes_whole [simp]: "length xs = kPageSize \<Longrightarrow> page_from_bytes (Some xs) = Inr xs"
  by (simp add: page_from_bytes_def)

lemma stored_pageE:
  assumes "stores_ok s" and "stored_page s f p = Some pg"
  obtains r d where "stores s f = Some r" "disks s r = Some d" "unat p < length d" "d ! unat p = pg"
    "length pg = kPageSize" "\<forall>pg\<in>set d. length pg = kPageSize"
  using assms by (fastforce simp: stored_page_def stored_def stores_ok_def split: option.splits if_splits)

lemma disk_write_stored:
  assumes ok: "stores_ok s" and pg: "stored_page s f p = Some old" and r: "stores s f = Some r"
    and len: "length new = kPageSize"
  obtains d where "disk_write r p new s = (Inr (), s\<lparr>disks := (disks s)(r \<mapsto> d)\<rparr>)"
    "layout (s\<lparr>disks := (disks s)(r \<mapsto> d)\<rparr>) = layout s"
    "stores_ok (s\<lparr>disks := (disks s)(r \<mapsto> d)\<rparr>)"
    "stored_page (s\<lparr>disks := (disks s)(r \<mapsto> d)\<rparr>) = (\<lambda>f' p'. if f' = f \<and> p' = p then Some new else stored_page s f' p')"
proof -
  obtain r' d where "stores s f = Some r'" "disks s r' = Some d" and d: "unat p < length d" "d ! unat p = old"
    "length old = kPageSize" "\<forall>pg\<in>set d. length pg = kPageSize"
    by (rule stored_pageE [OF ok pg])
  then have dr: "disks s r = Some d" using r by simp
  let ?d = "d[unat p := new]"
  have 1: "disk_write r p new s = (Inr (), s\<lparr>disks := (disks s)(r \<mapsto> ?d)\<rparr>)"
    using d dr len by (simp add: disk_write_def store_write_page_def)
  have 2: "stores_ok (s\<lparr>disks := (disks s)(r \<mapsto> ?d)\<rparr>)"
    using ok d dr len set_update_subset_insert [of d "unat p" new] unfolding stores_ok_def by fastforce
  have "stored_page (s\<lparr>disks := (disks s)(r \<mapsto> ?d)\<rparr>) f' p' =
      (if f' = f \<and> p' = p then Some new else stored_page s f' p')" for f' p'
  proof (cases "stores s f' = Some r")
    case True
    then have "f' = f" using ok r by (auto simp: stores_ok_def)
    then show ?thesis
      using d dr r by (auto simp: stored_page_def stored_def nth_list_update word_unat_eq_iff [of p p'] word_unat_eq_iff [of p' p])
  next
    case False
    then show ?thesis using r by (auto simp: stored_page_def stored_def split: option.splits)
  qed
  then have "stored_page (s\<lparr>disks := (disks s)(r \<mapsto> ?d)\<rparr>) =
      (\<lambda>f' p'. if f' = f \<and> p' = p then Some new else stored_page s f' p')"
    by (intro ext)
  moreover have "layout (s\<lparr>disks := (disks s)(r \<mapsto> ?d)\<rparr>) = layout s"
    using dr by (auto simp: layout_def)
  ultimately show thesis using 1 2 by (intro that)
qed

lemma frame_okD:
  assumes "pool_ok s" and "i < length (frames s)" and "is_occupied (frames s ! i)"
  obtains pg where "length (fr_page (frames s ! i)) = kPageSize" "0 \<le> pin_count (frames s ! i)"
    "stored_page s (fr_file (frames s ! i)) (fr_page_id (frames s ! i)) = Some pg"
    "is_dirty (frames s ! i) \<or> pg = fr_page (frames s ! i)"
  using pool_okD(5) [OF assms(1), of i] pool_okD(1) [OF assms(1)] assms(2,3) that by (auto simp: frame_ok_def)

lemma table_ok_upd_frame:
  assumes "table_ok s" and "i < length (frames s)"
    and "is_occupied (g (frames s ! i)) = is_occupied (frames s ! i)" "fr_file (g (frames s ! i)) = fr_file (frames s ! i)"
    "fr_page_id (g (frames s ! i)) = fr_page_id (frames s ! i)"
  shows "table_ok (upd_frame i g s)"
  unfolding table_ok_def using assms by (fastforce simp: table_ok_def nth_list_update)

lemma other_key:
  assumes "table_ok s" "i < length (frames s)" "is_occupied (frames s ! i)"
    "j < length (frames s)" "is_occupied (frames s ! j)" "i \<noteq> j"
  shows "fr_file (frames s ! j) \<noteq> fr_file (frames s ! i) \<or> fr_page_id (frames s ! j) \<noteq> fr_page_id (frames s ! i)"
  using table_ok_resident [OF assms(1,2,3)] table_ok_resident [OF assms(1,4,5)] assms(6) by auto

text \<open>Writing back a frame makes it clean and leaves everything a client can see as it is.\<close>

lemma write_frame_if_dirty_ok:
  assumes ok: "pool_ok s" and i: "i < length (frames s)"
  obtains s' where "write_frame_if_dirty i s = (Inr (), s')" "pool_ok s'" "current s' = current s"
    "frames s' = (frames s)[i := (frames s ! i)\<lparr>is_dirty := is_dirty (frames s ! i) \<and> \<not> is_occupied (frames s ! i)\<rparr>]"
    "page_table s' = page_table s" "layout s' = layout s" "frame_count s' = frame_count s" "clock_hand s' = clock_hand s"
proof (cases "is_occupied (frames s ! i) \<and> is_dirty (frames s ! i)")
  case False
  then have "write_frame_if_dirty i s = (Inr (), s)" by (simp add: write_frame_if_dirty_def Let_def)
  moreover have "(frames s ! i)\<lparr>is_dirty := is_dirty (frames s ! i) \<and> \<not> is_occupied (frames s ! i)\<rparr> = frames s ! i"
    using False by (cases "frames s ! i") auto
  ultimately show thesis using ok that by simp
next
  case True
  let ?fr = "frames s ! i" let ?f = "fr_file ?fr" let ?p = "fr_page_id ?fr"
  note pk = pool_okD [OF ok]
  obtain old where fr: "length (fr_page ?fr) = kPageSize" "0 \<le> pin_count ?fr" "stored_page s ?f ?p = Some old"
    using frame_okD [OF ok i] True by blast
  obtain r where r: "stores s ?f = Some r" using stored_pageE [OF pk(3) fr(3)] by blast
  obtain d where d: "disk_write r ?p (fr_page ?fr) s = (Inr (), s\<lparr>disks := (disks s)(r \<mapsto> d)\<rparr>)"
    "stores_ok (s\<lparr>disks := (disks s)(r \<mapsto> d)\<rparr>)"
    "stored_page (s\<lparr>disks := (disks s)(r \<mapsto> d)\<rparr>) = (\<lambda>f' p'. if f' = ?f \<and> p' = ?p then Some (fr_page ?fr) else stored_page s f' p')"
    and lay: "layout (s\<lparr>disks := (disks s)(r \<mapsto> d)\<rparr>) = layout s"
    using disk_write_stored [OF pk(3) fr(3) r fr(1)] by blast
  let ?s1 = "s\<lparr>disks := (disks s)(r \<mapsto> d)\<rparr>"
  let ?s2 = "upd_frame i (\<lambda>fr. fr\<lparr>is_dirty := False\<rparr>) ?s1"
  have run: "write_frame_if_dirty i s = (Inr (), ?s2)"
    using True r d(1) by (simp add: write_frame_if_dirty_def Let_def bindM_def require_store_def modifyM_def)
  have sp: "stored_page ?s2 = stored_page ?s1" by (rule stored_page_cong) simp_all
  have tab: "table_ok ?s2"
    by (rule table_ok_upd_frame) (use pk(4) i in \<open>simp_all add: table_ok_def\<close>)
  have fok: "frame_ok ?s2 (frames ?s2 ! j)" if j: "j < length (frames ?s2)" for j
  proof (cases "j = i")
    case True
    then show ?thesis using fr i sp d(3) by (simp add: frame_ok_def)
  next
    case False
    then show ?thesis
      using pk(5) [of j] pk(1) j sp d(3) other_key [OF pk(4) i _ _ _ False [symmetric]] True
      by (auto simp: frame_ok_def)
  qed
  have "stores_ok ?s2" using d(2) by (simp add: stores_ok_def)
  then have "pool_ok ?s2" using pk(1,2) tab fok by (simp add: pool_ok_def)
  moreover have "current ?s2 = current s"
    using sp d(3) table_ok_resident [OF pk(4) i] True table_okD(1) [OF pk(4)]
    by (auto simp: current_def fun_eq_iff nth_list_update split: option.splits)
  moreover have "layout ?s2 = layout s" using lay by (simp add: layout_def)
  ultimately show thesis using that [OF run] True by simp
qed

lemma drop_frame_ok:
  assumes ok: "pool_ok s" and i: "i < length (frames s)" and occ: "is_occupied (frames s ! i)" "\<not> is_dirty (frames s ! i)"
    and g: "\<And>fr. \<not> is_occupied (g fr)"
  defines "s' \<equiv> upd_frame i g (erase_page_key i s)"
  shows "pool_ok s'" "current s' = current s"
proof -
  note pk = pool_okD [OF ok]
  let ?k = "(fr_file (frames s ! i), fr_page_id (frames s ! i))"
  have sp: "stored_page s' = stored_page s" unfolding s'_def by (rule stored_page_cong) (simp_all add: erase_page_key_def)
  have "table_ok s'"
    unfolding table_ok_def
  proof (intro allI)
    fix f p j
    show "(page_table s' (f, p) = Some j) = (j < length (frames s') \<and> is_occupied (frames s' ! j) \<and>
        fr_file (frames s' ! j) = f \<and> fr_page_id (frames s' ! j) = p)"
      using pk(4) i g other_key [OF pk(4) i occ(1), of j] occ(1)
      by (cases "j = i") (auto simp: s'_def erase_page_key_def table_ok_def)
  qed
  moreover have "stores_ok s'" using pk(3) by (simp add: stores_ok_def s'_def erase_page_key_def)
  moreover have "frame_ok s' (frames s' ! j)" if "j < length (frames s')" for j
    using pk(1) pk(5) [of j] that g sp by (cases "j = i") (auto simp: frame_ok_def s'_def erase_page_key_def)
  ultimately show "pool_ok s'" using pk(1,2) by (simp add: pool_ok_def s'_def erase_page_key_def)
  obtain pg where "stored_page s (fr_file (frames s ! i)) (fr_page_id (frames s ! i)) = Some pg" "pg = fr_page (frames s ! i)"
    using frame_okD [OF ok i occ(1)] occ(2) by metis
  then have "current s' f p = current s f p" for f p
    using sp table_ok_resident [OF pk(4) i occ(1)] table_okD [OF pk(4), of f p] i
    by (cases "page_table s (f, p)") (auto simp: current_def s'_def erase_page_key_def nth_list_update)
  then show "current s' = current s" by (intro ext)
qed

lemma evict_frame_ok:
  assumes ok: "pool_ok s" and i: "i < length (frames s)" and av: "available (frames s ! i)"
  obtains s' where "evict_frame i s = (Inr (), s')" "pool_ok s'" "current s' = current s"
    "\<not> is_occupied (frames s' ! i)" "length (frames s') = length (frames s)" "frame_count s' = frame_count s"
    "layout s' = layout s" "pins s' = pins s"
    "\<forall>k. 0 < pins s k \<longrightarrow> page_table s' k = page_table s k" "\<forall>k. page_table s k = None \<longrightarrow> page_table s' k = None"
proof (cases "is_occupied (frames s ! i)")
  case False
  then show thesis using that [of s] ok by (auto simp: evict_frame_def)
next
  case True
  note pk = pool_okD [OF ok]
  obtain s1 where s1: "write_frame_if_dirty i s = (Inr (), s1)" "pool_ok s1" "current s1 = current s"
    "frames s1 = (frames s)[i := (frames s ! i)\<lparr>is_dirty := is_dirty (frames s ! i) \<and> \<not> is_occupied (frames s ! i)\<rparr>]"
    "page_table s1 = page_table s" "layout s1 = layout s" "frame_count s1 = frame_count s" "clock_hand s1 = clock_hand s"
    by (rule write_frame_if_dirty_ok [OF ok i])
  let ?g = "\<lambda>fr. fr\<lparr>is_occupied := False, pin_count := 0, is_referenced := False\<rparr>"
  let ?s' = "upd_frame i ?g (erase_page_key i s1)"
  have run: "evict_frame i s = (Inr (), ?s')"
    using True s1(1) by (simp add: evict_frame_def bindM_def modifyM_def)
  have d: "pool_ok ?s'" "current ?s' = current s"
    using drop_frame_ok [OF s1(2), of i ?g] i True s1(3,4) by simp_all
  have zero: "pin_count (frames s ! i) = 0" using frame_okD [OF ok i True] av True by (auto simp: available_def)
  have pt: "page_table ?s' = (page_table s)((fr_file (frames s ! i), fr_page_id (frames s ! i)) := None)"
    using s1(4,5) i by (simp add: erase_page_key_def)
  have pn: "pins s (fr_file (frames s ! i), fr_page_id (frames s ! i)) = 0"
    using table_ok_resident [OF pk(4) i True] zero by (simp add: pins_def)
  have "pins ?s' k = pins s k" for k
    using pt pn s1(4) i True table_okD [OF pk(4), of "fst k" "snd k"]
    by (cases "page_table s k") (auto simp: pins_def erase_page_key_def nth_list_update)
  then have "pins ?s' = pins s" by (intro ext)
  show thesis
  proof (rule that [OF run d])
    show "pins ?s' = pins s" by fact
  qed (use pt pn i s1 in \<open>auto simp: erase_page_key_def layout_def split: if_splits\<close>)
qed

lemma load_frame_ok:
  assumes ok: "pool_ok s" and i: "i < length (frames s)" and free: "\<not> is_occupied (frames s ! i)"
    and new: "page_table s (f, p) = None" and pg: "stored_page s f p = Some pg"
  defines "s' \<equiv> load_frame i f p pg s"
  shows "pool_ok s'" "current s' = current s" "pins s' = (pins s)((f, p) := 1)" "layout s' = layout s"
proof -
  note pk = pool_okD [OF ok]
  have sp: "stored_page s' = stored_page s" unfolding s'_def load_frame_def by (rule stored_page_cong) simp_all
  have len: "length pg = kPageSize" using stored_pageE [OF pk(3) pg] by blast
  have nores: "page_table s k \<noteq> Some i" for k using table_okD(2) [OF pk(4), of "fst k" "snd k" i] free by auto
  have fr: "frames s' ! j = (if j = i then (frames s ! i)\<lparr>fr_page := pg, fr_file := f, fr_page_id := p, pin_count := 1,
        is_dirty := False, is_referenced := True, is_occupied := True\<rparr> else frames s ! j)" for j
    using i by (auto simp: s'_def load_frame_def nth_list_update)
  note tab = pk(4) [unfolded table_ok_def, rule_format]
  have pt: "page_table s' = (page_table s)((f, p) \<mapsto> i)" by (simp add: s'_def load_frame_def)
  have "table_ok s'"
    unfolding table_ok_def
  proof (intro allI)
    fix f' p' j
    show "(page_table s' (f', p') = Some j) = (j < length (frames s') \<and> is_occupied (frames s' ! j) \<and>
        fr_file (frames s' ! j) = f' \<and> fr_page_id (frames s' ! j) = p')"
      using fr [of j] pt i new nores [of "(f', p')"] tab [of f' p' j] tab [of f p j]
      by (cases "j = i") (auto simp: s'_def load_frame_def)
  qed
  moreover have "stores_ok s'" using pk(3) by (simp add: stores_ok_def s'_def load_frame_def)
  moreover have "frame_ok s' (frames s' ! j)" if "j < length (frames s')" for j
    using pk(1) pk(5) [of j] that fr [of j] sp pg len by (cases "j = i") (auto simp: frame_ok_def s'_def load_frame_def)
  ultimately show "pool_ok s'" using pk(1,2) by (simp add: pool_ok_def s'_def load_frame_def)
  have "current s' f' p' = current s f' p'" for f' p'
    using sp pt fr pg new nores [of "(f', p')"] by (auto simp: current_def split: option.splits)
  then show "current s' = current s" by (intro ext)
  have "pins s' k = ((pins s)((f, p) := 1)) k" for k
    using pt fr nores [of k] by (auto simp: pins_def split: option.splits)
  then show "pins s' = (pins s)((f, p) := 1)" by (intro ext)
  show "layout s' = layout s" by (simp add: layout_def s'_def load_frame_def)
qed

lemma unreferenced_pins:
  assumes "unreferenced s' = unreferenced s" and "pool_ok s"
  shows "pins s' = pins s"
  using unreferenced_view(3) [OF assms(1)] unreferenced_fields(4) [OF assms(1)] table_okD(1) [OF pool_okD(4) [OF assms(2)]]
  by (auto simp: pins_def fun_eq_iff split: option.splits)

lemma find_victim_frame_ok:
  assumes "pool_ok s" and "find_victim_frame s = (r, s')"
  shows "pool_ok s'" "current s' = current s" "pins s' = pins s" "page_table s' = page_table s"
    "length (frames s') = length (frames s)" "layout s' = layout s"
    "r = Inr v \<Longrightarrow> v < length (frames s') \<and> available (frames s' ! v)"
    "r = Inl e \<Longrightarrow> is_storage_exception e"
proof -
  note c = clock_scan_unreferenced [OF assms(1) assms(2) [unfolded find_victim_frame_def]]
  then have u: "unreferenced s' = unreferenced s" "clock_hand s' < frame_count s'" by auto
  show "pool_ok s'" "current s' = current s" using unreferenced_pool_ok [OF u assms(1)] by simp_all
  show "pins s' = pins s" using unreferenced_pins [OF u(1) assms(1)] .
  show "page_table s' = page_table s" "length (frames s') = length (frames s)" "layout s' = layout s"
    using unreferenced_view [OF u(1)] by (simp_all add: layout_def)
  show "r = Inr v \<Longrightarrow> v < length (frames s') \<and> available (frames s' ! v)"
    "r = Inl e \<Longrightarrow> is_storage_exception e" using c by auto
qed

lemma find_victim_frame_succeeds:
  assumes "pool_ok s" and "i < frame_count s" and "available (frames s ! i)"
  shows "\<exists>v s'. find_victim_frame s = (Inr v, s')"
proof -
  have "clock_distance s i < frame_count s * 2"
    using assms(2) pool_okD(2) [OF assms(1)] by (auto simp: clock_distance_def)
  then show ?thesis unfolding find_victim_frame_def by (rule clock_scan_finds [OF assms])
qed

lemma current_nonresident: "page_table s (f, p) = None \<Longrightarrow> current s f p = stored_page s f p"
  by (simp add: current_def)

lemma read_stored:
  assumes "stores_ok s" "stored_page s f p = Some pg" "stores s f = Some r"
  shows "disk_read r p (replicate kPageSize 0) s = (Inr pg, s)"
  using stored_pageE [OF assms(1,2)] assms(3)
  by (fastforce simp: disk_read_def store_read_page_def split: option.splits)

lemma read_absent:
  assumes "stores_ok s" "stored_page s f p = None" "stores s f = Some r"
  shows "disk_read r p (replicate kPageSize 0) s = (Inl (StorageException ''Page id out of range''), s)"
  using assms by (fastforce simp: disk_read_def store_read_page_def stored_page_def stored_def stores_ok_def
      split: option.splits if_splits)

lemma pin_hit:
  assumes ok: "pool_ok s" and i: "page_table s (f, p) = Some i"
  defines "s' \<equiv> upd_frame i (\<lambda>fr. fr\<lparr>pin_count := pin_count fr + 1, is_referenced := True\<rparr>) s"
  shows "pin f p s = (Inr i, s')" "pool_ok s'" "current s' = current s" "pins s' = (pins s)((f, p) := pins s (f, p) + 1)"
    "layout s' = layout s"
proof -
  note pk = pool_okD [OF ok] and t = table_okD [OF pool_okD(4) [OF ok] i]
  have sp: "stored_page s' = stored_page s" unfolding s'_def by (rule stored_page_cong) simp_all
  show "pin f p s = (Inr i, s')" using i by (simp add: pin_def s'_def)
  have "table_ok s'" unfolding s'_def by (rule table_ok_upd_frame [OF pk(4) t(1)]) simp_all
  moreover have "stores_ok s'" using pk(3) by (simp add: stores_ok_def s'_def)
  moreover have "frame_ok s' (frames s' ! j)" if "j < length (frames s')" for j
    using pk(1) pk(5) [of j] that sp t by (cases "j = i") (auto simp: frame_ok_def s'_def)
  ultimately show "pool_ok s'" using pk(1,2) by (simp add: pool_ok_def s'_def)
  show "current s' = current s"
    using sp t(1) by (auto simp: current_def s'_def fun_eq_iff nth_list_update split: option.splits)
  have "pins s' k = ((pins s)((f, p) := pins s (f, p) + 1)) k" for k
    using i t table_okD [OF pk(4), of "fst k" "snd k"]
    by (cases "page_table s k") (auto simp: pins_def s'_def nth_list_update)
  then show "pins s' = (pins s)((f, p) := pins s (f, p) + 1)" by (intro ext)
  show "layout s' = layout s" by (simp add: layout_def s'_def)
qed

lemma pin_evicted:
  assumes ok: "pool_ok s" and new: "page_table s (f, p) = None"
    and free: "i < length (frames s)" "\<not> is_occupied (frames s ! i)"
  defines "rest \<equiv> bindM (require_store f) (\<lambda>store. bindM (disk_read store p (replicate kPageSize 0)) (\<lambda>raw.
          bindM (liftR (page_from_bytes (Some raw))) (\<lambda>pg.
          bindM (modifyM (load_frame i f p pg)) (\<lambda>_. ret i))))"
  shows "rest s = (case stored_page s f p of
      Some pg \<Rightarrow> (Inr i, load_frame i f p pg s)
    | None \<Rightarrow> (Inl (StorageException (case stores s f of None \<Rightarrow> ''No page store registered for file''
        | Some _ \<Rightarrow> ''Page id out of range'')), s))"
proof (cases "stores s f")
  case None
  then show ?thesis by (simp add: rest_def bindM_def require_store_def stored_page_def stored_def)
next
  case (Some r)
  note ok3 = pool_okD(3) [OF ok]
  show ?thesis
  proof (cases "stored_page s f p")
    case None
    then show ?thesis using Some read_absent [OF ok3 None Some] by (simp add: rest_def bindM_def require_store_def)
  next
    case (Some pg)
    then have "length pg = kPageSize" using stored_pageE [OF ok3] by blast
    then show ?thesis
      using Some \<open>stores s f = Some r\<close> read_stored [OF ok3 Some \<open>stores s f = Some r\<close>]
      by (simp add: rest_def bindM_def require_store_def liftR_def modifyM_def ret_def)
  qed
qed

lemma pin_miss:
  assumes ok: "pool_ok s" and new: "page_table s (f, p) = None" and run: "pin f p s = (r, s')"
  shows "pool_ok s' \<and> current s' = current s \<and> layout s' = layout s \<and>
    (\<forall>i. r = Inr i \<longrightarrow> current s f p = Some (frame_page s' i) \<and> page_table s' (f, p) = Some i \<and>
       pins s' = (pins s)((f, p) := 1)) \<and>
    (\<forall>e. r = Inl e \<longrightarrow> is_storage_exception e \<and> pins s' = pins s) \<and>
    (\<forall>k. 0 < pins s k \<longrightarrow> page_table s' k = page_table s k)"
proof -
  obtain rv s1 where fv: "find_victim_frame s = (rv, s1)" by fastforce
  note v = find_victim_frame_ok [OF ok fv]
  show ?thesis
  proof (cases rv)
    case (Inl e)
    then have "r = Inl e" "s' = s1" using run new fv by (simp_all add: pin_def bindM_def)
    then show ?thesis using v Inl by simp
  next
    case (Inr j)
    have v7: "j < length (frames s1)" "available (frames s1 ! j)" using v(7) [OF Inr] by simp_all
    obtain s2 where e: "evict_frame j s1 = (Inr (), s2)" "pool_ok s2" "current s2 = current s1"
      "\<not> is_occupied (frames s2 ! j)" "length (frames s2) = length (frames s1)" "frame_count s2 = frame_count s1"
      "layout s2 = layout s1" "pins s2 = pins s1" "\<forall>k. 0 < pins s1 k \<longrightarrow> page_table s2 k = page_table s1 k"
      "\<forall>k. page_table s1 k = None \<longrightarrow> page_table s2 k = None"
      by (rule evict_frame_ok [OF v(1) v7])
    have new2: "page_table s2 (f, p) = None" and j: "j < length (frames s2)" using e v new Inr by auto
    have cur: "current s f p = stored_page s2 f p" using current_nonresident [OF new2] e(3) v(2) by simp
    have zero: "pins s (f, p) = 0" using new by (simp add: pins_def)
    have eq: "(r, s') = (case stored_page s2 f p of Some pg \<Rightarrow> (Inr j, load_frame j f p pg s2)
      | None \<Rightarrow> (Inl (StorageException (case stores s2 f of None \<Rightarrow> ''No page store registered for file''
        | Some _ \<Rightarrow> ''Page id out of range'')), s2))"
      using run new fv Inr e(1) pin_evicted [OF e(2) new2 j e(4)] by (simp add: pin_def bindM_def)
    show ?thesis
    proof (cases "stored_page s2 f p")
      case None
      then show ?thesis using eq e(2,3,7,8,9) v(2,3,4,6) by simp
    next
      case (Some pg)
      note l = load_frame_ok [OF e(2) j e(4) new2 Some]
      have "page_table s' = (page_table s2)((f, p) \<mapsto> j)" "frame_page s' j = pg"
        using eq Some j by (simp_all add: load_frame_def frame_page_def)
      then show ?thesis using eq Some l cur e(3,7,8,9) v(2,3,4,6) zero by simp
    qed
  qed
qed

lemma pin_correct:
  assumes "pool_ok s" and "pin f p s = (r, s')"
  shows "pool_ok s' \<and> current s' = current s \<and> layout s' = layout s \<and>
    (\<forall>i. r = Inr i \<longrightarrow> current s f p = Some (frame_page s' i) \<and> page_table s' (f, p) = Some i \<and>
       pins s' = (pins s)((f, p) := pins s (f, p) + 1)) \<and>
    (\<forall>e. r = Inl e \<longrightarrow> is_storage_exception e \<and> pins s' = pins s) \<and>
    (\<forall>k. 0 < pins s k \<longrightarrow> page_table s' k = page_table s k)"
proof (cases "page_table s (f, p)")
  case None
  then show ?thesis using pin_miss [OF assms(1) None assms(2)] by (simp add: pins_def [of s "(f, p)"])
next
  case (Some j)
  note t = table_okD(1) [OF pool_okD(4) [OF assms(1)] Some]
  have "current s f p = Some (frame_page s' j)" "r = Inr j" "page_table s' = page_table s"
    using pin_hit(1) [OF assms(1) Some] assms(2) Some t by (simp_all add: current_def frame_page_def)
  then show ?thesis using pin_hit [OF assms(1) Some] assms(2) Some by simp
qed

lemma pin_succeeds:
  assumes ok: "pool_ok s" and cur: "current s f p \<noteq> None"
    and room: "page_table s (f, p) \<noteq> None \<or> (\<exists>i < frame_count s. available (frames s ! i))"
  shows "\<exists>i s'. pin f p s = (Inr i, s')"
proof (cases "page_table s (f, p)")
  case (Some i)
  then show ?thesis by (simp add: pin_def)
next
  case None
  then obtain j s1 where fv: "find_victim_frame s = (Inr j, s1)"
    using room find_victim_frame_succeeds [OF ok] by blast
  note v = find_victim_frame_ok [OF ok fv]
  have v7: "j < length (frames s1)" "available (frames s1 ! j)" using v(7) [OF refl] by simp_all
  obtain s2 where e: "evict_frame j s1 = (Inr (), s2)" "pool_ok s2" "current s2 = current s1"
      "\<not> is_occupied (frames s2 ! j)" "length (frames s2) = length (frames s1)" "frame_count s2 = frame_count s1"
      "layout s2 = layout s1" "pins s2 = pins s1" "\<forall>k. 0 < pins s1 k \<longrightarrow> page_table s2 k = page_table s1 k"
      "\<forall>k. page_table s1 k = None \<longrightarrow> page_table s2 k = None"
    by (rule evict_frame_ok [OF v(1) v7])
  have new2: "page_table s2 (f, p) = None" and j: "j < length (frames s2)" using e v None by auto
  have "stored_page s2 f p \<noteq> None" using current_nonresident [OF new2] e(3) v(2) cur by simp
  then show ?thesis
    using None fv e(1) pin_evicted [OF e(2) new2 j e(4)] by (auto simp: pin_def bindM_def)
qed

lemma idle_available:
  assumes "idle s" and "i < frame_count s"
  shows "available (frames s ! i)"
proof (cases "is_occupied (frames s ! i)")
  case True
  have ok: "pool_ok s" and z: "pins s = (\<lambda>_. 0)" using assms(1) by (simp_all add: idle_def)
  have "page_table s (fr_file (frames s ! i), fr_page_id (frames s ! i)) = Some i"
    using table_ok_resident [OF pool_okD(4) [OF ok]] pool_okD(1) [OF ok] assms(2) True by simp
  then have "pin_count (frames s ! i) = pins s (fr_file (frames s ! i), fr_page_id (frames s ! i))"
    by (simp add: pins_def)
  then show ?thesis using z by (simp add: available_def)
qed (simp add: available_def)

lemma idle_pin:
  assumes "idle s" and "current s f p = Some pg"
  shows "\<exists>i s'. pin f p s = (Inr i, s') \<and> held s' i f p \<and> frame_page s' i = pg \<and> current s' = current s \<and>
    layout s' = layout s"
proof -
  have ok: "pool_ok s" "pins s (f, p) = 0" using assms(1) by (simp_all add: idle_def)
  have "clock_hand s < frame_count s" using pool_okD(2) [OF ok(1)] .
  then obtain i s' where run: "pin f p s = (Inr i, s')"
    using pin_succeeds [OF ok(1), of f p] idle_available [OF assms(1)] assms(2) by blast
  then show ?thesis
    using pin_correct [OF ok(1) run] ok assms by (auto simp: held_def idle_def)
qed

lemma idle_pin_absent:
  assumes "idle s" and "current s f p = None"
  shows "\<exists>e s'. pin f p s = (Inl (StorageException e), s') \<and> idle s' \<and> current s' = current s \<and>
    layout s' = layout s"
proof -
  obtain r s' where run: "pin f p s = (r, s')" by fastforce
  have ok: "pool_ok s" using assms(1) by (simp add: idle_def)
  note c = pin_correct [OF ok run]
  obtain e where "r = Inl e" "is_storage_exception e"
    using c assms(2) by (cases r) auto
  then show ?thesis using run c assms by (cases e) (auto simp: idle_def)
qed

lemma unpin_ok:
  assumes ok: "pool_ok s" and i: "page_table s (f, p) = Some i" and pos: "0 < pin_count (frames s ! i)"
    and len: "length pg = kPageSize" and same: "dirty \<or> pg = frame_page s i"
  shows "\<exists>s'. unpin f p dirty (set_frame_page i pg s) = (Inr (), s') \<and> pool_ok s' \<and>
    current s' = (current s)(f := (current s f)(p \<mapsto> pg)) \<and> pins s' = (pins s)((f, p) := pins s (f, p) - 1) \<and>
    layout s' = layout s"
proof -
  note pk = pool_okD [OF ok] and t = table_okD [OF pool_okD(4) [OF ok] i]
  let ?g = "\<lambda>fr. fr\<lparr>fr_page := pg, pin_count := pin_count fr - 1, is_dirty := (if dirty then True else is_dirty fr)\<rparr>"
  let ?s' = "upd_frame i ?g s"
  have sp: "stored_page ?s' = stored_page s" by (rule stored_page_cong) simp_all
  have run: "unpin f p dirty (set_frame_page i pg s) = (Inr (), ?s')"
    using i t(1) pos by (simp add: unpin_def set_frame_page_def upd_frame_def)
  have tab: "table_ok ?s'" by (rule table_ok_upd_frame [OF pk(4) t(1)]) simp_all
  have st: "stores_ok ?s'" using pk(3) by (simp add: stores_ok_def)
  have fok: "frame_ok ?s' (frames ?s' ! j)" if "j < length (frames ?s')" for j
    using pk(1) pk(5) [of j] that sp t pos len same by (cases "j = i") (auto simp: frame_ok_def frame_page_def)
  have ok': "pool_ok ?s'" using pk(1,2) tab st fok by (simp add: pool_ok_def)
  have cur: "current ?s' = (current s)(f := (current s f)(p \<mapsto> pg))"
  proof (intro ext)
    fix f' p'
    show "current ?s' f' p' = ((current s)(f := (current s f)(p \<mapsto> pg))) f' p'"
      using sp i table_okD [OF pk(4), of f' p' i] t
      by (cases "page_table s (f', p')") (auto simp: current_def nth_list_update)
  qed
  have "pins ?s' k = ((pins s)((f, p) := pins s (f, p) - 1)) k" for k
    using i t table_okD [OF pk(4), of "fst k" "snd k"]
    by (cases "page_table s k") (auto simp: pins_def nth_list_update)
  then have "pins ?s' = (pins s)((f, p) := pins s (f, p) - 1)" by (intro ext)
  moreover have "layout ?s' = layout s" by (simp add: layout_def)
  ultimately show ?thesis using run ok' cur by blast
qed

lemma set_frame_page_same: "set_frame_page i (frame_page s i) s = s"
  by (simp add: set_frame_page_def frame_page_def upd_frame_def)

lemma held_unpin:
  assumes "held s i f p" and "length pg = kPageSize" and "dirty \<or> pg = frame_page s i"
  shows "\<exists>s'. unpin f p dirty (set_frame_page i pg s) = (Inr (), s') \<and> idle s' \<and>
    current s' = (current s)(f := (current s f)(p \<mapsto> pg)) \<and> layout s' = layout s"
proof -
  have h: "pool_ok s" "page_table s (f, p) = Some i" "pins s = (\<lambda>_. 0)((f, p) := 1)"
    using assms(1) by (simp_all add: held_def)
  then have "pins s (f, p) = 1" by simp
  then have "0 < pin_count (frames s ! i)" using h(2) by (simp add: pins_def)
  then show ?thesis using unpin_ok [OF h(1,2) _ assms(2,3)] h(3) by (force simp: idle_def)
qed

lemma held_frame:
  assumes "held s i f p" shows "current s f p = Some (frame_page s i)" "length (frame_page s i) = kPageSize"
proof -
  have h: "pool_ok s" "page_table s (f, p) = Some i" using assms by (simp_all add: held_def)
  show "current s f p = Some (frame_page s i)" using h(2) by (simp add: current_def frame_page_def)
  show "length (frame_page s i) = kPageSize"
    using frame_okD [OF h(1) table_okD(1,2) [OF pool_okD(4) [OF h(1)] h(2)]] by (metis frame_page_def)
qed

lemma forM_Cons: "forM f (x # xs) s = (case f x s of (Inl e, t) \<Rightarrow> (Inl e, t) | (Inr _, t) \<Rightarrow> forM f xs t)"
  by (simp add: bindM_def split: prod.splits sum.splits)

lemma write_frame_pins:
  assumes "pool_ok s" "write_frame_if_dirty i s = (Inr (), s')" "i < length (frames s)"
  shows "pins s' = pins s"
proof -
  obtain t where t: "write_frame_if_dirty i s = (Inr (), t)" "pool_ok t" "current t = current s"
    "frames t = (frames s)[i := (frames s ! i)\<lparr>is_dirty := is_dirty (frames s ! i) \<and> \<not> is_occupied (frames s ! i)\<rparr>]"
    "page_table t = page_table s" "layout t = layout s" "frame_count t = frame_count s" "clock_hand t = clock_hand s"
    by (rule write_frame_if_dirty_ok [OF assms(1,3)])
  then have "t = s'" using assms(2) by simp
  then show ?thesis using t(4,5) assms(3) by (auto simp: pins_def fun_eq_iff nth_list_update split: option.splits)
qed

lemma flush_frames:
  assumes "pool_ok s" and "set is \<subseteq> {..<length (frames s)}"
    and step: "\<And>i s. g i s = (if sel (frames s ! i) then write_frame_if_dirty i s else (Inr (), s))"
    and sel: "\<And>fr b. sel (fr\<lparr>is_dirty := b\<rparr>) = sel fr"
  shows "\<exists>s'. forM g is s = (Inr (), s') \<and> pool_ok s' \<and> current s' = current s \<and> pins s' = pins s \<and>
    layout s' = layout s \<and> length (frames s') = length (frames s) \<and>
    (\<forall>j < length (frames s). (j \<in> set is \<and> sel (frames s ! j) \<or> clean (frames s ! j)) \<longrightarrow> clean (frames s' ! j)) \<and>
    (\<forall>j < length (frames s). \<exists>b. frames s' ! j = (frames s ! j)\<lparr>is_dirty := b\<rparr>)"
  using assms(1,2)
proof (induction "is" arbitrary: s)
  case Nil
  have "\<exists>b. fr = fr\<lparr>is_dirty := b\<rparr>" for fr :: frame by (rule exI [of _ "is_dirty fr"]) simp
  then show ?case using Nil by (simp add: ret_def)
next
  case (Cons i "is")
  then have i: "i < length (frames s)" by simp
  obtain t where t: "write_frame_if_dirty i s = (Inr (), t)" "pool_ok t" "current t = current s"
    "frames t = (frames s)[i := (frames s ! i)\<lparr>is_dirty := is_dirty (frames s ! i) \<and> \<not> is_occupied (frames s ! i)\<rparr>]"
    "page_table t = page_table s" "layout t = layout s" "frame_count t = frame_count s" "clock_hand t = clock_hand s"
    by (rule write_frame_if_dirty_ok [OF Cons.prems(1) i])
  show ?case
  proof (cases "sel (frames s ! i)")
    case False
    then have eq: "forM g (i # is) s = forM g is s" by (simp add: forM_Cons step del: forM.simps)
    show ?thesis unfolding eq using Cons.IH [OF Cons.prems(1)] Cons.prems(2) False by auto
  next
    case True
    then have eq: "forM g (i # is) s = forM g is t" using t(1) by (simp add: forM_Cons step del: forM.simps)
    have fr: "\<exists>b. frames t ! j = (frames s ! j)\<lparr>is_dirty := b\<rparr>" for j
      using t(4) i by (cases "j = i") (auto intro: exI [of _ "is_dirty (frames s ! j)"])
    then have sel_t: "sel (frames t ! j) = sel (frames s ! j)" for j using sel by metis
    have cl: "clean (frames t ! j)" if "j = i \<or> clean (frames s ! j)" for j
      using that t(4) i by (cases "j = i") (auto simp: clean_def)
    have len: "length (frames t) = length (frames s)" using t(4) by simp
    obtain s' where s': "forM g is t = (Inr (), s')" "pool_ok s'" "current s' = current t" "pins s' = pins t"
      "layout s' = layout t" "length (frames s') = length (frames t)"
      "\<forall>j < length (frames t). (j \<in> set is \<and> sel (frames t ! j) \<or> clean (frames t ! j)) \<longrightarrow> clean (frames s' ! j)"
      "\<forall>j < length (frames t). \<exists>b. frames s' ! j = (frames t ! j)\<lparr>is_dirty := b\<rparr>"
      using Cons.IH [OF t(2)] Cons.prems(2) len by auto
    have "\<exists>b. frames s' ! j = (frames s ! j)\<lparr>is_dirty := b\<rparr>" if "j < length (frames s)" for j
      using s'(8) [rule_format, of j] fr [of j] that len by auto
    moreover have "clean (frames s' ! j)"
      if "j < length (frames s)" "j \<in> set (i # is) \<and> sel (frames s ! j) \<or> clean (frames s ! j)" for j
      using s'(7) sel_t [of j] cl [of j] that len by auto
    moreover have "pins t = pins s" by (rule write_frame_pins [OF Cons.prems(1) t(1) i])
    ultimately show ?thesis unfolding eq using s' t len by auto
  qed
qed

lemma flush_all_ok:
  assumes "pool_ok s"
  shows "\<exists>s'. flush_all s = (Inr (), s') \<and> pool_ok s' \<and> current s' = current s \<and> pins s' = pins s \<and>
    layout s' = layout s \<and> stored_page s' = current s"
proof -
  obtain s' where s': "flush_all s = (Inr (), s')" "pool_ok s'" "current s' = current s" "pins s' = pins s"
    "layout s' = layout s" "length (frames s') = length (frames s)"
    and cl: "\<forall>j < length (frames s). clean (frames s' ! j)"
    using flush_frames [OF assms, of "[0..<length (frames s)]" write_frame_if_dirty "\<lambda>_. True"]
    by (auto simp: flush_all_def lessThan_atLeast0)
  have "stored_page s' f p = current s' f p" for f p
  proof (cases "page_table s' (f, p)")
    case (Some i)
    note t = table_okD [OF pool_okD(4) [OF s'(2)] Some]
    then show ?thesis using frame_okD [OF s'(2) t(1,2)] cl s'(6) Some by (auto simp: current_def clean_def)
  qed (simp add: current_def)
  then have "stored_page s' = current s'" by (intro ext)
  then show ?thesis using s' by auto
qed

lemma flush_file_ok:
  assumes "pool_ok s"
  shows "\<exists>s'. flush_file f s = (Inr (), s') \<and> pool_ok s' \<and> current s' = current s \<and> pins s' = pins s \<and>
    layout s' = layout s \<and> stored_page s' f = current s f"
proof -
  let ?sel = "\<lambda>fr. is_occupied fr \<and> fr_file fr = f"
  obtain s' where s': "flush_file f s = (Inr (), s')" "pool_ok s'" "current s' = current s" "pins s' = pins s"
    "layout s' = layout s" "length (frames s') = length (frames s)"
    and cl: "\<forall>j < length (frames s). ?sel (frames s ! j) \<longrightarrow> clean (frames s' ! j)"
    and fr: "\<forall>j < length (frames s). \<exists>b. frames s' ! j = (frames s ! j)\<lparr>is_dirty := b\<rparr>"
    using flush_frames [OF assms, of "[0..<length (frames s)]" "flush_file_frame f" ?sel]
    by (auto simp: flush_file_def flush_file_frame_def lessThan_atLeast0)
  have "stored_page s' f p = current s' f p" for p
  proof (cases "page_table s' (f, p)")
    case (Some i)
    note t = table_okD [OF pool_okD(4) [OF s'(2)] Some]
    have "?sel (frames s ! i)" using t fr s'(6) by auto
    then show ?thesis using frame_okD [OF s'(2) t(1,2)] cl s'(6) t Some by (auto simp: current_def clean_def)
  qed (simp add: current_def)
  then have "stored_page s' f = current s' f" by (intro ext)
  then show ?thesis using s' by auto
qed

lemma unregister_frame_ok:
  assumes ok: "pool_ok s" and i: "i < length (frames s)" and free: "\<forall>p. pins s (f, p) = 0"
  shows "\<exists>s'. unregister_frame f i s = (Inr (), s') \<and> pool_ok s' \<and> current s' = current s \<and> layout s' = layout s \<and>
    pins s' = pins s \<and> length (frames s') = length (frames s) \<and>
    \<not> (is_occupied (frames s' ! i) \<and> fr_file (frames s' ! i) = f) \<and>
    (\<forall>j. j \<noteq> i \<longrightarrow> frames s' ! j = frames s ! j)"
proof (cases "is_occupied (frames s ! i) \<and> fr_file (frames s ! i) = f")
  case False
  then show ?thesis using ok by (auto simp: unregister_frame_def Let_def)
next
  case True
  note pk = pool_okD [OF ok]
  obtain s1 where s1: "write_frame_if_dirty i s = (Inr (), s1)" "pool_ok s1" "current s1 = current s"
    "frames s1 = (frames s)[i := (frames s ! i)\<lparr>is_dirty := is_dirty (frames s ! i) \<and> \<not> is_occupied (frames s ! i)\<rparr>]"
    "page_table s1 = page_table s" "layout s1 = layout s" "frame_count s1 = frame_count s" "clock_hand s1 = clock_hand s"
    by (rule write_frame_if_dirty_ok [OF ok i])
  let ?g = "\<lambda>fr. fr\<lparr>is_occupied := False, is_dirty := False, is_referenced := False\<rparr>"
  let ?s' = "upd_frame i ?g (erase_page_key i s1)"
  have res: "page_table s (f, fr_page_id (frames s ! i)) = Some i" using table_ok_resident [OF pk(4) i] True by auto
  then have zero: "pin_count (frames s ! i) = 0" using free [rule_format, of "fr_page_id (frames s ! i)"] by (simp add: pins_def)
  have run: "unregister_frame f i s = (Inr (), ?s')"
    using True s1(1) zero by (simp add: unregister_frame_def Let_def bindM_def modifyM_def)
  have d: "pool_ok ?s'" "current ?s' = current s"
    using drop_frame_ok [OF s1(2), of i ?g] i True s1(3,4) by simp_all
  have pt: "page_table ?s' = (page_table s)((f, fr_page_id (frames s ! i)) := None)"
    using s1(4,5) i True by (simp add: erase_page_key_def)
  have "pins ?s' k = pins s k" for k
    using pt free s1(4) i True res zero table_okD [OF pk(4), of "fst k" "snd k"]
    by (cases "page_table s k") (auto simp: pins_def erase_page_key_def nth_list_update)
  then have "pins ?s' = pins s" by (intro ext)
  moreover have "layout ?s' = layout s" using s1(6) by (simp add: layout_def erase_page_key_def)
  moreover have "length (frames ?s') = length (frames s)" "\<not> (is_occupied (frames ?s' ! i) \<and> fr_file (frames ?s' ! i) = f)"
    "\<forall>j. j \<noteq> i \<longrightarrow> frames ?s' ! j = frames s ! j"
    using s1(4) i by (simp_all add: erase_page_key_def)
  ultimately show ?thesis using run d by blast
qed

lemma unregister_frames:
  assumes "pool_ok s" and "set is \<subseteq> {..<length (frames s)}" and "\<forall>p. pins s (f, p) = 0"
  shows "\<exists>s'. forM (unregister_frame f) is s = (Inr (), s') \<and> pool_ok s' \<and> current s' = current s \<and> layout s' = layout s \<and>
    pins s' = pins s \<and> length (frames s') = length (frames s) \<and>
    (\<forall>j \<in> set is. \<not> (is_occupied (frames s' ! j) \<and> fr_file (frames s' ! j) = f)) \<and>
    (\<forall>j. j \<notin> set is \<longrightarrow> frames s' ! j = frames s ! j)"
  using assms
proof (induction "is" arbitrary: s)
  case Nil
  then show ?case by (simp add: ret_def)
next
  case (Cons i "is")
  then obtain t where t: "unregister_frame f i s = (Inr (), t)" "pool_ok t" "current t = current s" "layout t = layout s"
    "pins t = pins s" "length (frames t) = length (frames s)"
    "\<not> (is_occupied (frames t ! i) \<and> fr_file (frames t ! i) = f)" "\<forall>j. j \<noteq> i \<longrightarrow> frames t ! j = frames s ! j"
    using unregister_frame_ok [of s i f] by auto
  obtain s' where s': "forM (unregister_frame f) is t = (Inr (), s')" "pool_ok s'" "current s' = current t"
    "layout s' = layout t" "pins s' = pins t" "length (frames s') = length (frames t)"
    "\<forall>j \<in> set is. \<not> (is_occupied (frames s' ! j) \<and> fr_file (frames s' ! j) = f)"
    "\<forall>j. j \<notin> set is \<longrightarrow> frames s' ! j = frames t ! j"
    using Cons.IH [of t] Cons.prems t by auto
  have "forM (unregister_frame f) (i # is) s = (Inr (), s')"
    using t(1) s'(1) by (simp add: forM_Cons del: forM.simps)
  moreover have "\<not> (is_occupied (frames s' ! j) \<and> fr_file (frames s' ! j) = f)" if "j \<in> set (i # is)" for j
    using that s'(7,8) t(7) by (cases "j \<in> set is") auto
  moreover have "frames s' ! j = frames s ! j" if "j \<notin> set (i # is)" for j using that s'(8) t(8) by simp
  ultimately show ?case using s' t by simp
qed

lemma pool_ok_unregistered:
  assumes ok: "pool_ok s" and gone: "\<forall>fr \<in> set (frames s). \<not> (is_occupied fr \<and> fr_file fr = f)"
  defines "s' \<equiv> s\<lparr>stores := (stores s)(f := None)\<rparr>"
  shows "pool_ok s'" "current s' = (current s)(f := \<lambda>_. None)" "pins s' = pins s"
proof -
  note pk = pool_okD [OF ok]
  have sp: "stored_page s' g p = (if g = f then None else stored_page s g p)" for g p
    by (auto simp: s'_def stored_page_def stored_def split: option.splits)
  have "table_ok s'" using pk(4) by (simp add: s'_def table_ok_def)
  moreover have "stores_ok s'" using pk(3) by (simp add: stores_ok_def s'_def)
  moreover have "frame_ok s' (frames s' ! j)" if "j < length (frames s')" for j
    using pk(1) pk(5) [of j] that sp gone nth_mem [of j "frames s"] by (auto simp: frame_ok_def s'_def)
  ultimately show "pool_ok s'" using pk(1,2) by (simp add: pool_ok_def s'_def)
  have none: "page_table s (f, p) = None" for p
    using table_okD [OF pk(4), of f p] gone nth_mem by (cases "page_table s (f, p)") fastforce+
  have "current s' g p = ((current s)(f := \<lambda>_. None)) g p" for g p
    using sp none by (auto simp: current_def s'_def split: option.splits)
  then show "current s' = (current s)(f := \<lambda>_. None)" by (intro ext)
  show "pins s' = pins s" by (auto simp: pins_def s'_def fun_eq_iff split: option.splits)
qed

lemma unregister_store_ok:
  assumes ok: "pool_ok s" and free: "\<forall>p. pins s (f, p) = 0"
  shows "\<exists>s'. unregister_store f s = (Inr (), s') \<and> pool_ok s' \<and> current s' = (current s)(f := \<lambda>_. None) \<and>
    pins s' = pins s \<and> layout s' = ((fst (layout s))(f := None), snd (layout s)) \<and>
    (\<forall>r d. stores s f = Some r \<longrightarrow> disks s' r = Some d \<longrightarrow>
      (\<forall>p. current s f p = (if unat p < length d then Some (d ! unat p) else None)))"
proof -
  obtain t where t: "forM (unregister_frame f) [0..<length (frames s)] s = (Inr (), t)" "pool_ok t" "current t = current s"
    "layout t = layout s" "pins t = pins s" "length (frames t) = length (frames s)"
    "\<forall>j \<in> set [0..<length (frames s)]. \<not> (is_occupied (frames t ! j) \<and> fr_file (frames t ! j) = f)"
    using unregister_frames [OF ok _ free, of "[0..<length (frames s)]"] by (auto simp: lessThan_atLeast0)
  have gone: "\<forall>fr \<in> set (frames t). \<not> (is_occupied fr \<and> fr_file fr = f)"
    unfolding all_set_conv_all_nth using t(6,7) by simp
  let ?s' = "t\<lparr>stores := (stores t)(f := None)\<rparr>"
  note u = pool_ok_unregistered [OF t(2) gone]
  have none: "page_table t (f, p) = None" for p
    using table_okD [OF pool_okD(4) [OF t(2)], of f p] gone nth_mem by (cases "page_table t (f, p)") fastforce+
  have "current s f p = (if unat p < length d then Some (d ! unat p) else None)"
    if "stores s f = Some r" "disks ?s' r = Some d" for r d p
  proof -
    have "stores t f = Some r" using that(1) arg_cong [OF t(4), of fst] by (simp add: layout_def)
    then show ?thesis using that(2) none t(3) [symmetric] by (simp add: current_def stored_page_def stored_def)
  qed
  moreover have "unregister_store f s = (Inr (), ?s')"
    using t(1) by (simp add: unregister_store_def bindM_def modifyM_def)
  moreover have "layout ?s' = ((fst (layout s))(f := None), snd (layout s))" using t(4) by (simp add: layout_def)
  ultimately show ?thesis using u t(3,5) by (intro exI [of _ ?s']) simp
qed

lemma make_buffer_pool_idle:
  assumes "0 < n"
  obtains s where "make_buffer_pool n ds = Inr s" "idle s" "stores s = Map.empty" "disks s = ds"
    "current s = (\<lambda>_ _. None)"
proof -
  obtain s where s: "make_buffer_pool n ds = Inr s"
    "s = \<lparr>frame_count = n, frames = replicate n empty_frame, clock_hand = 0,
             page_table = Map.empty, stores = Map.empty, disks = ds\<rparr>"
    using assms by (simp add: make_buffer_pool_def)
  then have "table_ok s" by (auto simp: table_ok_def empty_frame_def)
  moreover have "frame_ok s (frames s ! i)" if "i < length (frames s)" for i
    using that s(2) by (simp add: frame_ok_def empty_frame_def)
  ultimately have "idle s" using assms s(2) by (simp add: idle_def pool_ok_def stores_ok_def pins_def fun_eq_iff)
  then show thesis using that s by (auto simp: current_def stored_page_def stored_def fun_eq_iff)
qed

lemma register_store_ok:
  assumes ok: "pool_ok s" and new: "stores s f = None" and fresh: "\<forall>g. stores s g \<noteq> Some r"
    and d: "disks s r = Some d" "\<forall>pg \<in> set d. length pg = kPageSize"
  shows "\<exists>s'. register_store f (Some r) s = (Inr (), s') \<and> pool_ok s' \<and> pins s' = pins s \<and>
    layout s' = ((fst (layout s))(f \<mapsto> r), snd (layout s)) \<and> disks s' = disks s \<and>
    current s' = (current s)(f := \<lambda>p. if unat p < length d then Some (d ! unat p) else None)"
proof -
  note pk = pool_okD [OF ok]
  let ?s' = "s\<lparr>stores := (stores s)(f \<mapsto> r)\<rparr>"
  have sp: "stored_page ?s' g p = (if g = f then if unat p < length d then Some (d ! unat p) else None
      else stored_page s g p)" for g p
    using d(1) by (auto simp: stored_page_def stored_def split: option.splits)
  have old: "stored_page s f p = None" for p using new by (simp add: stored_page_def stored_def)
  have "table_ok ?s'" using pk(4) by (simp add: table_ok_def)
  moreover have "stores_ok ?s'" using pk(3) fresh d by (auto simp: stores_ok_def)
  moreover have "frame_ok ?s' (frames ?s' ! j)" if "j < length (frames ?s')" for j
    using pk(1) pk(5) [of j] that sp old by (auto simp: frame_ok_def split: if_splits)
  ultimately have ok': "pool_ok ?s'" using pk(1,2) by (simp add: pool_ok_def)
  have none: "page_table s (f, p) = None" for p
  proof (cases "page_table s (f, p)")
    case (Some i)
    note t = table_okD [OF pk(4) Some]
    show ?thesis using frame_okD [OF ok t(1,2)] t(3) old by auto
  qed simp
  have "current ?s' g p = ((current s)(f := \<lambda>p. if unat p < length d then Some (d ! unat p) else None)) g p" for g p
    using sp none by (auto simp: current_def split: option.splits)
  then have "current ?s' = (current s)(f := \<lambda>p. if unat p < length d then Some (d ! unat p) else None)" by (intro ext)
  moreover have "pins ?s' = pins s" by (auto simp: pins_def fun_eq_iff split: option.splits)
  moreover have "layout ?s' = ((fst (layout s))(f \<mapsto> r), snd (layout s))" by (simp add: layout_def)
  ultimately show ?thesis using ok' by (simp add: register_store_def)
qed

section \<open>The contract of the buffer pool\<close>

text \<open>
  What a client may assume of \<open>IBufferPool\<close> between its own calls: pinning gives the current image
  of a page and leaves all contents alone, a page that does not exist is a storage exception, and
  releasing a pin publishes the image the client left in the frame, provided a changed image is
  reported dirty. From this the outcome of the access pattern is derived once.
\<close>

locale page_cache =
  fixes quiet :: "'s \<Rightarrow> bool" and holding :: "'s \<Rightarrow> 'r \<Rightarrow> file_id \<Rightarrow> page_id \<Rightarrow> bool"
    and contents :: "'s \<Rightarrow> file_id \<Rightarrow> page_id \<Rightarrow> page option" and shape :: "'s \<Rightarrow> 'l"
    and pin_op :: "file_id \<Rightarrow> page_id \<Rightarrow> ('s, 'r) proc" and unpin_op :: "file_id \<Rightarrow> page_id \<Rightarrow> bool \<Rightarrow> ('s, unit) proc"
    and get :: "'s \<Rightarrow> 'r \<Rightarrow> page" and put :: "'r \<Rightarrow> page \<Rightarrow> 's \<Rightarrow> 's"
  assumes pin_present: "quiet s \<Longrightarrow> contents s f p = Some pg \<Longrightarrow>
      \<exists>r s'. pin_op f p s = (Inr r, s') \<and> holding s' r f p \<and> get s' r = pg \<and> contents s' = contents s \<and> shape s' = shape s"
    and pin_absent: "quiet s \<Longrightarrow> contents s f p = None \<Longrightarrow>
      \<exists>m s'. pin_op f p s = (Inl (StorageException m), s') \<and> quiet s' \<and> contents s' = contents s \<and> shape s' = shape s"
    and release: "holding s r f p \<Longrightarrow> length pg = kPageSize \<Longrightarrow> dirty \<or> pg = get s r \<Longrightarrow>
      \<exists>s'. unpin_op f p dirty (put r pg s) = (Inr (), s') \<and> quiet s' \<and>
        contents s' = (contents s)(f := (contents s f)(p \<mapsto> pg)) \<and> shape s' = shape s"
    and put_same: "put r (get s r) s = s"
    and holding_contents: "holding s r f p \<Longrightarrow> contents s f p = Some (get s r) \<and> length (get s r) = kPageSize"
begin

lemma release_unchanged:
  assumes "holding s r f p"
  shows "\<exists>s'. unpin_op f p dirty s = (Inr (), s') \<and> quiet s' \<and> contents s' = contents s \<and> shape s' = shape s"
proof -
  have "(contents s)(f := (contents s f)(p \<mapsto> get s r)) = contents s"
    using holding_contents [OF assms] by (simp add: fun_upd_idem)
  then show ?thesis using release [OF assms, of "get s r" dirty] holding_contents [OF assms] put_same by simp
qed

lemma with_pinned_returns:
  assumes "quiet s" and "contents s f p = Some pg" and "h pg = Inr (x, pg')" and "length pg' = kPageSize"
    and "dirty x \<or> pg' = pg"
  shows "\<exists>s'. with_pinned pin_op unpin_op get put f p h dirty s = (Inr x, s') \<and> quiet s' \<and>
    contents s' = (contents s)(f := (contents s f)(p \<mapsto> pg')) \<and> shape s' = shape s"
proof -
  obtain r s1 where 1: "pin_op f p s = (Inr r, s1)" "holding s1 r f p" "get s1 r = pg" "contents s1 = contents s"
    "shape s1 = shape s"
    using pin_present [OF assms(1,2)] by blast
  obtain s2 where 2: "unpin_op f p (dirty x) (put r pg' s1) = (Inr (), s2)" "quiet s2"
    "contents s2 = (contents s1)(f := (contents s1 f)(p \<mapsto> pg'))" "shape s2 = shape s1"
    using release [OF 1(2) assms(4), of "dirty x"] assms(5) 1(3) by blast
  have "with_pinned pin_op unpin_op get put f p h dirty s = (Inr x, s2)"
    using 1(1,3) 2(1) assms(3) by (simp add: with_pinned_def bindM_def catchM_def page_call_def ret_def)
  then show ?thesis using 1 2 by simp
qed

lemma with_pinned_throws:
  assumes "quiet s" and "contents s f p = Some pg" and "h pg = Inl e"
  shows "\<exists>s'. with_pinned pin_op unpin_op get put f p h dirty s = (Inl e, s') \<and> quiet s' \<and>
    contents s' = contents s \<and> shape s' = shape s"
proof -
  obtain r s1 where 1: "pin_op f p s = (Inr r, s1)" "holding s1 r f p" "get s1 r = pg" "contents s1 = contents s"
    "shape s1 = shape s"
    using pin_present [OF assms(1,2)] by blast
  obtain s2 where 2: "unpin_op f p False s1 = (Inr (), s2)" "quiet s2" "contents s2 = contents s1" "shape s2 = shape s1"
    using release_unchanged [OF 1(2), of False] by blast
  have "with_pinned pin_op unpin_op get put f p h dirty s = (Inl e, s2)"
    using 1(1,3) 2(1) assms(3) by (simp add: with_pinned_def bindM_def catchM_def page_call_def throw_def)
  then show ?thesis using 1 2 by simp
qed

lemma with_pinned_absent:
  assumes "quiet s" and "contents s f p = None"
  shows "\<exists>m s'. with_pinned pin_op unpin_op get put f p h dirty s = (Inl (StorageException m), s') \<and> quiet s' \<and>
    contents s' = contents s \<and> shape s' = shape s"
  using pin_absent [OF assms] by (fastforce simp: with_pinned_def bindM_def)

end

interpretation bp: page_cache idle held current layout pin unpin frame_page set_frame_page
proof
  fix s f p pg
  assume "idle s" "current s f p = Some pg"
  then show "\<exists>r s'. pin f p s = (Inr r, s') \<and> held s' r f p \<and> frame_page s' r = pg \<and> current s' = current s \<and> layout s' = layout s"
    by (rule idle_pin)
next
  fix s f p
  assume "idle s" "current s f p = None"
  then show "\<exists>m s'. pin f p s = (Inl (StorageException m), s') \<and> idle s' \<and> current s' = current s \<and> layout s' = layout s"
    by (rule idle_pin_absent)
next
  fix s r f p pg dirty
  assume "held s r f p" "length pg = kPageSize" "dirty \<or> pg = frame_page s r"
  then show "\<exists>s'. unpin f p dirty (set_frame_page r pg s) = (Inr (), s') \<and> idle s' \<and>
        current s' = (current s)(f := (current s f)(p \<mapsto> pg)) \<and> layout s' = layout s"
    by (rule held_unpin)
next
  fix r s
  show "set_frame_page r (frame_page s r) s = s" by (rule set_frame_page_same)
next
  fix s r f p
  assume "held s r f p"
  then show "current s f p = Some (frame_page s r) \<and> length (frame_page s r) = kPageSize"
    using held_frame by blast
qed

section \<open>Properties\<close>

lemma one_file_pool:
  "\<exists>s. idle s \<and> current s = (\<lambda>_ _. None)(5 := \<lambda>p. if unat p < 2 then Some ([page_initialize 0, page_initialize 1] ! unat p) else None)"
proof -
  let ?d = "[page_initialize 0, page_initialize 1]"
  obtain s where s: "make_buffer_pool 1 [0 \<mapsto> ?d] = Inr s" "idle s" "stores s = Map.empty" "disks s = [0 \<mapsto> ?d]"
    "current s = (\<lambda>_ _. None)"
    by (rule make_buffer_pool_idle [of 1 "[0 \<mapsto> ?d]"]) auto
  then show ?thesis
    using register_store_ok [of s 5 0 ?d] page_initialize_fields(1) by (auto simp: idle_def kPageSize_def numeral_2_eq_2)
qed

text \<open>C9: pin of a consistent pool. On success the frame holds the current image of the page, the pin
  is counted, no page image changes for any file (dirty victims are written back before their frame is
  reused) and every pinned page stays in its frame. It fails only with a storage exception, only when
  the page does not exist or when the page is not resident and every frame is pinned, and then nothing
  visible changes: the clock always finds an unpinned frame within its two rounds.\<close>

theorem pin_refines:
  assumes "pool_ok s"
  shows "case pin f p s of
      (Inr i, s') \<Rightarrow> pool_ok s' \<and> current s' = current s \<and> current s f p = Some (frame_page s' i) \<and>
        pins s' = (pins s)((f, p) := pins s (f, p) + 1) \<and> (\<forall>k. 0 < pins s k \<longrightarrow> page_table s' k = page_table s k)
    | (Inl e, s') \<Rightarrow> pool_ok s' \<and> current s' = current s \<and> pins s' = pins s \<and> is_storage_exception e \<and>
        (current s f p = None \<or> page_table s (f, p) = None \<and> (\<forall>i < frame_count s. \<not> available (frames s ! i)))"
proof -
  obtain r s' where run: "pin f p s = (r, s')" by fastforce
  have "current s f p = None \<or> page_table s (f, p) = None \<and> (\<forall>i < frame_count s. \<not> available (frames s ! i))"
    if "r = Inl e" for e
    using that pin_succeeds [OF assms, of f p] run by (metis Pair_inject sum.distinct(1))
  then show ?thesis using pin_correct [OF assms run] run by (cases r) simp_all
qed

theorem pin_refines_witness:
  "\<exists>s i s'. pool_ok s \<and> pin 5 1 s = (Inr i, s') \<and> frame_page s' i = page_initialize 1 \<and> current s' = current s"
proof -
  obtain s where s: "idle s" "current s 5 1 = Some (page_initialize 1)" using one_file_pool by fastforce
  obtain i s' where "pin 5 1 s = (Inr i, s')" using idle_pin [OF s] by blast
  then show ?thesis using pin_refines [of s 5 1] s by (auto simp: idle_def)
qed

text \<open>C27: flush\_all writes every dirty frame back: afterwards each page store holds exactly the
  current image of each of its pages, while the images, the pins and the size of the stores stay the
  same.\<close>

theorem flush_all_durable:
  assumes "pool_ok s"
  shows "\<exists>s'. flush_all s = (Inr (), s') \<and> pool_ok s' \<and> current s' = current s \<and> pins s' = pins s \<and>
    layout s' = layout s \<and> (\<forall>f p. stored_page s' f p = current s f p)"
  using flush_all_ok [OF assms] by (auto simp: fun_eq_iff)

theorem flush_all_durable_witness:
  "\<exists>s s'. pool_ok s \<and> flush_all s = (Inr (), s') \<and> stored_page s' 5 1 = Some (page_initialize 1)"
proof -
  obtain s where s: "idle s" "current s 5 1 = Some (page_initialize 1)" using one_file_pool by fastforce
  then show ?thesis using flush_all_durable [of s] by (auto simp: idle_def)
qed

end
