(* ===== verification/Heap.thy ===== *)
theory Heap
  imports Buffer
begin

text \<open>
  \<open>HeapFile\<close> of src/src/storage/heap\_file.cc: a heap of tuples in the pages of one file, read and
  written through the buffer pool. The state of a call is the heap file's own fields together with the
  pool it shares with other heaps. The abstract state is the partial map \<open>heap_tuples\<close> from item
  pointers (page and slot) to tuple bytes; each method is described by what it does to that map.
\<close>

section \<open>State\<close>

record item_pointer =
  ip_page :: page_id
  ip_slot :: u16

record heap_file =
  hf_file_id :: file_id
  hf_store :: store_ref
  column_types :: "data_type list"
  insert_page_id :: page_id
  has_insert_page :: bool

record heap_state =
  hf :: heap_file
  pool :: buffer_pool

definition on_pool :: "(buffer_pool, 'a) proc \<Rightarrow> (heap_state, 'a) proc" where
  "on_pool m h = (case m (pool h) of (r, s) \<Rightarrow> (r, h\<lparr>pool := s\<rparr>))"

section \<open>Calls on the heap's own page store\<close>

definition disk_allocate :: "store_ref \<Rightarrow> (buffer_pool, page_id) proc" where
  "disk_allocate r s =
     (case disks s r of
        None \<Rightarrow> (Inl UndefinedBehaviour, s)
      | Some d \<Rightarrow> (case store_allocate_page d of (pid, d') \<Rightarrow> (Inr pid, s\<lparr>disks := (disks s)(r \<mapsto> d')\<rparr>)))"

definition disk_page_count :: "store_ref \<Rightarrow> (buffer_pool, u32) proc" where
  "disk_page_count r s =
     (case disks s r of None \<Rightarrow> (Inl UndefinedBehaviour, s) | Some d \<Rightarrow> (Inr (store_page_count d), s))"

definition disk_replace :: "store_ref \<Rightarrow> bytes list \<Rightarrow> (buffer_pool, unit) proc" where
  "disk_replace r pages s =
     (case disks s r of
        None \<Rightarrow> (Inl UndefinedBehaviour, s)
      | Some d \<Rightarrow> (case store_replace_pages pages d of (res, d') \<Rightarrow> (res, s\<lparr>disks := (disks s)(r \<mapsto> d')\<rparr>)))"

section \<open>The methods\<close>

definition make_heap_file ::
    "file_id \<Rightarrow> store_ref \<Rightarrow> data_type list \<Rightarrow> (buffer_pool, heap_file) proc" where
  "make_heap_file file_id store types =
     bindM (register_store file_id (Some store)) (\<lambda>_.
     bindM (disk_page_count store) (\<lambda>n.
       ret (if n > 0
            then \<lparr>hf_file_id = file_id, hf_store = store, column_types = types,
                  insert_page_id = n - 1, has_insert_page = True\<rparr>
            else \<lparr>hf_file_id = file_id, hf_store = store, column_types = types,
                  insert_page_id = 0, has_insert_page = False\<rparr>)))"

definition set_column_types :: "data_type list \<Rightarrow> heap_state \<Rightarrow> heap_state" where
  "set_column_types types h = h\<lparr>hf := (hf h)\<lparr>column_types := types\<rparr>\<rparr>"

definition allocate_and_init_page :: "(heap_state, page_id) proc" where
  "allocate_and_init_page h =
     bindM (on_pool (disk_allocate (hf_store (hf h)))) (\<lambda>page_id.
     bindM (on_pool (disk_write (hf_store (hf h)) page_id (page_initialize page_id))) (\<lambda>_.
       ret page_id)) h"

definition set_insert_page :: "page_id \<Rightarrow> bool \<Rightarrow> heap_state \<Rightarrow> heap_state" where
  "set_insert_page page_id has h =
     h\<lparr>hf := (hf h)\<lparr>insert_page_id := page_id, has_insert_page := has\<rparr>\<rparr>"

definition ensure_initialized :: "(heap_state, unit) proc" where
  "ensure_initialized h =
     (if \<not> has_insert_page (hf h)
      then bindM allocate_and_init_page (\<lambda>page_id. modifyM (set_insert_page page_id True)) h
      else (Inr (), h))"

definition with_page :: "file_id \<Rightarrow> page_id \<Rightarrow> (page \<Rightarrow> ('a \<times> page) result) \<Rightarrow> ('a \<Rightarrow> bool) \<Rightarrow> (heap_state, 'a) proc" where
  "with_page file_id page_id body dirty =
     on_pool (with_pinned pin unpin frame_page set_frame_page file_id page_id body dirty)"

definition insert_into_page :: "page_id \<Rightarrow> bytes \<Rightarrow> (heap_state, item_pointer) proc" where
  "insert_into_page page_id bs h =
     bindM (with_page (hf_file_id (hf h)) page_id
              (\<lambda>pg. insert_tuple pg (Some bs) (of_nat (length bs))) (\<lambda>_. True))
       (\<lambda>slot. ret \<lparr>ip_page = page_id, ip_slot = slot\<rparr>) h"

definition insert_row :: "row \<Rightarrow> (heap_state, item_pointer) proc" where
  "insert_row r =
     (let bs = serialize_tuple r in
      if length bs + slot_entry_size + header_size > kPageSize
      then throw (StorageException ''Row does not fit in a single page'')
      else bindM ensure_initialized (\<lambda>_.
        catchM (\<lambda>h. insert_into_page (insert_page_id (hf h)) bs h)
          (\<lambda>e. if is_storage_exception e
               then bindM allocate_and_init_page (\<lambda>page_id.
                    bindM (modifyM (\<lambda>h. h\<lparr>hf := (hf h)\<lparr>insert_page_id := page_id\<rparr>\<rparr>)) (\<lambda>_.
                      insert_into_page page_id bs))
               else throw e)))"

definition read_pinned :: "(file_id \<Rightarrow> page_id \<Rightarrow> ('s, 'r) proc) \<Rightarrow> (file_id \<Rightarrow> page_id \<Rightarrow> bool \<Rightarrow> ('s, unit) proc) \<Rightarrow>
    ('s \<Rightarrow> 'r \<Rightarrow> page) \<Rightarrow> file_id \<Rightarrow> page_id \<Rightarrow> (page \<Rightarrow> 'a result) \<Rightarrow> ('s, 'a) proc" where
  "read_pinned pin_op unpin_op get file_id page_id body =
     bindM (pin_op file_id page_id) (\<lambda>r.
     bindM (catchM (\<lambda>s. (body (get s r), s)) (\<lambda>e. bindM (unpin_op file_id page_id False) (\<lambda>_. throw e))) (\<lambda>x.
     bindM (unpin_op file_id page_id False) (\<lambda>_. ret x)))"

definition get_row :: "item_pointer \<Rightarrow> (heap_state, row) proc" where
  "get_row ptr h =
     bindM (on_pool (read_pinned pin unpin frame_page (hf_file_id (hf h)) (ip_page ptr)
              (\<lambda>pg. read_tuple pg (ip_slot ptr))))
       (\<lambda>bs. case bs of
          None \<Rightarrow> throw (StorageException ''Tuple slot is empty'')
        | Some b \<Rightarrow> liftR (deserialize_tuple b (column_types (hf h)))) h"

definition delete_slot :: "item_pointer \<Rightarrow> (heap_state, unit) proc" where
  "delete_slot ptr h =
     with_page (hf_file_id (hf h)) (ip_page ptr)
       (\<lambda>pg. bindR (delete_tuple pg (ip_slot ptr)) (\<lambda>pg'. Inr ((), pg'))) (\<lambda>_. True) h"

definition update_row :: "item_pointer \<Rightarrow> row \<Rightarrow> (heap_state, item_pointer) proc" where
  "update_row ptr r h =
     (let bs = serialize_tuple r in
      bindM (with_page (hf_file_id (hf h)) (ip_page ptr)
               (\<lambda>pg. update_tuple_in_place pg (ip_slot ptr) (Some bs) (of_nat (length bs))) (\<lambda>updated. updated))
        (\<lambda>updated. if updated then ret ptr
                   else bindM (delete_slot ptr) (\<lambda>_. insert_row r)) h)"

text \<open>
  A scan hands every live tuple to a visitor. The visitor's effects are an accumulator it may update
  and an exception it may throw.
\<close>

type_synonym 'v visitor = "item_pointer \<Rightarrow> row \<Rightarrow> 'v \<Rightarrow> 'v result"

fun scan_slots :: "page \<Rightarrow> page_id \<Rightarrow> data_type list \<Rightarrow> 'v visitor \<Rightarrow> nat list \<Rightarrow> 'v \<Rightarrow> 'v result" where
  "scan_slots pg page_id types visitor [] acc = Inr acc"
| "scan_slots pg page_id types visitor (n # ns) acc =
     (let slot = of_nat n :: u16 in
      bindR (is_slot_live pg slot) (\<lambda>live.
        if \<not> live then scan_slots pg page_id types visitor ns acc
        else bindR (read_tuple pg slot) (\<lambda>bs.
          case bs of
            None \<Rightarrow> scan_slots pg page_id types visitor ns acc
          | Some b \<Rightarrow>
              bindR (deserialize_tuple b types) (\<lambda>r.
              bindR (visitor \<lparr>ip_page = page_id, ip_slot = slot\<rparr> r acc) (\<lambda>acc'.
                scan_slots pg page_id types visitor ns acc')))))"

definition scan_page :: "'v visitor \<Rightarrow> page_id \<Rightarrow> 'v \<Rightarrow> (heap_state, 'v) proc" where
  "scan_page visitor page_id acc h =
     with_page (hf_file_id (hf h)) page_id
       (\<lambda>pg. bindR (scan_slots pg page_id (column_types (hf h)) visitor [0..<unat (get_slot_count pg)] acc)
               (\<lambda>acc'. Inr (acc', pg))) (\<lambda>_. False) h"

fun scan_pages :: "'v visitor \<Rightarrow> nat list \<Rightarrow> 'v \<Rightarrow> (heap_state, 'v) proc" where
  "scan_pages visitor [] acc = ret acc"
| "scan_pages visitor (p # ps) acc =
     bindM (scan_page visitor (of_nat p) acc) (\<lambda>acc'. scan_pages visitor ps acc')"

definition scan :: "'v visitor \<Rightarrow> 'v \<Rightarrow> (heap_state, 'v) proc" where
  "scan visitor acc h =
     bindM (on_pool (disk_page_count (hf_store (hf h)))) (\<lambda>count. scan_pages visitor [0..<unat count] acc) h"

definition replace_pages :: "bytes list \<Rightarrow> (heap_state, unit) proc" where
  "replace_pages pages h =
     bindM (on_pool (unregister_store (hf_file_id (hf h)))) (\<lambda>_.
     bindM (on_pool (disk_replace (hf_store (hf h)) pages)) (\<lambda>_.
     bindM (on_pool (register_store (hf_file_id (hf h)) (Some (hf_store (hf h))))) (\<lambda>_.
       if pages = [] then modifyM (set_insert_page 0 False)
       else modifyM (set_insert_page (of_nat (length pages - 1)) True)))) h"

definition clear_heap :: "(heap_state, unit) proc" where
  "clear_heap = replace_pages []"

section \<open>Abstract state and invariant\<close>

definition heap_page :: "heap_state \<Rightarrow> page_id \<Rightarrow> page option" where
  "heap_page h p = current (pool h) (hf_file_id (hf h)) p"

definition page_tuple :: "page \<Rightarrow> u16 \<Rightarrow> bytes option" where
  "page_tuple pg slot = (if unat slot < length (page_view pg) then page_view pg ! unat slot else None)"

definition heap_tuples :: "heap_state \<Rightarrow> item_pointer \<Rightarrow> bytes option" where
  "heap_tuples h ptr = (case heap_page h (ip_page ptr) of None \<Rightarrow> None | Some pg \<Rightarrow> page_tuple pg (ip_slot ptr))"

definition has_slot :: "heap_state \<Rightarrow> item_pointer \<Rightarrow> bool" where
  "has_slot h ptr =
     (case heap_page h (ip_page ptr) of None \<Rightarrow> False | Some pg \<Rightarrow> unat (ip_slot ptr) < length (page_view pg))"

definition page_total :: "heap_state \<Rightarrow> nat" where
  "page_total h = (case disks (pool h) (hf_store (hf h)) of None \<Rightarrow> 0 | Some d \<Rightarrow> length d)"

definition heap_ok :: "heap_state \<Rightarrow> bool" where
  "heap_ok h =
     (idle (pool h) \<and> stores (pool h) (hf_file_id (hf h)) = Some (hf_store (hf h)) \<and>
      page_total h < 2 ^ 32 \<and>
      (has_insert_page (hf h) \<longleftrightarrow> 0 < page_total h) \<and>
      (has_insert_page (hf h) \<longrightarrow> Suc (unat (insert_page_id (hf h))) = page_total h) \<and>
      (\<forall>p pg. heap_page h p = Some pg \<longrightarrow> wf_page pg))"

definition storable :: "row \<Rightarrow> bool" where
  "storable r = (length (serialize_tuple r) + slot_entry_size + header_size \<le> kPageSize)"

text \<open>
  \<open>keeps h h'\<close>: the heap is consistent afterwards, is still the same file of the same store with the
  same column types, and no other file has changed. The entries of a heap are its live tuples in scan
  order; \<open>collect\<close> is the visitor that records what it is shown.
\<close>

definition keeps :: "heap_state \<Rightarrow> heap_state \<Rightarrow> bool" where
  "keeps h h' =
     (heap_ok h' \<and> hf_file_id (hf h') = hf_file_id (hf h) \<and> hf_store (hf h') = hf_store (hf h) \<and>
      column_types (hf h') = column_types (hf h) \<and>
      (\<forall>g. g \<noteq> hf_file_id (hf h) \<longrightarrow> current (pool h') g = current (pool h) g))"

fun fold_result :: "('a \<Rightarrow> 'b \<Rightarrow> 'b result) \<Rightarrow> 'a list \<Rightarrow> 'b \<Rightarrow> 'b result" where
  "fold_result f [] acc = Inr acc"
| "fold_result f (x # xs) acc = bindR (f x acc) (fold_result f xs)"

definition page_entries :: "page_id \<Rightarrow> page \<Rightarrow> nat list \<Rightarrow> (item_pointer \<times> bytes) list" where
  "page_entries p pg ns =
     concat (map (\<lambda>n. case page_tuple pg (of_nat n) of None \<Rightarrow> [] | Some b \<Rightarrow> [(\<lparr>ip_page = p, ip_slot = of_nat n\<rparr>, b)]) ns)"

definition heap_entries :: "heap_state \<Rightarrow> nat list \<Rightarrow> (item_pointer \<times> bytes) list" where
  "heap_entries h ps =
     concat (map (\<lambda>p. case heap_page h (of_nat p) of None \<Rightarrow> []
        | Some pg \<Rightarrow> page_entries (of_nat p) pg [0..<length (page_view pg)]) ps)"

definition visit :: "data_type list \<Rightarrow> 'v visitor \<Rightarrow> item_pointer \<times> bytes \<Rightarrow> 'v \<Rightarrow> 'v result" where
  "visit types visitor e acc = bindR (deserialize_tuple (snd e) types) (\<lambda>r. visitor (fst e) r acc)"

definition collect :: "(item_pointer \<times> row) list visitor" where
  "collect ptr r acc = Inr (acc @ [(ptr, r)])"

definition decodes :: "data_type list \<Rightarrow> bytes \<Rightarrow> row option" where
  "decodes types b = (case deserialize_tuple b types of Inl _ \<Rightarrow> None | Inr r \<Rightarrow> Some r)"

definition sample_row :: row where
  "sample_row = make_row [IntV 7]"

section \<open>Lemmas\<close>

lemma resident_stored:
  assumes "pool_ok s" and "page_table s (f, p) \<noteq> None"
  shows "stored_page s f p \<noteq> None"
proof -
  obtain i where i: "page_table s (f, p) = Some i" using assms(2) by auto
  note t = table_okD [OF pool_okD(4) [OF assms(1)] i]
  show ?thesis using frame_okD [OF assms(1) t(1,2)] t(3,4) by auto
qed

lemma current_defined:
  assumes "pool_ok s" and "stores s f = Some r" and "disks s r = Some d"
  shows "current s f p \<noteq> None \<longleftrightarrow> unat p < length d"
proof -
  have "stored_page s f p \<noteq> None \<longleftrightarrow> unat p < length d" using assms(2,3) by (simp add: stored_page_def stored_def)
  then show ?thesis using resident_stored [OF assms(1), of f p] by (auto simp: current_def split: option.splits)
qed

lemma store_grown_ok:
  assumes ok: "pool_ok s" and r: "stores s f = Some r" and d: "disks s r = Some d" and few: "length d < 2 ^ 32"
    and len: "length pg = kPageSize"
  defines "s' \<equiv> s\<lparr>disks := (disks s)(r \<mapsto> d @ [pg])\<rparr>"
  shows "pool_ok s'" "current s' = (current s)(f := (current s f)(of_nat (length d) \<mapsto> pg))" "pins s' = pins s"
proof -
  note pk = pool_okD [OF ok]
  let ?n = "of_nat (length d) :: page_id"
  have n: "unat ?n = length d" using few by (simp add: unat_of_nat)
  have only: "stores s g = Some r \<Longrightarrow> g = f" for g using pk(3) r by (auto simp: stores_ok_def)
  have sp: "stored_page s' g p = (if g = f \<and> p = ?n then Some pg else stored_page s g p)" for g p
  proof (cases "g = f")
    case True
    have "unat p = length d \<longleftrightarrow> p = ?n" using n by (metis word_unat_eq_iff)
    then show ?thesis using True r d n by (auto simp: s'_def stored_page_def stored_def nth_append)
  next
    case False
    then have "stores s g \<noteq> Some r" using only by auto
    then show ?thesis using False by (auto simp: s'_def stored_page_def stored_def split: option.splits)
  qed
  have new: "page_table s (f, ?n) = None"
    using resident_stored [OF ok, of f ?n] r d n
    by (cases "page_table s (f, ?n)") (auto simp: stored_page_def stored_def)
  have "table_ok s'" using pk(4) by (simp add: table_ok_def s'_def)
  moreover have "\<forall>x \<in> set d. length x = kPageSize" using pk(3) r d unfolding stores_ok_def by (metis option.inject)
  then have "stores_ok s'" using pk(3) len by (auto simp: stores_ok_def s'_def)
  moreover have "frame_ok s' (frames s' ! j)" if j: "j < length (frames s')" for j
  proof -
    have "\<not> (fr_file (frames s ! j) = f \<and> fr_page_id (frames s ! j) = ?n)" if "is_occupied (frames s ! j)"
      using table_ok_resident [OF pk(4), of j] new that j by (auto simp: s'_def)
    then show ?thesis using pk(1) pk(5) [of j] sp j by (auto simp: frame_ok_def s'_def)
  qed
  ultimately show "pool_ok s'" using pk(1,2) by (simp add: pool_ok_def s'_def)
  have "current s' g p = ((current s)(f := (current s f)(?n \<mapsto> pg))) g p" for g p
    using sp new by (auto simp: current_def s'_def split: option.splits)
  then show "current s' = (current s)(f := (current s f)(?n \<mapsto> pg))" by (intro ext)
  show "pins s' = pins s" by (auto simp: pins_def s'_def fun_eq_iff split: option.splits)
qed

lemma keeps_refl: "heap_ok h \<Longrightarrow> keeps h h"
  by (simp add: keeps_def)

lemma keeps_trans: "keeps h1 h2 \<Longrightarrow> keeps h2 h3 \<Longrightarrow> keeps h1 h3"
  by (simp add: keeps_def)

lemma heap_okD:
  assumes "heap_ok h"
  shows "idle (pool h)" "pool_ok (pool h)" "stores (pool h) (hf_file_id (hf h)) = Some (hf_store (hf h))"
    "page_total h < 2 ^ 32" "has_insert_page (hf h) \<longleftrightarrow> 0 < page_total h"
    "has_insert_page (hf h) \<Longrightarrow> Suc (unat (insert_page_id (hf h))) = page_total h"
    "heap_page h p = Some pg \<Longrightarrow> wf_page pg"
  using assms by (auto simp: heap_ok_def idle_def)

lemma heap_store:
  assumes "heap_ok h"
  obtains d where "disks (pool h) (hf_store (hf h)) = Some d" "page_total h = length d"
proof -
  obtain d where "disks (pool h) (hf_store (hf h)) = Some d"
    using heap_okD(3) [OF assms] pool_okD(3) [OF heap_okD(2) [OF assms]] unfolding stores_ok_def by blast
  then show thesis using that by (simp add: page_total_def)
qed

lemma heap_page_defined: "heap_ok h \<Longrightarrow> heap_page h p \<noteq> None \<longleftrightarrow> unat p < page_total h"
  using current_defined [OF heap_okD(2,3)] heap_store by (metis heap_page_def)

lemma layout_page_total:
  assumes "layout (pool h') = layout (pool h)" "hf_store (hf h') = hf_store (hf h)"
  shows "page_total h' = page_total h" "stores (pool h') = stores (pool h)"
proof -
  have "map_option length (disks (pool h') (hf_store (hf h))) = map_option length (disks (pool h) (hf_store (hf h)))"
    using assms(1) by (simp add: layout_def fun_eq_iff)
  then show "page_total h' = page_total h"
    using assms(2) by (auto simp: page_total_def split: option.splits)
  show "stores (pool h') = stores (pool h)" using assms(1) by (simp add: layout_def)
qed

lemma keeps_page_update:
  assumes ok: "heap_ok h" and p: "heap_page h p \<noteq> None" and wf: "wf_page pg'"
    and s: "idle s" "current s = (current (pool h))(hf_file_id (hf h) := (current (pool h) (hf_file_id (hf h)))(p \<mapsto> pg'))"
    "layout s = layout (pool h)"
  shows "keeps h (h\<lparr>pool := s\<rparr>)" "heap_page (h\<lparr>pool := s\<rparr>) = (heap_page h)(p \<mapsto> pg')"
    "page_total (h\<lparr>pool := s\<rparr>) = page_total h"
proof -
  let ?h' = "h\<lparr>pool := s\<rparr>"
  note l = layout_page_total [of ?h' h]
  show pages: "heap_page ?h' = (heap_page h)(p \<mapsto> pg')" using s(2) by (simp add: heap_page_def fun_eq_iff)
  show "page_total ?h' = page_total h" using l s(3) by simp
  show "keeps h ?h'"
    using ok s l pages wf by (simp add: keeps_def heap_ok_def)
qed

lemma with_page_returns:
  assumes ok: "heap_ok h" and p: "heap_page h p = Some pg" and b: "body pg = Inr (x, pg')" and wf: "wf_page pg'"
    and dirty: "dirty x \<or> pg' = pg"
  shows "\<exists>h'. with_page (hf_file_id (hf h)) p body dirty h = (Inr x, h') \<and> keeps h h' \<and> hf h' = hf h \<and>
    heap_page h' = (heap_page h)(p \<mapsto> pg') \<and> page_total h' = page_total h"
proof -
  obtain s where s: "with_pinned pin unpin frame_page set_frame_page (hf_file_id (hf h)) p body dirty (pool h) = (Inr x, s)"
    "idle s" "current s = (current (pool h))(hf_file_id (hf h) := (current (pool h) (hf_file_id (hf h)))(p \<mapsto> pg'))"
    "layout s = layout (pool h)"
    using bp.with_pinned_returns [OF heap_okD(1) [OF ok], of "hf_file_id (hf h)" p pg body x pg' dirty]
      p b wf_pageD(1) [OF wf] dirty by (auto simp: heap_page_def kPageSize_def)
  then show ?thesis
    using keeps_page_update [OF ok _ wf s(2-4)] p by (auto simp: with_page_def on_pool_def)
qed

lemma keeps_same:
  assumes ok: "heap_ok h" and s: "idle s" "current s = current (pool h)" "layout s = layout (pool h)"
  shows "keeps h (h\<lparr>pool := s\<rparr>)" "heap_page (h\<lparr>pool := s\<rparr>) = heap_page h" "page_total (h\<lparr>pool := s\<rparr>) = page_total h"
proof -
  let ?h' = "h\<lparr>pool := s\<rparr>"
  note l = layout_page_total [of ?h' h]
  show pages: "heap_page ?h' = heap_page h" using s(2) by (simp add: heap_page_def fun_eq_iff)
  show "page_total ?h' = page_total h" using l s(3) by simp
  show "keeps h ?h'" using ok s l pages by (simp add: keeps_def heap_ok_def)
qed

lemma with_page_throws:
  assumes ok: "heap_ok h" and p: "heap_page h p = Some pg" and b: "body pg = Inl e"
  shows "\<exists>h'. with_page (hf_file_id (hf h)) p body dirty h = (Inl e, h') \<and> keeps h h' \<and> hf h' = hf h \<and>
    heap_page h' = heap_page h \<and> page_total h' = page_total h"
proof -
  obtain s where s: "with_pinned pin unpin frame_page set_frame_page (hf_file_id (hf h)) p body dirty (pool h) = (Inl e, s)"
    "idle s" "current s = current (pool h)" "layout s = layout (pool h)"
    using bp.with_pinned_throws [OF heap_okD(1) [OF ok], of "hf_file_id (hf h)" p pg body e dirty]
      p b by (auto simp: heap_page_def)
  then show ?thesis using keeps_same [OF ok s(2-4)] by (auto simp: with_page_def on_pool_def)
qed

lemma with_page_absent:
  assumes ok: "heap_ok h" and p: "heap_page h p = None"
  shows "\<exists>m h'. with_page (hf_file_id (hf h)) p body dirty h = (Inl (StorageException m), h') \<and> keeps h h' \<and>
    hf h' = hf h \<and> heap_page h' = heap_page h"
proof -
  obtain m s where s: "with_pinned pin unpin frame_page set_frame_page (hf_file_id (hf h)) p body dirty (pool h) =
      (Inl (StorageException m), s)" "idle s" "current s = current (pool h)" "layout s = layout (pool h)"
    using bp.with_pinned_absent [OF heap_okD(1) [OF ok], of "hf_file_id (hf h)" p body dirty] p
    by (auto simp: heap_page_def)
  then show ?thesis using keeps_same [OF ok s(2-4)] by (auto simp: with_page_def on_pool_def)
qed

lemma item_pointer_eq_iff: "ptr = \<lparr>ip_page = p, ip_slot = i\<rparr> \<longleftrightarrow> ip_page ptr = p \<and> ip_slot ptr = i"
  by (cases ptr) auto

lemma page_tuple_initialize [simp]: "page_tuple (page_initialize pid) = (\<lambda>_. None)"
  by (simp add: page_tuple_def page_view_initialize fun_eq_iff)

lemma serialize_tuple_size: "16 \<le> length (serialize_tuple r)"
  unfolding length_serialize_tuple measure_tuple_size_def by (simp add: foldl_sum)

lemma storable_size:
  assumes "storable r"
  shows "unat (of_nat (length (serialize_tuple r)) :: u16) = length (serialize_tuple r)" "0 < length (serialize_tuple r)"
    "length (serialize_tuple r) + 4 \<le> 8180"
  using assms serialize_tuple_size [of r]
  by (auto simp: storable_def kPageSize_def header_size_def slot_entry_size_def unat_of_nat)

lemma heap_tuples_page_update:
  assumes "heap_page h' = (heap_page h)(p \<mapsto> pg')"
  shows "heap_tuples h' ptr = (if ip_page ptr = p then page_tuple pg' (ip_slot ptr) else heap_tuples h ptr)"
  using assms by (simp add: heap_tuples_def)

lemma allocate_page_ok:
  assumes ok: "heap_ok h" and few: "Suc (page_total h) < 2 ^ 32"
  shows "\<exists>h'. allocate_and_init_page h = (Inr (of_nat (page_total h)), h') \<and> hf h' = hf h \<and>
    keeps h (set_insert_page (of_nat (page_total h)) True h') \<and>
    heap_page h' = (heap_page h)(of_nat (page_total h) \<mapsto> page_initialize (of_nat (page_total h)))"
proof -
  let ?f = "hf_file_id (hf h)" let ?r = "hf_store (hf h)" let ?s = "pool h"
  obtain d where d: "disks ?s ?r = Some d" "page_total h = length d" using heap_store [OF ok] .
  let ?n = "of_nat (length d) :: page_id" let ?pg = "page_initialize ?n"
  let ?s' = "?s\<lparr>disks := (disks ?s)(?r \<mapsto> d @ [?pg])\<rparr>"
  have n: "unat ?n = length d" using few d(2) by (simp add: unat_of_nat)
  have pg: "length ?pg = kPageSize" by (simp add: page_initialize_fields kPageSize_def)
  note g = store_grown_ok [OF heap_okD(2,3) [OF ok] d(1) _ pg]
  have run: "allocate_and_init_page h = (Inr ?n, h\<lparr>pool := ?s'\<rparr>)"
    using d(1) n pg by (simp add: allocate_and_init_page_def bindM_def on_pool_def disk_allocate_def
        store_allocate_page_def disk_write_def store_write_page_def ret_def nth_append)
  have pages: "heap_page (h\<lparr>pool := ?s'\<rparr>) = (heap_page h)(?n \<mapsto> ?pg)"
    using g(2) few d(2) by (simp add: heap_page_def fun_eq_iff)
  have wf: "wf_page pg" if "heap_page (h\<lparr>pool := ?s'\<rparr>) p = Some pg" for p pg
    using that heap_okD(7) [OF ok] wf_page_initialize pages by (auto split: if_splits)
  then have "heap_ok (set_insert_page ?n True (h\<lparr>pool := ?s'\<rparr>))"
    using g few d(2) n heap_okD [OF ok] pages
    by (simp add: heap_ok_def set_insert_page_def page_total_def heap_page_def idle_def wf_page_initialize)
  then have "keeps h (set_insert_page ?n True (h\<lparr>pool := ?s'\<rparr>))"
    using g(2) few d(2) by (simp add: keeps_def set_insert_page_def)
  then show ?thesis using run pages d(2) by auto
qed

lemma insert_into_page_fits:
  assumes ok: "heap_ok h" and p: "heap_page h p = Some pg" and r: "storable r"
    and room: "length (serialize_tuple r) + 4 \<le> get_free_space pg"
  shows "\<exists>h' slot. insert_into_page p (serialize_tuple r) h = (Inr \<lparr>ip_page = p, ip_slot = slot\<rparr>, h') \<and> keeps h h' \<and>
    hf h' = hf h \<and> page_total h' = page_total h \<and> heap_tuples h \<lparr>ip_page = p, ip_slot = slot\<rparr> = None \<and>
    heap_tuples h' = (heap_tuples h)(\<lparr>ip_page = p, ip_slot = slot\<rparr> \<mapsto> serialize_tuple r)"
proof -
  let ?bs = "serialize_tuple r" let ?slot = "of_nat (length (page_view pg)) :: u16"
  note sz = storable_size [OF r] and wf = heap_okD(7) [OF ok p]
  obtain pg' where pg': "insert_tuple pg (Some ?bs) (of_nat (length ?bs)) = Inr (?slot, pg')" "wf_page pg'"
    "page_view pg' = page_view pg @ [Some ?bs]"
    using pg.ins_view [OF wf sz(1) [symmetric] sz(2) room] by blast
  obtain h' where h': "with_page (hf_file_id (hf h)) p (\<lambda>pg. insert_tuple pg (Some ?bs) (of_nat (length ?bs))) (\<lambda>_. True) h =
      (Inr ?slot, h')" "keeps h h'" "hf h' = hf h" "heap_page h' = (heap_page h)(p \<mapsto> pg')" "page_total h' = page_total h"
    using with_page_returns [OF ok p, of "\<lambda>pg. insert_tuple pg (Some ?bs) (of_nat (length ?bs))" ?slot pg' "\<lambda>_. True"] pg' by auto
  have slot: "unat ?slot = length (page_view pg)" using pg.view_small [OF wf] by (simp add: unat_of_nat)
  have new: "page_tuple pg' i = (if i = ?slot then Some ?bs else page_tuple pg i)" for i
    using slot pg'(3) by (auto simp: page_tuple_def nth_append word_unat_eq_iff simp del: length_page_view)
  have "heap_tuples h' ptr = ((heap_tuples h)(\<lparr>ip_page = p, ip_slot = ?slot\<rparr> \<mapsto> ?bs)) ptr" for ptr
    using heap_tuples_page_update [OF h'(4)] new p by (auto simp: heap_tuples_def item_pointer_eq_iff)
  moreover have "heap_tuples h \<lparr>ip_page = p, ip_slot = ?slot\<rparr> = None"
    using p slot by (simp add: heap_tuples_def page_tuple_def del: length_page_view)
  ultimately show ?thesis using h' by (auto simp: insert_into_page_def bindM_def ret_def fun_eq_iff)
qed

lemma insert_into_page_full:
  assumes ok: "heap_ok h" and p: "heap_page h p = Some pg" and r: "storable r"
    and room: "\<not> length (serialize_tuple r) + 4 \<le> get_free_space pg"
  shows "\<exists>h' m. insert_into_page p (serialize_tuple r) h = (Inl (StorageException m), h') \<and> keeps h h' \<and>
    hf h' = hf h \<and> page_total h' = page_total h \<and> heap_page h' = heap_page h"
proof -
  let ?b = "\<lambda>pg. insert_tuple pg (Some (serialize_tuple r)) (of_nat (length (serialize_tuple r)))"
  have "?b pg = Inl (StorageException ''Tuple does not fit on page'')"
    using storable_size(1) [OF r] room by (intro pg.ins_full) simp
  from with_page_throws [of h p pg ?b, OF ok p this, of "\<lambda>_. True"] show ?thesis
    by (auto simp: insert_into_page_def bindM_def)
qed

lemma set_insert_page_same:
  "has_insert_page (hf h) \<Longrightarrow> insert_page_id (hf h) = p \<Longrightarrow> set_insert_page p True h = h"
  by (cases "hf h") (auto simp: set_insert_page_def intro!: heap_state.equality heap_file.equality)

lemma set_insert_page_views [simp]:
  "heap_page (set_insert_page p b h) = heap_page h" "heap_tuples (set_insert_page p b h) = heap_tuples h"
  "page_total (set_insert_page p b h) = page_total h" "hf_file_id (hf (set_insert_page p b h)) = hf_file_id (hf h)"
  "insert_page_id (hf (set_insert_page p b h)) = p"
  by (simp_all add: set_insert_page_def heap_page_def heap_tuples_def page_total_def fun_eq_iff)

lemma heap_tuples_blank:
  assumes "heap_page h' = (heap_page h)(p \<mapsto> page_initialize q)" and "heap_page h p = None"
  shows "heap_tuples h' = heap_tuples h"
proof
  fix ptr
  show "heap_tuples h' ptr = heap_tuples h ptr"
    using heap_tuples_page_update [OF assms(1), of ptr] assms(2) by (auto simp: heap_tuples_def)
qed

lemma page_total_absent:
  assumes "heap_ok h" shows "heap_page h (of_nat (page_total h)) = None"
  using heap_page_defined [OF assms, of "of_nat (page_total h)"] heap_okD(4) [OF assms] by (simp add: unat_of_nat)

lemma ensure_initialized_ok:
  assumes ok: "heap_ok h" and few: "Suc (page_total h) < 2 ^ 32"
  shows "\<exists>h'. ensure_initialized h = (Inr (), h') \<and> keeps h h' \<and> has_insert_page (hf h') \<and>
    heap_tuples h' = heap_tuples h \<and> page_total h' \<le> Suc (page_total h) \<and>
    (if has_insert_page (hf h) then page_total h' = page_total h
     else heap_page h' (insert_page_id (hf h')) = Some (page_initialize (insert_page_id (hf h'))))"
proof (cases "has_insert_page (hf h)")
  case True
  then show ?thesis using ok by (simp add: ensure_initialized_def keeps_refl)
next
  case False
  obtain h' where h': "allocate_and_init_page h = (Inr (of_nat (page_total h)), h')" "hf h' = hf h"
    "keeps h (set_insert_page (of_nat (page_total h)) True h')"
    "heap_page h' = (heap_page h)(of_nat (page_total h) \<mapsto> page_initialize (of_nat (page_total h)))"
    using allocate_page_ok [OF ok few] by blast
  let ?h' = "set_insert_page (of_nat (page_total h)) True h'"
  have "heap_ok ?h'" using h'(3) by (simp add: keeps_def)
  then have "page_total ?h' = Suc (page_total h)"
    using heap_okD(6) [of ?h'] few by (simp add: set_insert_page_def unat_of_nat)
  moreover have "heap_tuples h' = heap_tuples h" using heap_tuples_blank [OF h'(4)] page_total_absent [OF ok] .
  ultimately show ?thesis
    using False h' by (simp add: ensure_initialized_def bindM_def modifyM_def) (simp add: set_insert_page_def)
qed

lemma insert_after_grow:
  assumes ok: "heap_ok h" and few: "Suc (page_total h) < 2 ^ 32" and r: "storable r" and has: "has_insert_page (hf h)"
  shows "\<exists>h' ptr. bindM allocate_and_init_page (\<lambda>page_id.
        bindM (modifyM (\<lambda>h. h\<lparr>hf := (hf h)\<lparr>insert_page_id := page_id\<rparr>\<rparr>)) (\<lambda>_. insert_into_page page_id (serialize_tuple r))) h =
      (Inr ptr, h') \<and> keeps h h' \<and> page_total h' = Suc (page_total h) \<and> heap_tuples h ptr = None \<and>
      heap_tuples h' = (heap_tuples h)(ptr \<mapsto> serialize_tuple r)"
proof -
  let ?n = "of_nat (page_total h) :: page_id"
  obtain h1 where h1: "allocate_and_init_page h = (Inr ?n, h1)" "hf h1 = hf h" "keeps h (set_insert_page ?n True h1)"
    "heap_page h1 = (heap_page h)(?n \<mapsto> page_initialize ?n)"
    using allocate_page_ok [OF ok few] by blast
  let ?h2 = "set_insert_page ?n True h1"
  have eq: "h1\<lparr>hf := (hf h1)\<lparr>insert_page_id := ?n\<rparr>\<rparr> = ?h2"
    using has h1(2) by (auto simp: set_insert_page_def intro!: heap_state.equality heap_file.equality)
  have ok2: "heap_ok ?h2" using h1(3) by (simp add: keeps_def)
  have tup: "heap_tuples ?h2 = heap_tuples h" using heap_tuples_blank [OF h1(4)] page_total_absent [OF ok] by simp
  have pg: "heap_page ?h2 ?n = Some (page_initialize ?n)" using h1(4) by simp
  have room: "length (serialize_tuple r) + 4 \<le> get_free_space (page_initialize ?n)"
    using storable_size(3) [OF r] page_initialize_fields [of ?n] by (simp add: get_free_space_def lower_of_def upper_of_def)
  obtain h' slot where h': "insert_into_page ?n (serialize_tuple r) ?h2 = (Inr \<lparr>ip_page = ?n, ip_slot = slot\<rparr>, h')"
    "keeps ?h2 h'" "page_total h' = page_total ?h2" "heap_tuples ?h2 \<lparr>ip_page = ?n, ip_slot = slot\<rparr> = None"
    "heap_tuples h' = (heap_tuples ?h2)(\<lparr>ip_page = ?n, ip_slot = slot\<rparr> \<mapsto> serialize_tuple r)"
    using insert_into_page_fits [OF ok2 pg r room] by blast
  have "page_total ?h2 = Suc (page_total h)"
    using heap_okD(6) [OF ok2] few by (simp add: set_insert_page_def unat_of_nat)
  moreover have "keeps h h'" using keeps_trans [OF h1(3) h'(2)] .
  ultimately show ?thesis using h1(1) h' eq tup by (auto simp: bindM_def modifyM_def)
qed

lemma insert_row_ok:
  assumes ok: "heap_ok h" and few: "page_total h + 2 < 2 ^ 32" and r: "storable r"
  shows "\<exists>h' ptr. insert_row r h = (Inr ptr, h') \<and> keeps h h' \<and> page_total h' \<le> page_total h + 2 \<and> heap_tuples h ptr = None \<and>
      heap_tuples h' = (heap_tuples h)(ptr \<mapsto> serialize_tuple r)"
proof -
  obtain h1 where h1: "ensure_initialized h = (Inr (), h1)" "keeps h h1" "has_insert_page (hf h1)"
    "heap_tuples h1 = heap_tuples h" "page_total h1 \<le> Suc (page_total h)"
    using ensure_initialized_ok [OF ok] few by auto
  have ok1: "heap_ok h1" using h1(2) by (simp add: keeps_def)
  have "unat (insert_page_id (hf h1)) < page_total h1" using heap_okD(6) [OF ok1 h1(3)] by simp
  then obtain pg where pg: "heap_page h1 (insert_page_id (hf h1)) = Some pg" using heap_page_defined [OF ok1] by blast
  have size: "\<not> length (serialize_tuple r) + slot_entry_size + header_size > kPageSize"
    using r by (simp add: storable_def)
  show ?thesis
  proof (cases "length (serialize_tuple r) + 4 \<le> get_free_space pg")
    case True
    obtain h' slot where h': "insert_into_page (insert_page_id (hf h1)) (serialize_tuple r) h1 =
        (Inr \<lparr>ip_page = insert_page_id (hf h1), ip_slot = slot\<rparr>, h')" "keeps h1 h'" "page_total h' = page_total h1"
      "heap_tuples h1 \<lparr>ip_page = insert_page_id (hf h1), ip_slot = slot\<rparr> = None"
      "heap_tuples h' = (heap_tuples h1)(\<lparr>ip_page = insert_page_id (hf h1), ip_slot = slot\<rparr> \<mapsto> serialize_tuple r)"
      using insert_into_page_fits [OF ok1 pg r True] by blast
    then show ?thesis using h1 size keeps_trans [OF h1(2) h'(2)]
      by (auto simp: insert_row_def Let_def bindM_def catchM_def)
  next
    case False
    obtain h2 m where h2: "insert_into_page (insert_page_id (hf h1)) (serialize_tuple r) h1 = (Inl (StorageException m), h2)"
      "keeps h1 h2" "hf h2 = hf h1" "page_total h2 = page_total h1" "heap_page h2 = heap_page h1"
      using insert_into_page_full [OF ok1 pg r False] by blast
    have "heap_ok h2" "Suc (page_total h2) < 2 ^ 32" "has_insert_page (hf h2)"
      using h2(2-4) h1(3,5) few by (simp_all add: keeps_def)
    from insert_after_grow [OF this(1,2) r this(3)] obtain h' ptr where h': "bindM allocate_and_init_page (\<lambda>page_id.
        bindM (modifyM (\<lambda>h. h\<lparr>hf := (hf h)\<lparr>insert_page_id := page_id\<rparr>\<rparr>)) (\<lambda>_. insert_into_page page_id (serialize_tuple r))) h2 =
      (Inr ptr, h')" "keeps h2 h'" "page_total h' = Suc (page_total h2)" "heap_tuples h2 ptr = None" "heap_tuples h' = (heap_tuples h2)(ptr \<mapsto> serialize_tuple r)"
      by blast
    have "heap_tuples h2 = heap_tuples h" using h2(5) h1(4) by (simp add: heap_tuples_def fun_eq_iff)
    moreover have "keeps h h'" using keeps_trans [OF keeps_trans [OF h1(2) h2(2)] h'(2)] .
    moreover have "insert_row r h = (Inr ptr, h')"
      using h1(1) h2(1) h'(1) size by (simp add: insert_row_def Let_def bindM_def [of ensure_initialized] catchM_def)
    ultimately show ?thesis using h'(3-5) h2(4) h1(5) by auto
  qed
qed

lemma insert_row_too_big:
  "\<not> storable r \<Longrightarrow> insert_row r h = (Inl (StorageException ''Row does not fit in a single page''), h)"
  by (simp add: insert_row_def storable_def throw_def)

context page_cache
begin

lemma read_pinned_outcome:
  assumes "quiet s" and "contents s f p = Some pg"
  shows "\<exists>s'. read_pinned pin_op unpin_op get f p body s = (body pg, s') \<and> quiet s' \<and>
    contents s' = contents s \<and> shape s' = shape s"
proof -
  obtain r s1 where 1: "pin_op f p s = (Inr r, s1)" "holding s1 r f p" "get s1 r = pg" "contents s1 = contents s"
    "shape s1 = shape s"
    using pin_present [OF assms(1,2)] by blast
  obtain s2 where 2: "unpin_op f p False s1 = (Inr (), s2)" "quiet s2" "contents s2 = contents s1" "shape s2 = shape s1"
    using release_unchanged [OF 1(2), of False] by blast
  have "read_pinned pin_op unpin_op get f p body s = (body pg, s2)"
    using 1(1,3) 2(1) by (cases "body pg") (simp_all add: read_pinned_def bindM_def catchM_def ret_def throw_def)
  then show ?thesis using 1 2 by simp
qed

lemma read_pinned_absent:
  assumes "quiet s" and "contents s f p = None"
  shows "\<exists>m s'. read_pinned pin_op unpin_op get f p body s = (Inl (StorageException m), s') \<and> quiet s' \<and>
    contents s' = contents s \<and> shape s' = shape s"
  using pin_absent [OF assms] by (fastforce simp: read_pinned_def bindM_def)

end

lemma keeps_tuples_same:
  assumes ok: "heap_ok h" and s: "idle s" "current s = current (pool h)" "layout s = layout (pool h)"
  shows "keeps h (h\<lparr>pool := s\<rparr>)" "heap_tuples (h\<lparr>pool := s\<rparr>) = heap_tuples h"
  using keeps_same [OF ok s] by (simp_all add: heap_tuples_def fun_eq_iff)

lemma get_row_ok:
  assumes ok: "heap_ok h"
  shows "\<exists>m h'. get_row ptr h =
      (case heap_tuples h ptr of None \<Rightarrow> Inl (StorageException m) | Some b \<Rightarrow> deserialize_tuple b (column_types (hf h)), h') \<and>
    keeps h h' \<and> heap_tuples h' = heap_tuples h"
proof (cases "heap_page h (ip_page ptr)")
  case None
  then obtain m s where s: "read_pinned pin unpin frame_page (hf_file_id (hf h)) (ip_page ptr)
      (\<lambda>pg. read_tuple pg (ip_slot ptr)) (pool h) = (Inl (StorageException m), s)" "idle s" "current s = current (pool h)"
    "layout s = layout (pool h)"
    using bp.read_pinned_absent [OF heap_okD(1) [OF ok], of "hf_file_id (hf h)" "ip_page ptr"
        "\<lambda>pg. read_tuple pg (ip_slot ptr)"] by (auto simp: heap_page_def)
  then have "get_row ptr h = (Inl (StorageException m), h\<lparr>pool := s\<rparr>)"
    by (simp add: get_row_def bindM_def on_pool_def)
  then show ?thesis using None keeps_tuples_same [OF ok s(2-4)] by (auto simp: heap_tuples_def)
next
  case (Some pg)
  have rd: "read_tuple pg (ip_slot ptr) = Inr (heap_tuples h ptr)"
    using pg.rd_view [OF heap_okD(7) [OF ok Some]] Some by (simp add: heap_tuples_def page_tuple_def)
  then obtain s where s: "read_pinned pin unpin frame_page (hf_file_id (hf h)) (ip_page ptr)
      (\<lambda>pg. read_tuple pg (ip_slot ptr)) (pool h) = (Inr (heap_tuples h ptr), s)" "idle s" "current s = current (pool h)"
    "layout s = layout (pool h)"
    using bp.read_pinned_outcome [OF heap_okD(1) [OF ok], of "hf_file_id (hf h)" "ip_page ptr" pg
        "\<lambda>pg. read_tuple pg (ip_slot ptr)"] Some by (auto simp: heap_page_def)
  then have "get_row ptr h = (case heap_tuples h ptr of None \<Rightarrow> Inl (StorageException ''Tuple slot is empty'')
      | Some b \<Rightarrow> deserialize_tuple b (column_types (hf h)), h\<lparr>pool := s\<rparr>)"
    by (simp add: get_row_def bindM_def on_pool_def throw_def liftR_def split: option.splits)
  then show ?thesis using keeps_tuples_same [OF ok s(2-4)] by auto
qed

lemma page_tuple_update:
  assumes "page_view pg' = (page_view pg)[unat slot := v]" and "unat slot < length (page_view pg)"
  shows "page_tuple pg' i = (if i = slot then v else page_tuple pg i)"
  using assms by (auto simp: page_tuple_def nth_list_update word_unat_eq_iff simp del: length_page_view)

lemma heap_tuples_slot_update:
  assumes p: "heap_page h (ip_page ptr) = Some pg" and h': "heap_page h' = (heap_page h)(ip_page ptr \<mapsto> pg')"
    and v: "page_view pg' = (page_view pg)[unat (ip_slot ptr) := v]" "unat (ip_slot ptr) < length (page_view pg)"
  shows "heap_tuples h' = (heap_tuples h)(ptr := v)"
proof
  fix q
  show "heap_tuples h' q = ((heap_tuples h)(ptr := v)) q"
    using heap_tuples_page_update [OF h', of q] page_tuple_update [OF v, of "ip_slot q"] p
    by (cases ptr; cases q) (auto simp: heap_tuples_def)
qed

lemma delete_slot_ok:
  assumes ok: "heap_ok h" and slot: "has_slot h ptr"
  shows "\<exists>h'. delete_slot ptr h = (Inr (), h') \<and> keeps h h' \<and> hf h' = hf h \<and> page_total h' = page_total h \<and>
    heap_tuples h' = (heap_tuples h)(ptr := None)"
proof -
  obtain pg where pg: "heap_page h (ip_page ptr) = Some pg" "unat (ip_slot ptr) < length (page_view pg)"
    using slot by (auto simp: has_slot_def split: option.splits)
  obtain pg' where pg': "delete_tuple pg (ip_slot ptr) = Inr pg'" "wf_page pg'" "page_view pg' = (page_view pg)[unat (ip_slot ptr) := None]"
    using pg.del_view [OF heap_okD(7) [OF ok pg(1)] pg(2)] by blast
  let ?b = "\<lambda>pg. bindR (delete_tuple pg (ip_slot ptr)) (\<lambda>pg'. Inr ((), pg'))"
  have "?b pg = Inr ((), pg')" using pg'(1) by simp
  from with_page_returns [of h _ pg ?b, OF ok pg(1) this pg'(2), of "\<lambda>_. True"]
  obtain h' where "delete_slot ptr h = (Inr (), h')" "keeps h h'" "hf h' = hf h" "page_total h' = page_total h"
    and pages: "heap_page h' = (heap_page h)(ip_page ptr \<mapsto> pg')"
    by (auto simp: delete_slot_def)
  moreover have "heap_tuples h' = (heap_tuples h)(ptr := None)"
    by (rule heap_tuples_slot_update [OF pg(1) pages pg'(3) pg(2)])
  ultimately show ?thesis by auto
qed

lemma delete_slot_bad:
  assumes ok: "heap_ok h" and slot: "\<not> has_slot h ptr"
  shows "\<exists>m h'. delete_slot ptr h = (Inl (StorageException m), h') \<and> keeps h h' \<and> hf h' = hf h \<and> heap_tuples h' = heap_tuples h"
proof (cases "heap_page h (ip_page ptr)")
  case None
  then show ?thesis using with_page_absent [OF ok None]
    unfolding delete_slot_def heap_tuples_def by (metis (no_types, lifting))
next
  case (Some pg)
  let ?b = "\<lambda>pg. bindR (delete_tuple pg (ip_slot ptr)) (\<lambda>pg'. Inr ((), pg'))"
  have "?b pg = Inl (StorageException ''Invalid slot index'')"
    using pg.del_bad [OF heap_okD(7) [OF ok Some], of "ip_slot ptr"] slot Some by (simp add: has_slot_def)
  from with_page_throws [of h _ pg ?b, OF ok Some this, of "\<lambda>_. True"] show ?thesis
    by (auto simp: delete_slot_def heap_tuples_def fun_eq_iff)
qed

lemma update_in_place_other_size:
  assumes wf: "wf_page pg" and old: "page_tuple pg i = Some old" and len: "length old \<noteq> unat len"
  shows "update_tuple_in_place pg i (Some t) len = Inr (False, pg)"
proof -
  have i: "unat i < num_slots pg" and v: "slot_view pg (unat i) = Some old"
    using old by (auto simp: page_tuple_def page_view_def split: if_splits)
  have "get16 pg (dir_pos (unat i) + 2) \<noteq> len"
    using slot_view_bounds(3) [OF wf i v] len by (auto simp: slot_len_def)
  then show ?thesis
    using i v by (simp add: update_tuple_in_place_def is_slot_live_conv [OF wf] slot_at_conv [OF wf])
qed

lemma live_pointer:
  assumes "heap_tuples h ptr = Some old"
  obtains pg where "heap_page h (ip_page ptr) = Some pg" "page_tuple pg (ip_slot ptr) = Some old"
    "unat (ip_slot ptr) < length (page_view pg)" "page_view pg ! unat (ip_slot ptr) = Some old" "has_slot h ptr"
  using assms by (auto simp: heap_tuples_def page_tuple_def has_slot_def split: option.splits if_splits)

lemma update_row_same_size:
  assumes ok: "heap_ok h" and old: "heap_tuples h ptr = Some old" and r: "storable r"
    and same: "length old = length (serialize_tuple r)"
  shows "\<exists>h'. update_row ptr r h = (Inr ptr, h') \<and> keeps h h' \<and> heap_tuples h' = (heap_tuples h)(ptr \<mapsto> serialize_tuple r)"
proof -
  let ?bs = "serialize_tuple r"
  let ?b = "\<lambda>pg. update_tuple_in_place pg (ip_slot ptr) (Some ?bs) (of_nat (length ?bs))"
  obtain pg where pg: "heap_page h (ip_page ptr) = Some pg" "page_tuple pg (ip_slot ptr) = Some old"
    "unat (ip_slot ptr) < length (page_view pg)" "page_view pg ! unat (ip_slot ptr) = Some old" "has_slot h ptr"
    by (rule live_pointer [OF old])
  note sz = storable_size [OF r] and wf = heap_okD(7) [OF ok pg(1)]
  obtain pg' where pg': "?b pg = Inr (True, pg')" "wf_page pg'" "page_view pg' = (page_view pg)[unat (ip_slot ptr) := Some ?bs]"
    using pg.upd_view [OF wf sz(1) [symmetric] sz(2) pg(3,4) same] by blast
  from with_page_returns [of h _ pg ?b, OF ok pg(1) pg'(1,2), of "\<lambda>x. x"]
  obtain h' where h': "with_page (hf_file_id (hf h)) (ip_page ptr) ?b (\<lambda>x. x) h = (Inr True, h')" "keeps h h'"
    and pages: "heap_page h' = (heap_page h)(ip_page ptr \<mapsto> pg')"
    by auto
  have "heap_tuples h' = (heap_tuples h)(ptr \<mapsto> ?bs)" by (rule heap_tuples_slot_update [OF pg(1) pages pg'(3) pg(3)])
  then show ?thesis using h' by (auto simp: update_row_def Let_def bindM_def ret_def)
qed

lemma update_row_moves:
  assumes ok: "heap_ok h" and old: "heap_tuples h ptr = Some old"
    and diff: "length old \<noteq> unat (of_nat (length (serialize_tuple r)) :: u16)"
  shows "\<exists>h'. update_row ptr r h = insert_row r h' \<and> keeps h h' \<and> page_total h' = page_total h \<and>
    heap_tuples h' = (heap_tuples h)(ptr := None)"
proof -
  let ?bs = "serialize_tuple r"
  let ?b = "\<lambda>pg. update_tuple_in_place pg (ip_slot ptr) (Some ?bs) (of_nat (length ?bs))"
  obtain pg where pg: "heap_page h (ip_page ptr) = Some pg" "page_tuple pg (ip_slot ptr) = Some old"
    "unat (ip_slot ptr) < length (page_view pg)" "page_view pg ! unat (ip_slot ptr) = Some old" "has_slot h ptr"
    by (rule live_pointer [OF old])
  note wf = heap_okD(7) [OF ok pg(1)]
  have miss: "?b pg = Inr (False, pg)" by (rule update_in_place_other_size [OF wf pg(2) diff])
  from with_page_returns [of h _ pg ?b, OF ok pg(1) miss wf, of "\<lambda>x. x"]
  obtain h1 where h1: "with_page (hf_file_id (hf h)) (ip_page ptr) ?b (\<lambda>x. x) h = (Inr False, h1)" "keeps h h1"
    "page_total h1 = page_total h" and pages: "heap_page h1 = heap_page h"
    using pg(1) by (auto simp: fun_upd_idem)
  have ok1: "heap_ok h1" using h1(2) by (simp add: keeps_def)
  have slot: "has_slot h1 ptr" and tup: "heap_tuples h1 = heap_tuples h"
    using pg(5) pages by (simp_all add: has_slot_def heap_tuples_def fun_eq_iff)
  obtain h2 where h2: "delete_slot ptr h1 = (Inr (), h2)" "keeps h1 h2" "page_total h2 = page_total h1"
    "heap_tuples h2 = (heap_tuples h1)(ptr := None)"
    using delete_slot_ok [OF ok1 slot] by blast
  have "update_row ptr r h = insert_row r h2"
    using h1(1) h2(1) by (simp add: update_row_def Let_def bindM_def)
  then show ?thesis using keeps_trans [OF h1(2) h2(2)] h2 h1(3) tup by auto
qed

lemma update_row_ok:
  assumes ok: "heap_ok h" and few: "page_total h + 2 < 2 ^ 32" and old: "heap_tuples h ptr = Some old" and r: "storable r"
  shows "\<exists>ptr' h'. update_row ptr r h = (Inr ptr', h') \<and> keeps h h' \<and> (ptr' = ptr \<or> heap_tuples h ptr' = None) \<and>
    heap_tuples h' = (heap_tuples h)(ptr := None, ptr' \<mapsto> serialize_tuple r)"
proof (cases "length old = length (serialize_tuple r)")
  case True
  then show ?thesis using update_row_same_size [OF ok old r True] by auto
next
  case False
  then obtain h1 where h1: "update_row ptr r h = insert_row r h1" "keeps h h1" "page_total h1 = page_total h"
    "heap_tuples h1 = (heap_tuples h)(ptr := None)"
    using update_row_moves [OF ok old, of r] storable_size(1) [OF r] by auto
  have "heap_ok h1" using h1(2) by (simp add: keeps_def)
  from insert_row_ok [OF this _ r] obtain h' ptr' where h': "insert_row r h1 = (Inr ptr', h')" "keeps h1 h'"
    "heap_tuples h1 ptr' = None" "heap_tuples h' = (heap_tuples h1)(ptr' \<mapsto> serialize_tuple r)"
    using few h1(3) by auto
  then show ?thesis using h1 keeps_trans [OF h1(2) h'(2)] by (auto split: if_splits)
qed

lemma bindR_assoc: "bindR (bindR m f) g = bindR m (\<lambda>x. bindR (f x) g)"
  by (simp add: bindR_def split: sum.splits)

lemma fold_result_append: "fold_result f (xs @ ys) acc = bindR (fold_result f xs acc) (fold_result f ys)"
proof (induction xs arbitrary: acc)
  case (Cons x xs)
  then have "fold_result f (xs @ ys) = (\<lambda>acc. bindR (fold_result f xs acc) (fold_result f ys))" by (intro ext)
  then show ?case by (simp add: bindR_assoc)
qed simp

lemma scan_slots_conv:
  assumes wf: "wf_page pg"
  shows "set ns \<subseteq> {..<length (page_view pg)} \<Longrightarrow>
    scan_slots pg p types visitor ns acc = fold_result (visit types visitor) (page_entries p pg ns) acc"
proof (induction ns arbitrary: acc)
  case Nil
  then show ?case by (simp add: page_entries_def)
next
  case (Cons n ns)
  let ?slot = "of_nat n :: u16"
  have n: "unat ?slot = n" "n < length (page_view pg)" using Cons.prems pg.view_small [OF wf] by (auto simp: unat_of_nat)
  have rd: "read_tuple pg ?slot = Inr (page_tuple pg ?slot)" using pg.rd_view [OF wf] by (simp add: page_tuple_def)
  have live: "is_slot_live pg ?slot = Inr (page_tuple pg ?slot \<noteq> None)"
    using n is_slot_live_conv [OF wf, of ?slot] by (simp add: page_tuple_def page_view_def)
  have rest: "scan_slots pg p types visitor ns = fold_result (visit types visitor) (page_entries p pg ns)"
    using Cons by (intro ext) auto
  have v: "visit types visitor (q, b) acc = bindR (deserialize_tuple b types) (\<lambda>r. visitor q r acc)" for q b acc
    by (simp add: visit_def)
  have cons: "page_entries p pg (n # ns) = (case page_tuple pg ?slot of None \<Rightarrow> []
      | Some b \<Rightarrow> [(\<lparr>ip_page = p, ip_slot = ?slot\<rparr>, b)]) @ page_entries p pg ns"
    by (simp add: page_entries_def)
  show ?case
    using rd live rest cons by (cases "page_tuple pg ?slot") (simp_all add: Let_def v bindR_assoc)
qed

lemma scan_page_ok:
  assumes ok: "heap_ok h" and pg: "heap_page h p = Some pg"
  shows "\<exists>h'. scan_page visitor p acc h =
      (fold_result (visit (column_types (hf h)) visitor) (page_entries p pg [0..<length (page_view pg)]) acc, h') \<and>
    keeps h h' \<and> hf h' = hf h \<and> heap_page h' = heap_page h \<and> page_total h' = page_total h"
proof -
  let ?b = "\<lambda>pg. bindR (scan_slots pg p (column_types (hf h)) visitor [0..<unat (get_slot_count pg)] acc) (\<lambda>acc'. Inr (acc', pg))"
  let ?R = "fold_result (visit (column_types (hf h)) visitor) (page_entries p pg [0..<length (page_view pg)]) acc"
  note wf = heap_okD(7) [OF ok pg]
  have b: "?b pg = bindR ?R (\<lambda>acc'. Inr (acc', pg))"
    using scan_slots_conv [OF wf, of "[0..<length (page_view pg)]" p "column_types (hf h)" visitor acc] by (simp add: lessThan_atLeast0 num_slots_def)
  show ?thesis
  proof (cases ?R)
    case (Inl e)
    then have "?b pg = Inl e" using b by simp
    from with_page_throws [of h p pg ?b, OF ok pg this, of "\<lambda>_. False"] show ?thesis using Inl by (simp add: scan_page_def)
  next
    case (Inr a)
    then have "?b pg = Inr (a, pg)" using b by simp
    from with_page_returns [of h p pg ?b, OF ok pg this wf, of "\<lambda>_. False"] show ?thesis
      using Inr pg by (auto simp: scan_page_def fun_upd_idem)
  qed
qed

lemma scan_pages_ok:
  assumes "heap_ok h" and "set ps \<subseteq> {..<page_total h}"
  shows "\<exists>h'. scan_pages visitor ps acc h =
      (fold_result (visit (column_types (hf h)) visitor) (heap_entries h ps) acc, h') \<and>
    keeps h h' \<and> heap_page h' = heap_page h"
  using assms
proof (induction ps arbitrary: acc h)
  case Nil
  then show ?case by (simp add: heap_entries_def ret_def keeps_refl)
next
  case (Cons p ps)
  have "unat (of_nat p :: page_id) = p" using Cons.prems heap_okD(4) [OF Cons.prems(1)] by (simp add: unat_of_nat)
  then obtain pg where pg: "heap_page h (of_nat p) = Some pg"
    using heap_page_defined [OF Cons.prems(1), of "of_nat p"] Cons.prems(2) by auto
  let ?V = "visit (column_types (hf h)) visitor"
  obtain h1 where h1: "scan_page visitor (of_nat p) acc h =
      (fold_result ?V (page_entries (of_nat p) pg [0..<length (page_view pg)]) acc, h1)"
    "keeps h h1" "hf h1 = hf h" "heap_page h1 = heap_page h" "page_total h1 = page_total h"
    using scan_page_ok [OF Cons.prems(1) pg, of visitor acc] by blast
  have same: "heap_entries h1 ps = heap_entries h ps" using h1(4) by (simp add: heap_entries_def)
  have ent: "heap_entries h (p # ps) = page_entries (of_nat p) pg [0..<length (page_view pg)] @ heap_entries h ps"
    using pg by (simp add: heap_entries_def)
  show ?case
  proof (cases "fold_result ?V (page_entries (of_nat p) pg [0..<length (page_view pg)]) acc")
    case (Inl e)
    then have "scan_pages visitor (p # ps) acc h = (Inl e, h1)" using h1(1) by (simp add: bindM_def)
    moreover have "fold_result ?V (heap_entries h (p # ps)) acc = Inl e" unfolding ent fold_result_append Inl by simp
    ultimately show ?thesis using h1(2,4) by auto
  next
    case (Inr a)
    have ok1: "heap_ok h1" using h1(2) by (simp add: keeps_def)
    have "set ps \<subseteq> {..<page_total h1}" unfolding h1(5) using Cons.prems(2) by simp
    from Cons.IH [OF ok1 this, of a] obtain h2 where h2: "scan_pages visitor ps a h1 = (fold_result ?V (heap_entries h1 ps) a, h2)"
      "keeps h1 h2" "heap_page h2 = heap_page h1" unfolding h1(3) by blast
    have "keeps h h2" using keeps_trans [OF h1(2) h2(2)] .
    moreover have "scan_pages visitor (p # ps) acc h = scan_pages visitor ps a h1"
      using h1(1) Inr by (simp add: bindM_def)
    moreover have "fold_result ?V (heap_entries h (p # ps)) acc = fold_result ?V (heap_entries h1 ps) a"
      unfolding ent fold_result_append Inr same by simp
    ultimately show ?thesis using h1(4) h2(1,3) by auto
  qed
qed

lemma scan_ok:
  assumes ok: "heap_ok h"
  shows "\<exists>h'. scan visitor acc h =
      (fold_result (visit (column_types (hf h)) visitor) (heap_entries h [0..<page_total h]) acc, h') \<and>
    keeps h h' \<and> heap_tuples h' = heap_tuples h"
proof -
  obtain d where d: "disks (pool h) (hf_store (hf h)) = Some d" "page_total h = length d" using heap_store [OF ok] .
  have n: "unat (of_nat (page_total h) :: u32) = page_total h" using heap_okD(4) [OF ok] by (simp add: unat_of_nat)
  have "scan visitor acc h = scan_pages visitor [0..<page_total h] acc h"
    using d n by (simp add: scan_def bindM_def on_pool_def disk_page_count_def store_page_count_def)
  then show ?thesis
    using scan_pages_ok [OF ok, of "[0..<page_total h]" visitor acc] by (auto simp: lessThan_atLeast0 heap_tuples_def fun_eq_iff)
qed

lemma page_entries_mem:
  assumes "length (page_view pg) \<le> 2 ^ 16"
  shows "(ptr, b) \<in> set (page_entries p pg [0..<length (page_view pg)]) \<longleftrightarrow> ip_page ptr = p \<and> page_tuple pg (ip_slot ptr) = Some b"
proof
  assume "(ptr, b) \<in> set (page_entries p pg [0..<length (page_view pg)])"
  then show "ip_page ptr = p \<and> page_tuple pg (ip_slot ptr) = Some b"
    by (auto simp: page_entries_def split: option.splits)
next
  assume r: "ip_page ptr = p \<and> page_tuple pg (ip_slot ptr) = Some b"
  then have "unat (ip_slot ptr) \<in> set [0..<length (page_view pg)]" by (auto simp: page_tuple_def split: if_splits)
  moreover have "(of_nat (unat (ip_slot ptr)) :: u16) = ip_slot ptr" by simp
  ultimately show "(ptr, b) \<in> set (page_entries p pg [0..<length (page_view pg)])"
    using r unfolding page_entries_def set_concat by (cases ptr) force
qed

lemma heap_entries_mem:
  assumes ok: "heap_ok h"
  shows "(ptr, b) \<in> set (heap_entries h [0..<page_total h]) \<longleftrightarrow> heap_tuples h ptr = Some b"
proof
  assume "(ptr, b) \<in> set (heap_entries h [0..<page_total h])"
  then obtain n pg where n: "heap_page h (of_nat n) = Some pg" "(ptr, b) \<in> set (page_entries (of_nat n) pg [0..<length (page_view pg)])"
    by (auto simp: heap_entries_def split: option.splits) metis
  then show "heap_tuples h ptr = Some b"
    using page_entries_mem [OF less_imp_le [OF pg.view_small [OF heap_okD(7) [OF ok n(1)]]]] by (auto simp: heap_tuples_def)
next
  assume "heap_tuples h ptr = Some b"
  then obtain pg where pg: "heap_page h (ip_page ptr) = Some pg" "page_tuple pg (ip_slot ptr) = Some b"
    by (auto simp: heap_tuples_def split: option.splits)
  then have "unat (ip_page ptr) \<in> set [0..<page_total h]" using heap_page_defined [OF ok, of "ip_page ptr"] by simp
  moreover have "(of_nat (unat (ip_page ptr)) :: page_id) = ip_page ptr" by simp
  moreover have "(ptr, b) \<in> set (page_entries (ip_page ptr) pg [0..<length (page_view pg)])"
    using page_entries_mem [OF less_imp_le [OF pg.view_small [OF heap_okD(7) [OF ok pg(1)]]]] pg(2) by simp
  ultimately show "(ptr, b) \<in> set (heap_entries h [0..<page_total h])"
    using pg(1) unfolding heap_entries_def set_concat by force
qed

lemma distinct_concat_keyed:
  assumes "distinct ns" and "\<And>n. n \<in> set ns \<Longrightarrow> distinct (map fst (F n))"
    and "\<And>n q. n \<in> set ns \<Longrightarrow> q \<in> fst ` set (F n) \<Longrightarrow> key q = n"
  shows "distinct (map fst (concat (map F ns)))"
  using assms
proof (induction ns)
  case (Cons n ns)
  have "distinct (map fst (concat (map F ns)))" using Cons by simp
  moreover have "q \<notin> fst ` set (concat (map F ns))" if "q \<in> fst ` set (F n)" for q
  proof
    assume "q \<in> fst ` set (concat (map F ns))"
    then obtain m where "m \<in> set ns" "q \<in> fst ` set (F m)" by auto
    then have "key q = m" using Cons.prems(3) by simp
    moreover have "key q = n" using Cons.prems(3) that by simp
    ultimately show False using \<open>m \<in> set ns\<close> Cons.prems(1) by simp
  qed
  ultimately show ?case using Cons.prems(2) [of n] by (simp add: disjoint_iff)
qed simp

lemma distinct_page_entries:
  assumes "length (page_view pg) \<le> 2 ^ 16"
  shows "distinct (map fst (page_entries p pg [0..<length (page_view pg)]))"
  unfolding page_entries_def
  by (rule distinct_concat_keyed [where key = "\<lambda>q. unat (ip_slot q)"])
    (use assms in \<open>auto simp: unat_of_nat split: option.splits\<close>)

lemma distinct_heap_entries:
  assumes ok: "heap_ok h"
  shows "distinct (map fst (heap_entries h [0..<page_total h]))"
  unfolding heap_entries_def
proof (rule distinct_concat_keyed [where key = "\<lambda>q. unat (ip_page q)"])
  fix n assume n: "n \<in> set [0..<page_total h]"
  have "distinct (map fst (page_entries (of_nat n) pg [0..<length (page_view pg)]))" if "heap_page h (of_nat n) = Some pg" for pg
    by (rule distinct_page_entries [OF less_imp_le [OF pg.view_small [OF heap_okD(7) [OF ok that]]]])
  then show "distinct (map fst (case heap_page h (of_nat n) of None \<Rightarrow> [] | Some pg \<Rightarrow> page_entries (of_nat n) pg [0..<length (page_view pg)]))"
    by (simp split: option.splits)
  have n2: "unat (of_nat n :: page_id) = n" using n heap_okD(4) [OF ok] by (simp add: unat_of_nat)
  fix q assume "q \<in> fst ` set (case heap_page h (of_nat n) of None \<Rightarrow> [] | Some pg \<Rightarrow> page_entries (of_nat n) pg [0..<length (page_view pg)])"
  then have "ip_page q = of_nat n" by (auto simp: page_entries_def split: option.splits)
  then show "unat (ip_page q) = n" using n2 by simp
qed simp

lemma push_pages_ok:
  "\<forall>p \<in> set ps. length p = kPageSize \<Longrightarrow> push_pages ps acc = (Inr (), acc @ ps)"
  by (induction ps arbitrary: acc) auto

lemma detached_store_ok:
  fixes d
  assumes ok: "pool_ok s" and free: "\<forall>g. stores s g \<noteq> Some r"
  defines "s' \<equiv> s\<lparr>disks := (disks s)(r \<mapsto> d)\<rparr>"
  shows "pool_ok s'" "current s' = current s" "pins s' = pins s"
proof -
  note pk = pool_okD [OF ok]
  have sp: "stored_page s' g p = stored_page s g p" for g p
    using free by (auto simp: s'_def stored_page_def stored_def split: option.splits)
  have "table_ok s'" using pk(4) by (simp add: table_ok_def s'_def)
  moreover have "stores_ok s'" using pk(3) free by (simp add: stores_ok_def s'_def)
  moreover have "frame_ok s' (frames s' ! j)" if "j < length (frames s')" for j
    using pk(1) pk(5) [of j] sp that by (auto simp: frame_ok_def s'_def)
  ultimately show "pool_ok s'" using pk(1,2) by (simp add: pool_ok_def s'_def)
  show "current s' = current s" using sp by (auto simp: current_def s'_def fun_eq_iff split: option.splits)
  show "pins s' = pins s" by (auto simp: pins_def s'_def fun_eq_iff split: option.splits)
qed

lemma replace_pages_ok:
  assumes ok: "heap_ok h" and wf: "\<forall>pg \<in> set pages. wf_page pg" and few: "length pages < 2 ^ 32"
  shows "\<exists>h'. replace_pages pages h = (Inr (), h') \<and> keeps h h' \<and> page_total h' = length pages \<and>
    (\<forall>p. heap_page h' p = (if unat p < length pages then Some (pages ! unat p) else None))"
proof -
  let ?f = "hf_file_id (hf h)" let ?r = "hf_store (hf h)" let ?s = "pool h"
  have lens: "\<forall>pg \<in> set pages. length pg = kPageSize" using wf wf_pageD(1) by (auto simp: kPageSize_def)
  have idle: "pool_ok ?s" "\<forall>p. pins ?s (?f, p) = 0" "pins ?s = (\<lambda>_. 0)"
    using heap_okD(1) [OF ok] by (simp_all add: idle_def)
  obtain s1 where s1: "unregister_store ?f ?s = (Inr (), s1)" "pool_ok s1" "current s1 = (current ?s)(?f := \<lambda>_. None)"
    "pins s1 = pins ?s" "layout s1 = ((fst (layout ?s))(?f := None), snd (layout ?s))"
    using unregister_store_ok [OF idle(1,2)] by blast
  have st1: "stores s1 = (stores ?s)(?f := None)" using arg_cong [OF s1(5), of fst] by (simp add: layout_def)
  have only: "stores ?s g = Some ?r \<Longrightarrow> g = ?f" for g
    using heap_okD(3) [OF ok] pool_okD(3) [OF idle(1)] by (auto simp: stores_ok_def)
  then have free: "\<forall>g. stores s1 g \<noteq> Some ?r" using st1 by auto
  obtain d where "disks ?s ?r = Some d" using heap_store [OF ok] by blast
  then have "map_option length (disks s1 ?r) = Some (length d)"
    using arg_cong [OF s1(5), of "\<lambda>l. snd l ?r"] by (simp add: layout_def)
  then obtain d1 where d1: "disks s1 ?r = Some d1" by auto
  let ?s2 = "s1\<lparr>disks := (disks s1)(?r \<mapsto> pages)\<rparr>"
  note s2 = detached_store_ok [OF s1(2) free, of pages]
  obtain s3 where s3: "register_store ?f (Some ?r) ?s2 = (Inr (), s3)" "pool_ok s3" "pins s3 = pins ?s2"
    "layout s3 = ((fst (layout ?s2))(?f \<mapsto> ?r), snd (layout ?s2))" "disks s3 = disks ?s2"
    "current s3 = (current ?s2)(?f := \<lambda>p. if unat p < length pages then Some (pages ! unat p) else None)"
    using register_store_ok [OF s2(1), of ?f ?r pages] st1 free lens by auto
  let ?h' = "set_insert_page (if pages = [] then 0 else of_nat (length pages - 1)) (pages \<noteq> []) (h\<lparr>pool := s3\<rparr>)"
  have run: "replace_pages pages h = (Inr (), ?h')"
    using s1(1) d1 s3(1) push_pages_ok [OF lens, of "[]"]
    by (simp add: replace_pages_def bindM_def on_pool_def disk_replace_def store_replace_pages_def modifyM_def)
  have pages: "heap_page ?h' p = (if unat p < length pages then Some (pages ! unat p) else None)" for p
    using s3(6) by (simp add: heap_page_def set_insert_page_def)
  have total: "page_total ?h' = length pages" using s3(5) by (simp add: page_total_def set_insert_page_def)
  have "stores s3 ?f = Some ?r" using arg_cong [OF s3(4), of "\<lambda>l. fst l ?f"] by (simp add: layout_def)
  moreover have "Suc (unat (of_nat (length pages - 1) :: page_id)) = length pages" if "pages \<noteq> []"
  proof -
    have "length pages - 1 < 2 ^ 32" using few by simp
    then show ?thesis using that by (simp add: unat_of_nat)
  qed
  moreover have "wf_page pg" if "heap_page ?h' p = Some pg" for p pg
    using that pages wf by (auto split: if_splits)
  ultimately have "heap_ok ?h'"
    using total few s3(2,3) s2(3) s1(4) idle(3) by (auto simp: heap_ok_def set_insert_page_def idle_def)
  then have "keeps h ?h'" using s3(6) s2(2) s1(3) by (simp add: keeps_def set_insert_page_def)
  then show ?thesis using run total pages by blast
qed

lemma fresh_heap:
  "\<exists>h. heap_ok h \<and> page_total h = 0 \<and> heap_tuples h = Map.empty \<and> column_types (hf h) = types"
proof -
  obtain s where s: "make_buffer_pool 2 [0 \<mapsto> []] = Inr s" "idle s" "stores s = Map.empty" "disks s = [0 \<mapsto> []]"
    "current s = (\<lambda>_ _. None)"
    by (rule make_buffer_pool_idle [of 2 "[0 \<mapsto> []]"]) auto
  obtain s' where s': "register_store 1 (Some 0) s = (Inr (), s')" "pool_ok s'" "pins s' = pins s"
    "layout s' = ((fst (layout s))(1 \<mapsto> 0), snd (layout s))" "disks s' = disks s"
    "current s' = (current s)(1 := \<lambda>p. if unat p < length ([] :: page list) then Some (([] :: page list) ! unat p) else None)"
    using register_store_ok [of s 1 0 "[]"] s by (auto simp: idle_def)
  let ?h = "\<lparr>hf = \<lparr>hf_file_id = 1, hf_store = 0, column_types = types, insert_page_id = 0, has_insert_page = False\<rparr>, pool = s'\<rparr>"
  have st: "stores s' 1 = Some 0" using arg_cong [OF s'(4), of "\<lambda>l. fst l 1"] by (simp add: layout_def)
  have tot: "page_total ?h = 0" using s'(5) s(4) by (simp add: page_total_def)
  have none: "heap_page ?h p = None" for p using s'(6) by (simp add: heap_page_def)
  have "heap_ok ?h" using st tot none s'(2,3) s(2) by (simp add: heap_ok_def idle_def)
  moreover have "heap_tuples ?h = Map.empty" using none by (simp add: heap_tuples_def fun_eq_iff)
  ultimately show ?thesis using tot by (intro exI [of _ ?h]) simp
qed

lemma sample_row_facts:
  "storable sample_row" "wf_row sample_row" "get_column_count sample_row = 1" "length (serialize_tuple sample_row) = 29"
  by (simp_all add: storable_def sample_row_def wf_row_def make_row_def get_column_count_def wf_value_def
      length_serialize_tuple measure_tuple_size_def serialize_value_def kPageSize_def slot_entry_size_def header_size_def)

lemma one_row_heap:
  "\<exists>h ptr. heap_ok h \<and> page_total h \<le> 2 \<and> heap_tuples h = [ptr \<mapsto> serialize_tuple sample_row] \<and>
     column_types (hf h) = [INT_T]"
proof -
  obtain h where h: "heap_ok h" "page_total h = 0" "heap_tuples h = Map.empty" "column_types (hf h) = [INT_T]"
    using fresh_heap by blast
  then show ?thesis using insert_row_ok [OF h(1) _ sample_row_facts(1)] by (auto simp: keeps_def)
qed

lemma fold_collect:
  assumes "\<forall>(ptr, b) \<in> set es. decodes types b \<noteq> None"
  shows "fold_result (visit types collect) es acc = Inr (acc @ map (\<lambda>(ptr, b). (ptr, the (decodes types b))) es)"
  using assms
proof (induction es arbitrary: acc)
  case (Cons e es)
  obtain ptr b where e: "e = (ptr, b)" by fastforce
  obtain r where "deserialize_tuple b types = Inr r"
    using Cons.prems e by (auto simp: decodes_def split: sum.splits)
  then show ?case using Cons e by (simp add: visit_def collect_def decodes_def)
qed simp

lemma get_row_stored:
  assumes "heap_ok h" and "heap_tuples h ptr = Some (serialize_tuple r)" and "wf_row r"
    and "length (column_types (hf h)) = get_column_count r"
  shows "fst (get_row ptr h) = Inr r"
  using get_row_ok [OF assms(1), of ptr] assms(2) deserialize_serialize_tuple [OF assms(3), of "column_types (hf h)"] assms(4)
  by (auto simp: get_column_count_def)

section \<open>Properties\<close>

text \<open>C5: insert\_row of a row that fits a page. It returns an item pointer that held nothing, stores
  the encoded row there and changes no other tuple of the heap and no page of another file, growing the
  heap by a page when the current one is full. The row can be read back through the pointer.\<close>

theorem heap_insert_refines:
  assumes "heap_ok h" and "storable r" and "page_total h + 2 < 2 ^ 32" and "wf_row r"
    and "length (column_types (hf h)) = get_column_count r"
  shows "\<exists>ptr h'. insert_row r h = (Inr ptr, h') \<and> heap_ok h' \<and> heap_tuples h ptr = None \<and>
    heap_tuples h' = (heap_tuples h)(ptr \<mapsto> serialize_tuple r) \<and> fst (get_row ptr h') = Inr r \<and>
    (\<forall>g. g \<noteq> hf_file_id (hf h) \<longrightarrow> current (pool h') g = current (pool h) g)"
proof -
  obtain ptr h' where h': "insert_row r h = (Inr ptr, h')" "keeps h h'" "heap_tuples h ptr = None"
    "heap_tuples h' = (heap_tuples h)(ptr \<mapsto> serialize_tuple r)"
    using insert_row_ok [OF assms(1,3,2)] by blast
  then have "fst (get_row ptr h') = Inr r"
    using assms(5) by (intro get_row_stored [OF _ _ assms(4)]) (simp_all add: keeps_def)
  then show ?thesis using h' by (auto simp: keeps_def)
qed

theorem heap_insert_refines_witness:
  "\<exists>h ptr h'. heap_tuples h = Map.empty \<and> insert_row sample_row h = (Inr ptr, h') \<and>
     heap_tuples h' = [ptr \<mapsto> serialize_tuple sample_row] \<and> fst (get_row ptr h') = Inr sample_row"
proof -
  obtain h where h: "heap_ok h" "page_total h = 0" "heap_tuples h = Map.empty" "column_types (hf h) = [INT_T]"
    using fresh_heap by blast
  then show ?thesis
    using heap_insert_refines [OF h(1) sample_row_facts(1) _ sample_row_facts(2)] sample_row_facts(3) by fastforce
qed

text \<open>C19: update\_row of a live tuple with a row that fits a page: the old tuple is gone, the new one
  is stored under the returned pointer (the same one when the encoded sizes agree, otherwise a free
  one), and nothing else changes.\<close>

theorem heap_update_refines:
  assumes "heap_ok h" and "storable r" and "page_total h + 2 < 2 ^ 32" and "heap_tuples h ptr = Some old"
  shows "\<exists>ptr' h'. update_row ptr r h = (Inr ptr', h') \<and> heap_ok h' \<and>
    (if length old = length (serialize_tuple r) then ptr' = ptr else ptr' = ptr \<or> heap_tuples h ptr' = None) \<and>
    heap_tuples h' = (heap_tuples h)(ptr := None, ptr' \<mapsto> serialize_tuple r) \<and>
    (\<forall>g. g \<noteq> hf_file_id (hf h) \<longrightarrow> current (pool h') g = current (pool h) g)"
  using update_row_ok [OF assms(1,3,4,2)] update_row_same_size [OF assms(1,4,2)]
  by (cases "length old = length (serialize_tuple r)") (auto simp: keeps_def)

theorem heap_update_refines_witness:
  "\<exists>h ptr ptr' h'. heap_tuples h = [ptr \<mapsto> serialize_tuple sample_row] \<and> update_row ptr (make_row [BoolV True]) h = (Inr ptr', h') \<and>
     heap_tuples h' = [ptr' \<mapsto> serialize_tuple (make_row [BoolV True])]"
proof -
  obtain h ptr where h: "heap_ok h" "page_total h \<le> 2" "heap_tuples h = [ptr \<mapsto> serialize_tuple sample_row]"
    using one_row_heap by blast
  have "storable (make_row [BoolV True])"
    by (simp add: storable_def make_row_def length_serialize_tuple measure_tuple_size_def serialize_value_def
        kPageSize_def slot_entry_size_def header_size_def)
  then show ?thesis
    using heap_update_refines [OF h(1), of "make_row [BoolV True]" ptr "serialize_tuple sample_row"] h by fastforce
qed

text \<open>C20: a scan that collects what it visits returns every live tuple of the heap, decoded, exactly
  once, whatever pages are resident or have to be brought in, and leaves the heap as it was.\<close>

theorem heap_scan_complete:
  assumes "heap_ok h" and "\<forall>ptr b. heap_tuples h ptr = Some b \<longrightarrow> decodes (column_types (hf h)) b \<noteq> None"
  shows "\<exists>rs h'. scan collect [] h = (Inr rs, h') \<and> heap_ok h' \<and> heap_tuples h' = heap_tuples h \<and> distinct (map fst rs) \<and>
    (\<forall>ptr r. (ptr, r) \<in> set rs \<longleftrightarrow> (\<exists>b. heap_tuples h ptr = Some b \<and> decodes (column_types (hf h)) b = Some r))"
proof -
  let ?es = "heap_entries h [0..<page_total h]" let ?ts = "column_types (hf h)"
  let ?rs = "map (\<lambda>(ptr, b). (ptr, the (decodes ?ts b))) ?es"
  note mem = heap_entries_mem [OF assms(1)]
  have all: "\<forall>(ptr, b) \<in> set ?es. decodes ?ts b \<noteq> None" using assms(2) mem by auto
  obtain h' where h': "scan collect [] h = (Inr ?rs, h')" "keeps h h'" "heap_tuples h' = heap_tuples h"
    using scan_ok [OF assms(1), of collect "[]"] fold_collect [OF all, of "[]"] by auto
  have eq: "map fst ?rs = map fst ?es" by auto
  have "distinct (map fst ?rs)" unfolding eq by (rule distinct_heap_entries [OF assms(1)])
  moreover have "(ptr, r) \<in> set ?rs \<longleftrightarrow> (\<exists>b. heap_tuples h ptr = Some b \<and> decodes ?ts b = Some r)" for ptr r
    using all by (force simp: mem [symmetric])
  ultimately show ?thesis using h' by (auto simp: keeps_def)
qed

theorem heap_scan_complete_witness:
  "\<exists>h ptr rs h'. heap_tuples h = [ptr \<mapsto> serialize_tuple sample_row] \<and> scan collect [] h = (Inr rs, h') \<and> set rs = {(ptr, sample_row)}"
proof -
  obtain h ptr where h: "heap_ok h" "heap_tuples h = [ptr \<mapsto> serialize_tuple sample_row]" "column_types (hf h) = [INT_T]"
    using one_row_heap by blast
  have d: "decodes [INT_T] (serialize_tuple sample_row) = Some sample_row"
    using deserialize_serialize_tuple [OF sample_row_facts(2), of "[INT_T]"] sample_row_facts(3)
    by (simp add: decodes_def sample_row_def make_row_def)
  have all: "\<forall>p b. heap_tuples h p = Some b \<longrightarrow> decodes (column_types (hf h)) b \<noteq> None" using h(2,3) d by auto
  obtain rs h' where s: "scan collect [] h = (Inr rs, h')"
    "\<forall>p r. (p, r) \<in> set rs \<longleftrightarrow> (\<exists>b. heap_tuples h p = Some b \<and> decodes (column_types (hf h)) b = Some r)"
    using heap_scan_complete [OF h(1) all] by blast
  have "(p, r) \<in> set rs \<longleftrightarrow> p = ptr \<and> r = sample_row" for p r
    using s(2) [rule_format, of p r] h(2,3) d by auto
  then have "set rs = {(ptr, sample_row)}" by auto
  then show ?thesis using h(2) s(1) by blast
qed

text \<open>C21: delete\_slot and the reads after it: a slot of a page of the heap becomes empty and no other
  tuple changes; a pointer to no slot is reported as a storage exception and changes nothing.\<close>

theorem heap_delete_refines:
  assumes "heap_ok h"
  shows "if has_slot h ptr
    then \<exists>m h' h''. delete_slot ptr h = (Inr (), h') \<and> heap_ok h' \<and> heap_tuples h' = (heap_tuples h)(ptr := None) \<and>
      get_row ptr h' = (Inl (StorageException m), h'')
    else \<exists>m h'. delete_slot ptr h = (Inl (StorageException m), h') \<and> heap_ok h' \<and> heap_tuples h' = heap_tuples h"
proof (cases "has_slot h ptr")
  case True
  obtain h' where h': "delete_slot ptr h = (Inr (), h')" "keeps h h'" "heap_tuples h' = (heap_tuples h)(ptr := None)"
    using delete_slot_ok [OF assms True] by blast
  then show ?thesis using True get_row_ok [of h' ptr] by (auto simp: keeps_def)
next
  case False
  then show ?thesis using delete_slot_bad [OF assms False] by (auto simp: keeps_def)
qed

theorem heap_delete_refines_witness:
  "\<exists>h ptr h'. heap_tuples h = [ptr \<mapsto> serialize_tuple sample_row] \<and> delete_slot ptr h = (Inr (), h') \<and> heap_tuples h' = Map.empty"
proof -
  obtain h ptr where h: "heap_ok h" "heap_tuples h = [ptr \<mapsto> serialize_tuple sample_row]" using one_row_heap by blast
  have "heap_tuples h ptr = Some (serialize_tuple sample_row)" using h(2) by simp
  then have "has_slot h ptr" by (rule live_pointer)
  then show ?thesis using heap_delete_refines [OF h(1), of ptr] h(2) by fastforce
qed

text \<open>C39: update\_row deletes the old tuple before it checks that the new one fits: with a new row too
  large for a page (whose size modulo 65536 is not the old size) it throws and the old row is lost.\<close>

theorem heap_update_oversize_loses_row:
  assumes "heap_ok h" and "heap_tuples h ptr = Some old" and "\<not> storable r"
    and "length old \<noteq> length (serialize_tuple r) mod 65536"
  shows "\<exists>h'. update_row ptr r h = (Inl (StorageException ''Row does not fit in a single page''), h') \<and>
    heap_ok h' \<and> heap_tuples h' = (heap_tuples h)(ptr := None)"
  using update_row_moves [OF assms(1,2), of r] insert_row_too_big [OF assms(3)] assms(4)
  by (auto simp: unat_of_nat keeps_def)

theorem heap_update_oversize_loses_row_witness:
  "\<exists>h ptr h' e. heap_tuples h = [ptr \<mapsto> serialize_tuple sample_row] \<and>
     update_row ptr (make_row [StringV (replicate 9000 CHR ''x'')]) h = (Inl e, h') \<and> heap_tuples h' = Map.empty"
proof -
  let ?r = "make_row [StringV (replicate 9000 CHR ''x'')]"
  obtain h ptr where h: "heap_ok h" "heap_tuples h = [ptr \<mapsto> serialize_tuple sample_row]" using one_row_heap by blast
  have len: "length (serialize_tuple ?r) = 9025"
    by (simp add: make_row_def length_serialize_tuple measure_tuple_size_def length_serialize_value)
  have "\<not> storable ?r" unfolding storable_def len by (simp add: kPageSize_def slot_entry_size_def header_size_def)
  then show ?thesis
    using heap_update_oversize_loses_row [OF h(1), of ptr "serialize_tuple sample_row" ?r] h(2) sample_row_facts(4) len by fastforce
qed

end
