(* ===== verification/Mvcc.thy ===== *)
theory Mvcc
  imports Rows "HOL-Library.AList"
begin

text \<open>
  \<open>TransactionManager\<close> of src/src/core/transaction\_manager.cc: transaction ids, commit statuses, read snapshots,
  the visibility test, and the per-version work of \<open>Table::vacuum_versions\<close> and \<open>Table::freeze_committed_versions\<close>.
  The mutex makes every method one atomic step, so histories are sequences of such steps. The visibility test is
  shown to implement snapshot isolation, freezing to preserve every read, and vacuuming to preserve reads under a
  condition the code does not check.
\<close>

section \<open>State\<close>

datatype transaction_status = InProgress | Committed | Aborted

record transaction_snapshot =
  snap_xmax :: u64
  snap_active :: "u64 set"

record transaction_manager =
  next_xid :: u64
  statuses :: "u64 \<rightharpoonup> transaction_status"
  active_xids :: "u64 set"
  active_snapshots :: "(u64 \<times> transaction_snapshot) list"

definition make_transaction_manager :: transaction_manager where
  "make_transaction_manager = \<lparr>next_xid = 1, statuses = Map.empty, active_xids = {}, active_snapshots = []\<rparr>"

section \<open>The methods\<close>

definition beginTransaction :: "transaction_manager \<Rightarrow> u64 \<times> transaction_manager" where
  "beginTransaction tm =
     (let xid = next_xid tm in
      (xid, tm\<lparr>next_xid := next_xid tm + 1, statuses := (statuses tm)(xid \<mapsto> InProgress),
               active_xids := insert xid (active_xids tm)\<rparr>))"

definition captureSnapshot :: "transaction_manager \<Rightarrow> transaction_snapshot" where
  "captureSnapshot tm = \<lparr>snap_xmax = next_xid tm, snap_active = active_xids tm\<rparr>"

definition registerSnapshot :: "u64 \<Rightarrow> transaction_snapshot \<Rightarrow> transaction_manager \<Rightarrow> transaction_manager" where
  "registerSnapshot xid snapshot tm = tm\<lparr>active_snapshots := AList.update xid snapshot (active_snapshots tm)\<rparr>"

definition commitTransaction :: "u64 \<Rightarrow> transaction_manager \<Rightarrow> transaction_manager" where
  "commitTransaction xid tm =
     tm\<lparr>statuses := (statuses tm)(xid \<mapsto> Committed), active_xids := active_xids tm - {xid},
        active_snapshots := AList.delete xid (active_snapshots tm)\<rparr>"

definition abortTransaction :: "u64 \<Rightarrow> transaction_manager \<Rightarrow> transaction_manager" where
  "abortTransaction xid tm =
     tm\<lparr>statuses := (statuses tm)(xid \<mapsto> Aborted), active_xids := active_xids tm - {xid},
        active_snapshots := AList.delete xid (active_snapshots tm)\<rparr>"

definition isCommitted :: "transaction_manager \<Rightarrow> u64 \<Rightarrow> bool" where
  "isCommitted tm xid =
     (if xid = 0 then True
      else case statuses tm xid of None \<Rightarrow> False | Some st \<Rightarrow> st = Committed)"

definition isAborted :: "transaction_manager \<Rightarrow> u64 \<Rightarrow> bool" where
  "isAborted tm xid =
     (if xid = 0 then False
      else case statuses tm xid of None \<Rightarrow> False | Some st \<Rightarrow> st = Aborted)"

definition horizon_step :: "u64 \<times> transaction_snapshot \<Rightarrow> u64 \<Rightarrow> u64" where
  "horizon_step = (\<lambda>(xid, snapshot) horizon. if snap_xmax snapshot < horizon then snap_xmax snapshot else horizon)"

definition getVacuumHorizon :: "transaction_manager \<Rightarrow> u64" where
  "getVacuumHorizon tm =
     (if active_snapshots tm = [] then next_xid tm
      else fold horizon_step (active_snapshots tm) (- 1))"

definition unseen :: "transaction_snapshot \<Rightarrow> u64 \<Rightarrow> bool" where
  "unseen snapshot xid = (snap_xmax snapshot \<le> xid \<or> xid \<in> snap_active snapshot)"

definition canFreezeCommitted :: "transaction_manager \<Rightarrow> u64 \<Rightarrow> bool" where
  "canFreezeCommitted tm xid =
     (if xid = 0 then False
      else list_all (\<lambda>(owner, snapshot). \<not> unseen snapshot xid) (active_snapshots tm))"

definition isVisible ::
    "transaction_manager \<Rightarrow> u64 \<Rightarrow> u64 \<Rightarrow> u64 \<Rightarrow> transaction_snapshot option \<Rightarrow> bool" where
  "isVisible tm xmin xmax reader_xid snapshot =
     (if xmin = 0 then
        (if xmax = 0 then True
         else if xmax = reader_xid then False
         else case snapshot of
                None \<Rightarrow> \<not> isCommitted tm xmax
              | Some s \<Rightarrow> if unseen s xmax then True else \<not> isCommitted tm xmax)
      else if xmin = reader_xid then xmax \<noteq> reader_xid
      else case snapshot of
        None \<Rightarrow>
          (if \<not> isCommitted tm xmin then False
           else if xmax = 0 then True
           else if xmax = reader_xid then False
           else \<not> isCommitted tm xmax)
      | Some s \<Rightarrow>
          (if unseen s xmin then False
           else if \<not> isCommitted tm xmin then False
           else if xmax = 0 then True
           else if xmax = reader_xid then False
           else if unseen s xmax then True
           else \<not> isCommitted tm xmax))"

section \<open>Row versions\<close>

text \<open>The loop bodies of \<open>Table::vacuum_versions\<close> and \<open>Table::freeze_committed_versions\<close>: what becomes of one
  stored version. \<open>None\<close> is a dropped version.\<close>

definition vacuum_version :: "transaction_manager \<Rightarrow> u64 \<Rightarrow> row \<Rightarrow> row option" where
  "vacuum_version tm vacuum_horizon r =
     (if isAborted tm (row_xmin r) then None
      else
        let r' = (if row_xmax r \<noteq> 0 \<and> isAborted tm (row_xmax r) then r\<lparr>row_xmax := 0\<rparr> else r) in
        if row_xmax r' \<noteq> 0 \<and> isCommitted tm (row_xmax r') \<and> row_xmax r' < vacuum_horizon then None
        else Some r')"

definition freeze_version :: "u64 \<Rightarrow> row \<Rightarrow> row option" where
  "freeze_version xid r =
     (if row_xmax r = xid then None
      else if row_xmin r = xid then Some (r\<lparr>row_xmin := 0\<rparr>)
      else Some r)"

definition row_visible :: "transaction_manager \<Rightarrow> u64 \<Rightarrow> transaction_snapshot option \<Rightarrow> row \<Rightarrow> bool" where
  "row_visible tm reader_xid snapshot r = isVisible tm (row_xmin r) (row_xmax r) reader_xid snapshot"

section \<open>Transaction histories\<close>

text \<open>\<open>Database::execute_begin\<close> allocates an id, captures a snapshot that already lists it as active and registers
  it; \<open>execute_commit\<close> and \<open>execute_rollback\<close> end the session's own transaction. Not among the steps is the
  ROLLBACK that may follow a COMMIT whose persist step failed, which aborts an id already committed.\<close>

definition start_transaction :: "transaction_manager \<Rightarrow> (u64 \<times> transaction_snapshot) \<times> transaction_manager" where
  "start_transaction tm =
     (case beginTransaction tm of (xid, tm1) \<Rightarrow>
       (let snapshot = captureSnapshot tm1 in ((xid, snapshot), registerSnapshot xid snapshot tm1)))"

inductive txn_step :: "transaction_manager \<Rightarrow> transaction_manager \<Rightarrow> bool" where
  step_begin: "next_xid tm \<noteq> - 1 \<Longrightarrow> start_transaction tm = (r, tm') \<Longrightarrow> txn_step tm tm'"
| step_commit: "xid \<in> active_xids tm \<Longrightarrow> txn_step tm (commitTransaction xid tm)"
| step_abort: "xid \<in> active_xids tm \<Longrightarrow> txn_step tm (abortTransaction xid tm)"

definition ids_ok :: "transaction_manager \<Rightarrow> bool" where
  "ids_ok tm =
     (next_xid tm \<noteq> 0 \<and> (\<forall>x. statuses tm x \<noteq> None \<longleftrightarrow> 0 < x \<and> x < next_xid tm) \<and>
      active_xids tm = {x. statuses tm x = Some InProgress})"

definition snap_ok :: "transaction_manager \<Rightarrow> u64 \<Rightarrow> transaction_snapshot \<Rightarrow> bool" where
  "snap_ok tm x s =
     (x \<in> active_xids tm \<and> x < snap_xmax s \<and> x \<in> snap_active s \<and> snap_xmax s \<le> next_xid tm \<and>
      (\<forall>y. 0 < y \<and> \<not> unseen s y \<longrightarrow> y \<notin> active_xids tm))"

definition tm_inv :: "transaction_manager \<Rightarrow> bool" where
  "tm_inv tm =
     (ids_ok tm \<and> distinct (map fst (active_snapshots tm)) \<and>
      (\<forall>(x, s) \<in> set (active_snapshots tm). snap_ok tm x s))"

definition decided_below :: "transaction_snapshot \<Rightarrow> transaction_manager \<Rightarrow> bool" where
  "decided_below s tm = (snap_xmax s \<le> next_xid tm \<and>
     (\<forall>y. 0 < y \<and> \<not> unseen s y \<longrightarrow> statuses tm y = Some Committed \<or> statuses tm y = Some Aborted))"

text \<open>Snapshot isolation, stated on the transactions committed when the snapshot was taken.\<close>

definition si_visible :: "(u64 \<Rightarrow> bool) \<Rightarrow> u64 \<Rightarrow> u64 \<Rightarrow> u64 \<Rightarrow> bool" where
  "si_visible committed xmin xmax reader =
     ((xmin = 0 \<or> xmin = reader \<or> committed xmin) \<and>
      \<not> (xmax \<noteq> 0 \<and> (xmax = reader \<or> (xmin \<noteq> reader \<or> xmin = 0) \<and> committed xmax)))"

text \<open>A reader is a session inside a transaction, with its registered snapshot, or an autocommit statement,
  which reads with transaction id 0 and no snapshot. A version is deleted only by its creator or by a
  transaction to which its creator had committed.\<close>

definition reads_as :: "transaction_manager \<Rightarrow> u64 \<Rightarrow> transaction_snapshot option \<Rightarrow> bool" where
  "reads_as tm reader snapshot =
     (case snapshot of None \<Rightarrow> reader = 0 | Some s \<Rightarrow> (reader, s) \<in> set (active_snapshots tm))"

definition version_ok :: "transaction_manager \<Rightarrow> row \<Rightarrow> bool" where
  "version_ok tm r = (row_xmax r = 0 \<or> row_xmin r = row_xmax r \<or> isCommitted tm (row_xmin r))"

text \<open>Two histories used as examples.\<close>

definition sample_tm :: transaction_manager where
  "sample_tm = commitTransaction 1 (snd (start_transaction (snd (start_transaction make_transaction_manager))))"

definition settled_tm :: transaction_manager where
  "settled_tm = snd (start_transaction (commitTransaction 1 (snd (start_transaction make_transaction_manager))))"

section \<open>Histories keep the invariant\<close>

lemmas tm_ops = beginTransaction_def captureSnapshot_def registerSnapshot_def commitTransaction_def abortTransaction_def
  start_transaction_def Let_def

lemma word_below_Suc:
  fixes n :: "'a::len word"
  assumes "n \<noteq> - 1"
  shows "x < n + 1 \<longleftrightarrow> x \<le> n"
proof -
  have "1 + n \<noteq> 0" using assms by (metis add.commute add_eq_0_iff)
  from unatSuc [OF this] show ?thesis by (simp add: word_less_nat_alt word_le_nat_alt add.commute less_Suc_eq_le)
qed

lemma word_Suc_nonzero: "n \<noteq> - 1 \<Longrightarrow> n + 1 \<noteq> 0" for n :: "'a::len word"
  by (metis add_eq_0_iff add.commute)

lemma word_le_Suc: "n \<noteq> - 1 \<Longrightarrow> m \<le> n \<Longrightarrow> m \<le> n + 1" for n :: "'a::len word"
  using word_below_Suc [of n m] by simp

lemma alist_update_fresh: "k \<notin> fst ` set al \<Longrightarrow> AList.update k v al = al @ [(k, v)]"
  by (induction al) auto

lemma tm_inv_init: "tm_inv make_transaction_manager"
proof -
  have "\<not> (0 < x \<and> x < 1)" for x :: u64 using word_less_1 by auto
  then show ?thesis by (simp add: tm_inv_def ids_ok_def make_transaction_manager_def)
qed

lemma ids_ok_start:
  assumes "ids_ok tm" and "next_xid tm \<noteq> - 1"
  shows "ids_ok (snd (start_transaction tm))"
  using assms word_below_Suc [OF assms(2)] word_Suc_nonzero [OF assms(2)]
  by (auto simp: ids_ok_def tm_ops word_neq_0_conv order.order_iff_strict)

lemma tm_inv_start:
  assumes inv: "tm_inv tm" and room: "next_xid tm \<noteq> - 1"
  shows "tm_inv (snd (start_transaction tm))"
proof -
  let ?n = "next_xid tm" let ?snap = "\<lparr>snap_xmax = ?n + 1, snap_active = insert ?n (active_xids tm)\<rparr>"
  have ids: "ids_ok tm" and snaps: "\<And>x s. (x, s) \<in> set (active_snapshots tm) \<Longrightarrow> snap_ok tm x s"
    and dist: "distinct (map fst (active_snapshots tm))" using inv by (auto simp: tm_inv_def)
  have below: "\<And>x. x \<in> active_xids tm \<Longrightarrow> x < ?n" using ids by (auto simp: ids_ok_def)
  have fresh: "?n \<notin> fst ` set (active_snapshots tm)" using snaps below by (fastforce simp: snap_ok_def)
  have eq: "snd (start_transaction tm) = tm\<lparr>next_xid := ?n + 1, statuses := (statuses tm)(?n \<mapsto> InProgress),
      active_xids := insert ?n (active_xids tm), active_snapshots := active_snapshots tm @ [(?n, ?snap)]\<rparr>" (is "_ = ?tm'")
    using fresh by (simp add: tm_ops alist_update_fresh)
  note Suc = word_below_Suc [OF room]
  have "snap_ok ?tm' x s" if "(x, s) \<in> set (active_snapshots tm)" for x s
    using snaps [OF that] word_le_Suc [OF room] by (auto simp: snap_ok_def unseen_def)
  moreover have "snap_ok ?tm' ?n ?snap" using Suc by (auto simp: snap_ok_def unseen_def)
  ultimately show ?thesis
    using ids_ok_start [OF ids room] fresh dist unfolding eq by (auto simp: tm_inv_def)
qed

lemma tm_inv_end:
  assumes inv: "tm_inv tm" and x: "xid \<in> active_xids tm"
  shows "tm_inv (commitTransaction xid tm)" "tm_inv (abortTransaction xid tm)"
proof -
  have ids: "ids_ok tm" and snaps: "\<And>x s. (x, s) \<in> set (active_snapshots tm) \<Longrightarrow> snap_ok tm x s"
    and dist: "distinct (map fst (active_snapshots tm))" using inv by (auto simp: tm_inv_def)
  have xs: "0 < xid" "xid < next_xid tm" using ids x by (auto simp: ids_ok_def)
  have ids': "ids_ok (commitTransaction xid tm)" "ids_ok (abortTransaction xid tm)"
    using ids xs by (auto simp: ids_ok_def tm_ops)
  have d: "distinct (map fst (AList.delete xid (active_snapshots tm)))" using dist by (rule distinct_delete)
  have s: "snap_ok (commitTransaction xid tm) y s" "snap_ok (abortTransaction xid tm) y s"
    if "(y, s) \<in> set (AList.delete xid (active_snapshots tm))" for y s
    using snaps [of y s] that by (auto simp: snap_ok_def tm_ops AList.delete_eq)
  show "tm_inv (commitTransaction xid tm)" "tm_inv (abortTransaction xid tm)"
    using ids' d s by (auto simp: tm_inv_def tm_ops)
qed

lemma tm_inv_step: "txn_step tm tm' \<Longrightarrow> tm_inv tm \<Longrightarrow> tm_inv tm'"
proof (induction rule: txn_step.induct)
  case (step_begin tm r tm')
  then show ?case using tm_inv_start [of tm] by simp
qed (simp_all add: tm_inv_end)

lemma tm_inv_reachable: "txn_step\<^sup>*\<^sup>* tm tm' \<Longrightarrow> tm_inv tm \<Longrightarrow> tm_inv tm'"
  by (induction rule: rtranclp_induct) (auto intro: tm_inv_step)

section \<open>Snapshot isolation\<close>

lemma decided_start:
  assumes "tm_inv tm" and "next_xid tm \<noteq> - 1" and "start_transaction tm = ((xid, s), tm')"
  shows "decided_below s tm'"
    and "0 < x \<and> \<not> unseen s x \<and> statuses tm' x = Some Committed \<longleftrightarrow> statuses tm x = Some Committed"
proof -
  have ids: "ids_ok tm" using assms(1) by (simp add: tm_inv_def)
  then have st: "\<And>y. 0 < y \<Longrightarrow> y < next_xid tm \<Longrightarrow> y \<notin> active_xids tm \<Longrightarrow>
      statuses tm y = Some Committed \<or> statuses tm y = Some Aborted"
    by (auto simp: ids_ok_def) (metis (full_types) option.exhaust transaction_status.exhaust)
  have s: "s = \<lparr>snap_xmax = next_xid tm + 1, snap_active = insert (next_xid tm) (active_xids tm)\<rparr>"
    "next_xid tm' = next_xid tm + 1" "statuses tm' = (statuses tm)(next_xid tm \<mapsto> InProgress)"
    using assms(3) by (auto simp: tm_ops)
  note Suc = word_below_Suc [OF assms(2)]
  have seen: "\<not> unseen s y \<longleftrightarrow> y < next_xid tm \<and> y \<notin> active_xids tm" for y
    using Suc [of y] by (auto simp: unseen_def s(1) not_le)
  show "decided_below s tm'" using st seen by (auto simp: decided_below_def s(1-3) unseen_def)
  have "statuses tm x = Some Committed \<Longrightarrow> 0 < x \<and> x < next_xid tm \<and> x \<notin> active_xids tm"
    using ids unfolding ids_ok_def by (metis (mono_tags) mem_Collect_eq option.distinct(1) option.inject transaction_status.distinct(1))
  then show "0 < x \<and> \<not> unseen s x \<and> statuses tm' x = Some Committed \<longleftrightarrow> statuses tm x = Some Committed"
    using seen s(3) by auto
qed

lemma decided_step:
  assumes "txn_step tm tm'" and "tm_inv tm" and "decided_below s tm"
  shows "decided_below s tm' \<and> (\<forall>y. 0 < y \<and> \<not> unseen s y \<longrightarrow> statuses tm' y = statuses tm y)"
  using assms
proof (induction rule: txn_step.induct)
  case (step_begin tm r tm')
  then have "tm' = snd (start_transaction tm)" by simp
  moreover have "snap_xmax s \<le> next_xid tm" using step_begin(4) by (simp add: decided_below_def)
  ultimately show ?case
    using step_begin(4) word_le_Suc [OF step_begin(1)] by (auto simp: decided_below_def tm_ops unseen_def)
next
  case (step_commit xid tm)
  then have "statuses tm xid = Some InProgress" by (auto simp: tm_inv_def ids_ok_def)
  then show ?case using step_commit(3) by (auto simp: decided_below_def tm_ops)
next
  case (step_abort xid tm)
  then have "statuses tm xid = Some InProgress" by (auto simp: tm_inv_def ids_ok_def)
  then show ?case using step_abort(3) by (auto simp: decided_below_def tm_ops)
qed

lemma decided_stable:
  assumes "txn_step\<^sup>*\<^sup>* tm tm'" and "tm_inv tm" and "decided_below s tm"
  shows "decided_below s tm' \<and> (\<forall>y. 0 < y \<and> \<not> unseen s y \<longrightarrow> statuses tm' y = statuses tm y)"
  using assms
proof (induction rule: rtranclp_induct)
  case (step tm1 tm2)
  then show ?case using decided_step [OF step(2) tm_inv_reachable [OF step(1) step.prems(1)], of s] by auto
qed simp

lemma isVisible_snapshot:
  "isVisible tm xmin xmax reader (Some s) =
     si_visible (\<lambda>x. 0 < x \<and> \<not> unseen s x \<and> statuses tm x = Some Committed) xmin xmax reader"
  by (auto simp: isVisible_def si_visible_def isCommitted_def word_neq_0_conv split: option.splits)

lemma snapshot_isolation_reads:
  assumes "tm_inv tm" and "next_xid tm \<noteq> - 1" and "start_transaction tm = ((reader, s), tm1)" and "txn_step\<^sup>*\<^sup>* tm1 tm2"
  shows "isVisible tm2 xmin xmax reader (Some s) = si_visible (\<lambda>x. statuses tm x = Some Committed) xmin xmax reader"
proof -
  have "tm_inv tm1" using tm_inv_start [OF assms(1,2)] assms(3) by simp
  from decided_stable [OF assms(4) this decided_start(1) [OF assms(1-3)]]
  have "(0 < x \<and> \<not> unseen s x \<and> statuses tm2 x = Some Committed) = (statuses tm x = Some Committed)" for x
    using decided_start(2) [OF assms(1-3), of x] by auto
  then show ?thesis by (simp add: isVisible_snapshot)
qed

section \<open>Freezing and vacuuming\<close>

lemma reader_undecided:
  assumes "tm_inv tm" and "reads_as tm reader snapshot" and "xid \<noteq> 0" and "isCommitted tm xid \<or> isAborted tm xid"
  shows "xid \<noteq> reader"
  using assms by (auto simp: reads_as_def tm_inv_def snap_ok_def ids_ok_def isCommitted_def isAborted_def split: option.splits)

lemma canFreeze_seen:
  "canFreezeCommitted tm xid \<Longrightarrow> (reader, s) \<in> set (active_snapshots tm) \<Longrightarrow> \<not> unseen s xid"
  by (auto simp: canFreezeCommitted_def list_all_iff split: if_splits)

lemma freeze_keeps_reads:
  assumes inv: "tm_inv tm" and c: "isCommitted tm xid" "canFreezeCommitted tm xid" and rd: "reads_as tm reader snapshot"
    and v: "version_ok tm r"
  shows "case freeze_version xid r of None \<Rightarrow> \<not> row_visible tm reader snapshot r
    | Some r' \<Rightarrow> row_visible tm reader snapshot r' = row_visible tm reader snapshot r \<and> row_values r' = row_values r"
proof -
  have x: "xid \<noteq> 0" using c(2) by (auto simp: canFreezeCommitted_def)
  have ne: "xid \<noteq> reader" using reader_undecided [OF inv rd x] c(1) by simp
  have seen: "\<And>s. snapshot = Some s \<Longrightarrow> \<not> unseen s xid" using canFreeze_seen [OF c(2)] rd by (auto simp: reads_as_def)
  have rd0: "row_xmin r = reader \<Longrightarrow> reader \<noteq> 0 \<Longrightarrow> \<not> isCommitted tm (row_xmin r)"
    using reader_undecided [OF inv rd, of "row_xmin r"] by auto
  show ?thesis
    using x ne seen c(1) v rd0
    by (cases snapshot) (auto simp: freeze_version_def row_visible_def isVisible_def version_ok_def)
qed

lemma horizon_step_le: "horizon_step e h \<le> h" "horizon_step e h \<le> snap_xmax (snd e)"
  by (auto simp: horizon_step_def split_beta)

lemma horizon_fold_le: "fold horizon_step snaps h \<le> h"
proof (induction snaps arbitrary: h)
  case (Cons e snaps)
  show ?case using order.trans [OF Cons.IH horizon_step_le(1)] by simp
qed simp

lemma horizon_fold_all: "e \<in> set snaps \<Longrightarrow> fold horizon_step snaps h \<le> snap_xmax (snd e)"
proof (induction snaps arbitrary: h)
  case (Cons e' snaps)
  then show ?case using order.trans [OF horizon_fold_le horizon_step_le(2) [of e']] by auto
qed simp

lemma vacuum_horizon_le: "(x, s) \<in> set (active_snapshots tm) \<Longrightarrow> getVacuumHorizon tm \<le> snap_xmax s"
  using horizon_fold_all [of "(x, s)" "active_snapshots tm"] by (auto simp: getVacuumHorizon_def)

lemma vacuum_keeps_reads:
  assumes inv: "tm_inv tm" and rd: "reads_as tm reader snapshot" and v: "version_ok tm r"
    and quiet: "\<And>x s. (x, s) \<in> set (active_snapshots tm) \<Longrightarrow> row_xmax r \<notin> snap_active s"
  shows "case vacuum_version tm (getVacuumHorizon tm) r of None \<Rightarrow> \<not> row_visible tm reader snapshot r
    | Some r' \<Rightarrow> row_visible tm reader snapshot r' = row_visible tm reader snapshot r \<and> row_values r' = row_values r"
proof -
  let ?a = "row_xmin r" and ?d = "row_xmax r"
  have seen: "?d < getVacuumHorizon tm \<Longrightarrow> \<not> unseen s ?d" if "snapshot = Some s" for s
    using vacuum_horizon_le [of reader s tm] quiet [of reader s] rd that by (auto simp: unseen_def reads_as_def)
  have not_reader: "x \<noteq> 0 \<Longrightarrow> isCommitted tm x \<or> isAborted tm x \<Longrightarrow> x \<noteq> reader" for x by (rule reader_undecided [OF inv rd])
  have excl: "\<not> (isAborted tm x \<and> isCommitted tm x)" for x by (auto simp: isAborted_def isCommitted_def split: option.splits)
  have nz: "isAborted tm x \<Longrightarrow> x \<noteq> 0" for x by (auto simp: isAborted_def)
  show ?thesis
    using seen not_reader [of ?a] not_reader [of ?d] excl [of ?a] excl [of ?d] nz [of ?a] v
    by (cases snapshot) (auto simp: vacuum_version_def row_visible_def isVisible_def version_ok_def Let_def)
qed

section \<open>Properties\<close>

text \<open>C30: transaction ids are allocated without repetition. In every history of begins, commits and rollbacks the
  ids in use are exactly those below the counter, the active ids are the undecided ones, and a registered
  snapshot belongs to an active transaction and lists it; the next transaction gets an id no history has used.\<close>

theorem transaction_ids_fresh:
  assumes "txn_step\<^sup>*\<^sup>* make_transaction_manager tm"
  shows "tm_inv tm \<and> statuses tm (fst (beginTransaction tm)) = None"
proof -
  have "tm_inv tm" by (rule tm_inv_reachable [OF assms tm_inv_init])
  then show ?thesis by (auto simp: beginTransaction_def Let_def tm_inv_def ids_ok_def)
qed

lemma horizon_fold_above:
  "d < h \<Longrightarrow> \<forall>(x, s) \<in> set snaps. d < snap_xmax s \<Longrightarrow> d < fold horizon_step snaps h"
  by (induction snaps arbitrary: h) (auto simp: horizon_step_def)

lemma active_bounds:
  assumes "tm_inv tm" "x \<in> active_xids tm"
  shows "x \<noteq> 0" "x < next_xid tm" "statuses tm x = Some InProgress"
proof -
  from assms have st: "statuses tm x = Some InProgress" by (auto simp: tm_inv_def ids_ok_def)
  then have "statuses tm x \<noteq> None" by simp
  with assms(1) have "0 < x \<and> x < next_xid tm" unfolding tm_inv_def ids_ok_def by blast
  with st show "x \<noteq> 0" "x < next_xid tm" "statuses tm x = Some InProgress" by auto
qed

lemma start_registers:
  assumes "tm_inv tm" "start_transaction tm = ((reader, snapshot), tm1)"
  shows "reader = next_xid tm" "snapshot = \<lparr>snap_xmax = next_xid tm + 1, snap_active = insert (next_xid tm) (active_xids tm)\<rparr>"
    "active_snapshots tm1 = active_snapshots tm @ [(reader, snapshot)]"
    "statuses tm1 = (statuses tm)(reader \<mapsto> InProgress)" "active_xids tm1 = insert reader (active_xids tm)"
    "next_xid tm1 = next_xid tm + 1"
proof -
  have "next_xid tm \<notin> fst ` set (active_snapshots tm)"
  proof
    assume "next_xid tm \<in> fst ` set (active_snapshots tm)"
    then have "next_xid tm \<in> active_xids tm" using assms(1) by (auto simp: tm_inv_def snap_ok_def)
    from active_bounds(2)[OF assms(1) this] show False by simp
  qed
  with assms(2) show "reader = next_xid tm"
    "snapshot = \<lparr>snap_xmax = next_xid tm + 1, snap_active = insert (next_xid tm) (active_xids tm)\<rparr>"
    "active_snapshots tm1 = active_snapshots tm @ [(reader, snapshot)]"
    "statuses tm1 = (statuses tm)(reader \<mapsto> InProgress)" "active_xids tm1 = insert reader (active_xids tm)"
    "next_xid tm1 = next_xid tm + 1"
    by (auto simp: start_transaction_def tm_ops Let_def alist_update_fresh)
qed

lemma committed_bounds:
  assumes "tm_inv tm" "isCommitted tm x" "x \<noteq> 0"
  shows "x < next_xid tm" "x \<notin> active_xids tm" "statuses tm x = Some Committed"
proof -
  from assms(2,3) show st: "statuses tm x = Some Committed" by (simp add: isCommitted_def split: option.splits)
  then show "x \<notin> active_xids tm" using assms(1) by (simp add: tm_inv_def ids_ok_def)
  from st have "statuses tm x \<noteq> None" by simp
  with assms(1) show "x < next_xid tm" unfolding tm_inv_def ids_ok_def by blast
qed

lemma overlap_loses_version:
  assumes tm: "tm_inv tm" "next_xid tm \<noteq> - 1" and del: "deleter \<in> active_xids tm"
    and old: "\<forall>(x, s) \<in> set (active_snapshots tm). deleter < snap_xmax s"
    and start: "start_transaction tm = ((reader, snapshot), tm1)"
    and r: "isCommitted tm (row_xmin r)" "row_xmax r = deleter"
    and tm2: "tm2 = commitTransaction deleter tm1"
  shows "(reader, snapshot) \<in> set (active_snapshots tm2)" "row_visible tm2 reader (Some snapshot) r"
    "vacuum_version tm2 (getVacuumHorizon tm2) r = None"
proof -
  note d = active_bounds[OF tm(1) del] and s = start_registers[OF tm(1) start]
  have snaps: "active_snapshots tm2 = AList.delete deleter (active_snapshots tm @ [(reader, snapshot)])"
    and st: "statuses tm2 = (statuses tm)(reader \<mapsto> InProgress, deleter \<mapsto> Committed)"
    using s by (simp_all add: tm2 commitTransaction_def)
  show reg: "(reader, snapshot) \<in> set (active_snapshots tm2)"
    using d(2) s(1) by (auto simp: snaps AList.delete_eq)
  have xmin: "row_xmin r = 0 \<or> row_xmin r < next_xid tm \<and> row_xmin r \<notin> active_xids tm \<and> statuses tm (row_xmin r) = Some Committed"
    using committed_bounds[OF tm(1) r(1)] by blast
  have "next_xid tm < next_xid tm + 1" using tm(2) word_below_Suc by blast
  then have seen: "\<not> unseen snapshot (row_xmin r)" if "row_xmin r \<noteq> 0"
    using xmin that by (auto simp: unseen_def s(2))
  have hidden: "unseen snapshot deleter" using del by (simp add: unseen_def s(2))
  show "row_visible tm2 reader (Some snapshot) r"
    using xmin seen hidden d(1,2) s(1) by (auto simp: row_visible_def isVisible_def isCommitted_def st r(2))
  have above: "\<forall>(x, s) \<in> set (active_snapshots tm2). deleter < snap_xmax s"
    using old d(2) \<open>next_xid tm < next_xid tm + 1\<close> by (auto simp: snaps AList.delete_eq s(2))
  have "deleter < - 1" using d(2) word_order.extremum_strict[of deleter] le_less_trans less_le_trans
    by (metis word_order.extremum)
  with horizon_fold_above[OF _ above] reg have "deleter < getVacuumHorizon tm2"
    by (auto simp: getVacuumHorizon_def)
  with xmin d(1,2) s(1) show "vacuum_version tm2 (getVacuumHorizon tm2) r = None"
    by (auto simp: vacuum_version_def isAborted_def isCommitted_def st r(2))
qed

lemma overlap_history:
  assumes "next_xid tm \<noteq> - 1" "deleter \<in> active_xids tm" "start_transaction tm = ((reader, snapshot), tm1)"
  shows "txn_step\<^sup>*\<^sup>* tm (commitTransaction deleter tm1)"
proof -
  have "deleter \<in> active_xids tm1" using assms(2,3) by (auto simp: start_transaction_def tm_ops Let_def)
  with step_begin[OF assms(1,3)] show ?thesis by (meson step_commit rtranclp.simps)
qed

lemma running_tm_eq:
  "snd (start_transaction make_transaction_manager) =
   \<lparr>next_xid = 2, statuses = [1 \<mapsto> InProgress], active_xids = {1},
    active_snapshots = [(1, \<lparr>snap_xmax = 2, snap_active = {1}\<rparr>)]\<rparr>"
  by (simp add: make_transaction_manager_def start_transaction_def tm_ops)

lemma sample_steps: "txn_step\<^sup>*\<^sup>* make_transaction_manager sample_tm"
proof -
  let ?a = "snd (start_transaction make_transaction_manager)" let ?b = "snd (start_transaction ?a)"
  have "txn_step make_transaction_manager ?a"
    by (rule step_begin [of _ "fst (start_transaction make_transaction_manager)"]) (simp_all add: make_transaction_manager_def)
  moreover have "txn_step ?a ?b"
    by (rule step_begin [of _ "fst (start_transaction ?a)"]) (simp_all add: make_transaction_manager_def tm_ops)
  moreover have "txn_step ?b sample_tm"
    unfolding sample_tm_def by (rule step_commit) (simp add: make_transaction_manager_def tm_ops)
  ultimately show ?thesis by (meson converse_rtranclp_into_rtranclp rtranclp.rtrancl_refl)
qed

lemma sample_tm_eq:
  "sample_tm = \<lparr>next_xid = 3, statuses = [1 \<mapsto> Committed, 2 \<mapsto> InProgress], active_xids = {2},
     active_snapshots = [(2, \<lparr>snap_xmax = 3, snap_active = {1, 2}\<rparr>)]\<rparr>"
  by (auto simp: sample_tm_def make_transaction_manager_def tm_ops fun_upd_twist)

theorem transaction_ids_fresh_witness:
  "tm_inv sample_tm \<and> statuses sample_tm (fst (beginTransaction sample_tm)) = None"
  using transaction_ids_fresh [OF sample_steps] .

text \<open>C1: reads inside a transaction see a fixed snapshot. Whatever transactions begin, commit or roll back after
  the reader has begun, a version is visible exactly when the reader created it or its creator had committed
  before the reader began, and neither the reader nor such a transaction deleted it.\<close>

theorem snapshot_isolation:
  assumes "tm_inv tm" and "next_xid tm \<noteq> - 1"
    and "start_transaction tm = ((reader, snapshot), tm1)" and "txn_step\<^sup>*\<^sup>* tm1 tm2"
  shows "isVisible tm2 xmin xmax reader (Some snapshot) =
    si_visible (\<lambda>x. statuses tm x = Some Committed) xmin xmax reader"
  by (rule snapshot_isolation_reads [OF assms])

theorem snapshot_isolation_witness:
  "\<not> isVisible (commitTransaction 2 (snd (start_transaction sample_tm))) 2 0 3
      (Some (snd (fst (start_transaction sample_tm)))) \<and>
   isVisible (commitTransaction 2 (snd (start_transaction sample_tm))) 1 2 3
      (Some (snd (fst (start_transaction sample_tm))))"
proof -
  have inv: "tm_inv sample_tm" by (rule tm_inv_reachable [OF sample_steps tm_inv_init])
  have st: "start_transaction sample_tm = ((3, snd (fst (start_transaction sample_tm))), snd (start_transaction sample_tm))"
    by (simp add: sample_tm_eq tm_ops)
  have "txn_step\<^sup>*\<^sup>* (snd (start_transaction sample_tm)) (commitTransaction 2 (snd (start_transaction sample_tm)))"
    by (intro r_into_rtranclp step_commit) (simp add: sample_tm_eq tm_ops)
  from snapshot_isolation [OF inv _ st this, of 2 0] snapshot_isolation [OF inv _ st this, of 1 2] show ?thesis
    by (simp add: sample_tm_eq si_visible_def)
qed

text \<open>C15: freezing the versions of a committed transaction that every registered snapshot already sees changes
  no read: kept versions stay visible to the same readers with the same values, dropped ones were visible to
  none.\<close>

theorem freeze_preserves_visibility:
  assumes "tm_inv tm" and "isCommitted tm xid" and "canFreezeCommitted tm xid"
    and "reads_as tm reader snapshot" and "version_ok tm r"
  shows "case freeze_version xid r of
      None \<Rightarrow> \<not> row_visible tm reader snapshot r
    | Some r' \<Rightarrow> row_visible tm reader snapshot r' = row_visible tm reader snapshot r \<and> row_values r' = row_values r"
  by (rule freeze_keeps_reads [OF assms])

lemma settled_tm_eq:
  "settled_tm = \<lparr>next_xid = 3, statuses = [1 \<mapsto> Committed, 2 \<mapsto> InProgress], active_xids = {2},
     active_snapshots = [(2, \<lparr>snap_xmax = 3, snap_active = {2}\<rparr>)]\<rparr>"
  by (simp add: settled_tm_def make_transaction_manager_def tm_ops)

lemma settled_inv: "tm_inv settled_tm"
proof -
  let ?a = "snd (start_transaction make_transaction_manager)"
  have "tm_inv ?a" by (rule tm_inv_start [OF tm_inv_init]) (simp add: make_transaction_manager_def)
  then have "tm_inv (commitTransaction 1 ?a)" by (rule tm_inv_end) (simp add: make_transaction_manager_def tm_ops)
  then show ?thesis unfolding settled_tm_def by (rule tm_inv_start) (simp add: make_transaction_manager_def tm_ops)
qed

theorem freeze_preserves_visibility_witness:
  "row_visible settled_tm 2 (Some \<lparr>snap_xmax = 3, snap_active = {2}\<rparr>) \<lparr>row_values = [], row_xmin = 0, row_xmax = 0\<rparr> =
   row_visible settled_tm 2 (Some \<lparr>snap_xmax = 3, snap_active = {2}\<rparr>) \<lparr>row_values = [], row_xmin = 1, row_xmax = 0\<rparr>"
  using freeze_preserves_visibility [OF settled_inv, of 1 2 "Some \<lparr>snap_xmax = 3, snap_active = {2}\<rparr>"
      "\<lparr>row_values = [], row_xmin = 1, row_xmax = 0\<rparr>"]
  by (simp add: settled_tm_eq isCommitted_def canFreezeCommitted_def unseen_def reads_as_def version_ok_def freeze_version_def word_le_nat_alt)

text \<open>C16: vacuuming changes no read either, as long as the deleting transaction of a version is not listed as
  active in a registered snapshot.\<close>

theorem vacuum_preserves_visibility:
  assumes "tm_inv tm" and "reads_as tm reader snapshot" and "version_ok tm r"
    and "\<forall>(x, s) \<in> set (active_snapshots tm). row_xmax r \<notin> snap_active s"
  shows "case vacuum_version tm (getVacuumHorizon tm) r of
      None \<Rightarrow> \<not> row_visible tm reader snapshot r
    | Some r' \<Rightarrow> row_visible tm reader snapshot r' = row_visible tm reader snapshot r \<and> row_values r' = row_values r"
  by (rule vacuum_keeps_reads [OF assms(1-3)]) (use assms(4) in auto)

theorem vacuum_preserves_visibility_witness:
  "vacuum_version settled_tm (getVacuumHorizon settled_tm) \<lparr>row_values = [], row_xmin = 0, row_xmax = 1\<rparr> = None \<and>
   \<not> row_visible settled_tm 2 (Some \<lparr>snap_xmax = 3, snap_active = {2}\<rparr>) \<lparr>row_values = [], row_xmin = 0, row_xmax = 1\<rparr>"
  using vacuum_preserves_visibility [OF settled_inv, of 2 "Some \<lparr>snap_xmax = 3, snap_active = {2}\<rparr>"
      "\<lparr>row_values = [], row_xmin = 0, row_xmax = 1\<rparr>"]
  by (simp add: settled_tm_eq isCommitted_def isAborted_def getVacuumHorizon_def horizon_step_def reads_as_def version_ok_def vacuum_version_def)

text \<open>C37: the vacuum that runs at every commit removes versions that running transactions still read. Whatever
  the state, let a transaction that deletes a committed version be running when a reader begins, with no registered
  snapshot old enough to hold the horizon at or below it: once the deleter commits, the reader's registered snapshot
  still shows the version, because it lists the deleter as active, and the vacuum drops it, because the horizon
  compares only the upper bounds of the snapshots. The reader loses a row in the middle of its transaction.\<close>

theorem vacuum_drops_visible_version:
  assumes "tm_inv tm" "next_xid tm \<noteq> - 1" "deleter \<in> active_xids tm"
    and "\<forall>(x, s) \<in> set (active_snapshots tm). deleter < snap_xmax s"
    and "start_transaction tm = ((reader, snapshot), tm1)"
    and "isCommitted tm (row_xmin r)" "row_xmax r = deleter"
    and "tm2 = commitTransaction deleter tm1"
  shows "txn_step\<^sup>*\<^sup>* tm tm2 \<and> (reader, snapshot) \<in> set (active_snapshots tm2) \<and>
    row_visible tm2 reader (Some snapshot) r \<and> vacuum_version tm2 (getVacuumHorizon tm2) r = None"
  using overlap_loses_version[OF assms] overlap_history[OF assms(2,3,5)] assms(8) by simp

theorem vacuum_drops_visible_version_witness:
  "row_visible sample_tm 2 (Some \<lparr>snap_xmax = 3, snap_active = {1, 2}\<rparr>) \<lparr>row_values = [], row_xmin = 0, row_xmax = 1\<rparr> \<and>
   vacuum_version sample_tm (getVacuumHorizon sample_tm) \<lparr>row_values = [], row_xmin = 0, row_xmax = 1\<rparr> = None"
proof -
  let ?tm = "snd (start_transaction make_transaction_manager)"
  have "start_transaction make_transaction_manager = (fst (start_transaction make_transaction_manager), ?tm)" by simp
  from tm_inv_step[OF step_begin[OF _ this] tm_inv_init] have inv: "tm_inv ?tm"
    by (simp add: make_transaction_manager_def)
  have start: "start_transaction ?tm = ((2, \<lparr>snap_xmax = 3, snap_active = {1, 2}\<rparr>), snd (start_transaction ?tm))"
    unfolding running_tm_eq by (simp add: start_transaction_def tm_ops insert_commute)
  show ?thesis
    using vacuum_drops_visible_version[OF inv _ _ _ start, of 1 "\<lparr>row_values = [], row_xmin = 0, row_xmax = 1\<rparr>" sample_tm]
    by (simp add: running_tm_eq isCommitted_def sample_tm_def)
qed

end
