(* ===== verification/Locks.thy ===== *)
theory Locks
  imports Values "HOL-Library.AList"
begin

text \<open>
  \<open>LockManager\<close> of src/src/core/lock\_manager.cc: shared and exclusive locks on table and row keys, the wait-for graph
  rebuilt from the queues, its depth-first cycle test, and release at the end of a transaction. Every method holds
  the mutex until it returns or waits on the condition variable, so a history is a sequence of atomic passes through
  \<open>acquire\<close> (the first, or one after a wake-up) and \<open>release_all\<close>. The hash maps are association lists. Shown are
  mutual exclusion, exactness and termination of the cycle test, and that the waiting transactions never form a
  cycle.
\<close>

section \<open>State\<close>

datatype lock_mode = Shared | Exclusive

record lock_request =
  req_txn :: u64
  req_mode :: lock_mode
  req_granted :: bool

record lock_manager =
  lock_tables :: "(string \<times> lock_request list) list"
  txn_tables :: "(u64 \<times> string list) list"
  wait_for :: "(u64 \<times> u64 list) list"

definition make_row_lock_key :: "string \<Rightarrow> nat \<Rightarrow> string" where
  "make_row_lock_key table_name row_index = table_name @ '':#'' @ nat_digits row_index"

definition lock_queue :: "lock_manager \<Rightarrow> string \<Rightarrow> lock_request list" where
  "lock_queue lm key = (case map_of (lock_tables lm) key of None \<Rightarrow> [] | Some q \<Rightarrow> q)"

definition set_lock_queue :: "string \<Rightarrow> lock_request list \<Rightarrow> lock_manager \<Rightarrow> lock_manager" where
  "set_lock_queue key q lm = lm\<lparr>lock_tables := AList.update key q (lock_tables lm)\<rparr>"

section \<open>Compatibility and the wait-for graph\<close>

fun can_grant :: "lock_request list \<Rightarrow> u64 \<Rightarrow> lock_mode \<Rightarrow> bool" where
  "can_grant [] txn_id mode = True"
| "can_grant (req # queue) txn_id mode =
     (if \<not> req_granted req then can_grant queue txn_id mode
      else if req_txn req = txn_id then
        (if mode = Shared \<or> req_mode req = Exclusive then True else can_grant queue txn_id mode)
      else if mode = Exclusive \<or> req_mode req = Exclusive then False
      else can_grant queue txn_id mode)"

definition wait_targets :: "(u64 \<times> u64 list) list \<Rightarrow> u64 \<Rightarrow> u64 list" where
  "wait_targets wg n = (case map_of wg n of None \<Rightarrow> [] | Some hs \<Rightarrow> hs)"

definition add_wait_edge :: "u64 \<Rightarrow> u64 \<Rightarrow> (u64 \<times> u64 list) list \<Rightarrow> (u64 \<times> u64 list) list" where
  "add_wait_edge t h wg = AList.update t (List.insert h (wait_targets wg t)) wg"

definition add_queue_edges :: "lock_request list \<Rightarrow> (u64 \<times> u64 list) list \<Rightarrow> (u64 \<times> u64 list) list" where
  "add_queue_edges queue wg =
     (let holders = remdups (map req_txn (filter req_granted queue)) in
      fold (\<lambda>req wg. if req_granted req then wg
                     else fold (\<lambda>holder wg. if holder \<noteq> req_txn req then add_wait_edge (req_txn req) holder wg else wg)
                            holders wg)
        queue wg)"

definition rebuild_wait_edges :: "lock_manager \<Rightarrow> lock_manager" where
  "rebuild_wait_edges lm = lm\<lparr>wait_for := fold (\<lambda>(table_name, queue). add_queue_edges queue) (lock_tables lm) []\<rparr>"

text \<open>The recursive closure of \<open>has_cycle\<close>. A node is added to \<open>visiting\<close> for the time of its exploration; the loop
  over the successors threads the set of finished nodes. Fuel bounds the depth of the recursion.\<close>

fun dfs_each :: "(u64 set \<Rightarrow> u64 \<Rightarrow> (bool \<times> u64 set) option) \<Rightarrow> u64 set \<Rightarrow> u64 list \<Rightarrow> (bool \<times> u64 set) option" where
  "dfs_each f visited [] = Some (False, visited)"
| "dfs_each f visited (n # ns) =
     (case f visited n of
        None \<Rightarrow> None
      | Some (True, vs) \<Rightarrow> Some (True, vs)
      | Some (False, vs) \<Rightarrow> dfs_each f vs ns)"

fun dfs :: "nat \<Rightarrow> (u64 \<times> u64 list) list \<Rightarrow> u64 set \<Rightarrow> u64 set \<Rightarrow> u64 \<Rightarrow> (bool \<times> u64 set) option" where
  "dfs 0 wg visiting visited node = None"
| "dfs (Suc fuel) wg visiting visited node =
     (if node \<in> visiting then Some (True, visited)
      else if node \<in> visited then Some (False, visited)
      else case dfs_each (\<lambda>vs n. dfs fuel wg (insert node visiting) vs n) visited (wait_targets wg node) of
        None \<Rightarrow> None
      | Some (True, vs) \<Rightarrow> Some (True, vs)
      | Some (False, vs) \<Rightarrow> Some (False, insert node vs))"

definition has_cycle :: "lock_manager \<Rightarrow> u64 \<Rightarrow> bool result" where
  "has_cycle lm start =
     (case dfs (length (wait_for lm) + 2) (wait_for lm) {} {} start of
        None \<Rightarrow> Inl UndefinedBehaviour
      | Some (b, _) \<Rightarrow> Inr b)"

section \<open>Acquiring and releasing\<close>

datatype lock_outcome = Granted | Waiting

fun grant_first :: "u64 \<Rightarrow> lock_mode \<Rightarrow> lock_request list \<Rightarrow> lock_request list" where
  "grant_first txn_id mode [] = []"
| "grant_first txn_id mode (req # queue) =
     (if req_txn req = txn_id \<and> \<not> req_granted req
      then req\<lparr>req_granted := True, req_mode := (if mode = Exclusive then Exclusive else req_mode req)\<rparr> # queue
      else req # grant_first txn_id mode queue)"

definition note_held :: "u64 \<Rightarrow> string \<Rightarrow> lock_manager \<Rightarrow> lock_manager" where
  "note_held txn_id key lm =
     lm\<lparr>txn_tables := AList.update txn_id
          (List.insert key (case map_of (txn_tables lm) txn_id of None \<Rightarrow> [] | Some ks \<Rightarrow> ks)) (txn_tables lm)\<rparr>"

text \<open>One pass through the loop of \<open>acquire\<close>, from taking the mutex to returning, throwing or waiting.\<close>

definition acquire_attempt :: "u64 \<Rightarrow> string \<Rightarrow> lock_mode \<Rightarrow> lock_manager \<Rightarrow> lock_outcome result \<times> lock_manager" where
  "acquire_attempt txn_id key mode lm =
     (let queue = lock_queue lm key in
      if can_grant queue txn_id mode then
        (Inr Granted, rebuild_wait_edges (note_held txn_id key (set_lock_queue key (grant_first txn_id mode queue) lm)))
      else
        let lm1 = rebuild_wait_edges lm in
        case has_cycle lm1 txn_id of
          Inl e \<Rightarrow> (Inl e, lm1)
        | Inr True \<Rightarrow>
            (Inl (DeadlockException ''deadlock detected''), rebuild_wait_edges (set_lock_queue key
               (filter (\<lambda>r. \<not> (req_txn r = txn_id \<and> \<not> req_granted r)) (lock_queue lm1 key)) lm1))
        | Inr False \<Rightarrow> (Inr Waiting, lm1))"

definition acquire :: "u64 \<Rightarrow> string \<Rightarrow> lock_mode \<Rightarrow> lock_manager \<Rightarrow> lock_outcome result \<times> lock_manager" where
  "acquire txn_id key mode lm =
     (let queue = lock_queue lm key in
      if list_ex (\<lambda>req. req_granted req \<and> req_txn req = txn_id \<and> (req_mode req = Exclusive \<or> mode = Shared)) queue
      then (Inr Granted, note_held txn_id key (set_lock_queue key queue lm))
      else acquire_attempt txn_id key mode
             (set_lock_queue key (queue @ [\<lparr>req_txn = txn_id, req_mode = mode, req_granted = False\<rparr>]) lm))"

definition release_queue :: "u64 \<Rightarrow> string \<Rightarrow> (string \<times> lock_request list) list \<Rightarrow> (string \<times> lock_request list) list" where
  "release_queue txn_id table_name tables =
     (case map_of tables table_name of
        None \<Rightarrow> tables
      | Some queue \<Rightarrow>
          let queue' = filter (\<lambda>r. req_txn r \<noteq> txn_id) queue in
          if queue' = [] then AList.delete table_name tables else AList.update table_name queue' tables)"

definition release_all :: "u64 \<Rightarrow> lock_manager \<Rightarrow> lock_manager" where
  "release_all txn_id lm =
     rebuild_wait_edges
       (case map_of (txn_tables lm) txn_id of
          None \<Rightarrow> lm
        | Some held \<Rightarrow> lm\<lparr>lock_tables := fold (release_queue txn_id) held (lock_tables lm),
                          txn_tables := AList.delete txn_id (txn_tables lm)\<rparr>)"

section \<open>Vocabulary of the properties\<close>

definition edges :: "(u64 \<times> u64 list) list \<Rightarrow> (u64 \<times> u64) set" where
  "edges wg = {(t, h). h \<in> set (wait_targets wg t)}"

definition queue_edges :: "lock_request list \<Rightarrow> (u64 \<times> u64) set" where
  "queue_edges q = {(t, h). t \<noteq> h \<and> (\<exists>r \<in> set q. \<not> req_granted r \<and> req_txn r = t) \<and> (\<exists>r \<in> set q. req_granted r \<and> req_txn r = h)}"

definition wait_edges :: "lock_manager \<Rightarrow> (u64 \<times> u64) set" where
  "wait_edges lm = (\<Union>key. queue_edges (lock_queue lm key))"

definition exclusive_ok :: "lock_request list \<Rightarrow> bool" where
  "exclusive_ok q = (\<forall>r \<in> set q. \<forall>s \<in> set q. req_granted r \<and> req_granted s \<and> req_txn r \<noteq> req_txn s \<longrightarrow>
     req_mode r = Shared \<and> req_mode s = Shared)"

definition cycle_from :: "(u64 \<times> u64) set \<Rightarrow> u64 \<Rightarrow> bool" where
  "cycle_from E n = (\<exists>c. (n, c) \<in> E\<^sup>* \<and> (c, c) \<in> E\<^sup>+)"

definition clean :: "(u64 \<times> u64) set \<Rightarrow> u64 set \<Rightarrow> bool" where
  "clean E vs = (\<forall>v \<in> vs. \<not> cycle_from E v)"

definition keys_ok :: "lock_manager \<Rightarrow> bool" where
  "keys_ok lm = distinct (map fst (lock_tables lm))"

definition released :: "u64 \<Rightarrow> lock_request list \<Rightarrow> lock_request list option" where
  "released t q = (let q' = filter (\<lambda>r. req_txn r \<noteq> t) q in if q' = [] then None else Some q')"

definition held_keys :: "lock_manager \<Rightarrow> u64 \<Rightarrow> string set" where
  "held_keys lm t = (case map_of (txn_tables lm) t of None \<Rightarrow> {} | Some ks \<Rightarrow> set ks)"

definition pending_of :: "lock_request list \<Rightarrow> u64 \<Rightarrow> lock_request list" where
  "pending_of q t = filter (\<lambda>r. req_txn r = t \<and> \<not> req_granted r) q"

definition new_request :: "u64 \<Rightarrow> lock_mode \<Rightarrow> lock_request" where
  "new_request t m = \<lparr>req_txn = t, req_mode = m, req_granted = False\<rparr>"

section \<open>Histories of lock requests\<close>

text \<open>Transactions run one statement at a time, so a transaction that waits inside \<open>acquire\<close> issues no other call.
  The second component of a state says which transactions wait, for which key and in which mode; a waiting
  transaction is woken by \<open>notify_all\<close> (or spuriously) and runs the loop body again.\<close>

type_synonym lock_system = "lock_manager \<times> (u64 \<rightharpoonup> string \<times> lock_mode)"

inductive lock_step :: "lock_system \<Rightarrow> lock_system \<Rightarrow> bool" where
  acquire_granted: "w t = None \<Longrightarrow> acquire t k m lm = (Inr Granted, lm') \<Longrightarrow> lock_step (lm, w) (lm', w)"
| acquire_waits: "w t = None \<Longrightarrow> acquire t k m lm = (Inr Waiting, lm') \<Longrightarrow> lock_step (lm, w) (lm', w(t \<mapsto> (k, m)))"
| acquire_throws: "w t = None \<Longrightarrow> acquire t k m lm = (Inl e, lm') \<Longrightarrow> lock_step (lm, w) (lm', w)"
| retry_granted: "w t = Some (k, m) \<Longrightarrow> acquire_attempt t k m lm = (Inr Granted, lm') \<Longrightarrow> lock_step (lm, w) (lm', w(t := None))"
| retry_waits: "w t = Some (k, m) \<Longrightarrow> acquire_attempt t k m lm = (Inr Waiting, lm') \<Longrightarrow> lock_step (lm, w) (lm', w)"
| retry_throws: "w t = Some (k, m) \<Longrightarrow> acquire_attempt t k m lm = (Inl e, lm') \<Longrightarrow> lock_step (lm, w) (lm', w(t := None))"
| releases: "w t = None \<Longrightarrow> lock_step (lm, w) (release_all t lm, w)"

definition pend_ok :: "lock_manager \<Rightarrow> (u64 \<rightharpoonup> string \<times> lock_mode) \<Rightarrow> bool" where
  "pend_ok lm w = (\<forall>k t. pending_of (lock_queue lm k) t =
     (case w t of None \<Rightarrow> [] | Some (k', m) \<Rightarrow> if k' = k then [new_request t m] else []))"

definition queues_ok :: "lock_manager \<Rightarrow> (u64 \<rightharpoonup> string \<times> lock_mode) \<Rightarrow> bool" where
  "queues_ok lm w = (keys_ok lm \<and> pend_ok lm w \<and> (\<forall>k. exclusive_ok (lock_queue lm k)))"

definition lock_inv :: "lock_system \<Rightarrow> bool" where
  "lock_inv s = (case s of (lm, w) \<Rightarrow> queues_ok lm w \<and> acyclic (wait_edges lm))"

definition without :: "u64 \<Rightarrow> (u64 \<times> u64) set \<Rightarrow> (u64 \<times> u64) set" where
  "without t E = {(a, b). (a, b) \<in> E \<and> a \<noteq> t}"

definition empty_lock_manager :: lock_manager where
  "empty_lock_manager = \<lparr>lock_tables = [], txn_tables = [], wait_for = []\<rparr>"

definition shared_locks :: lock_manager where
  "shared_locks = snd (acquire 2 ''t'' Shared (snd (acquire 1 ''t'' Shared empty_lock_manager)))"

definition blocked_locks :: lock_manager where
  "blocked_locks = snd (acquire 2 ''t'' Shared (snd (acquire 1 ''t'' Exclusive empty_lock_manager)))"

section \<open>Cycle detection\<close>

lemma dfs_each_sound:
  assumes "dfs_each f visited ns = Some (True, vs)"
  obtains n visited' vs' where "n \<in> set ns" "f visited' n = Some (True, vs')"
  using assms by (induction ns arbitrary: visited) (auto split: option.splits bool.splits, blast+)

lemma dfs_sound:
  assumes "dfs fuel wg visiting visited n = Some (True, vs)" and "\<And>v. v \<in> visiting \<Longrightarrow> (v, n) \<in> (edges wg)\<^sup>+"
  shows "cycle_from (edges wg) n"
  using assms
proof (induction fuel arbitrary: visiting visited n vs)
  case (Suc fuel)
  show ?case
  proof (cases "n \<in> visiting")
    case True
    then show ?thesis using Suc.prems(2) by (auto simp: cycle_from_def)
  next
    case False
    then obtain m vs1 vs2 where m: "m \<in> set (wait_targets wg n)" "dfs fuel wg (insert n visiting) vs1 m = Some (True, vs2)"
      using Suc.prems(1) by (auto split: if_splits option.splits bool.splits elim!: dfs_each_sound)
    have e: "(n, m) \<in> edges wg" using m(1) by (simp add: edges_def)
    have "(v, m) \<in> (edges wg)\<^sup>+" if "v \<in> insert n visiting" for v
      using that e Suc.prems(2) by (auto intro: trancl_into_trancl)
    from Suc.IH [OF m(2) this] show ?thesis using e by (auto simp: cycle_from_def intro: converse_rtrancl_into_rtrancl)
  qed
qed simp

lemma cycle_from_step:
  assumes "cycle_from E n"
  obtains m where "(n, m) \<in> E" "cycle_from E m"
proof -
  obtain c where c: "(n, c) \<in> E\<^sup>*" "(c, c) \<in> E\<^sup>+" using assms by (auto simp: cycle_from_def)
  show thesis
  proof (cases "n = c")
    case True
    from c(2) obtain m where "(c, m) \<in> E" "(m, c) \<in> E\<^sup>*" by (auto dest: tranclD)
    then show thesis using that c(2) True by (auto simp: cycle_from_def)
  next
    case False
    then obtain m where "(n, m) \<in> E" "(m, c) \<in> E\<^sup>*" using c(1) by (metis converse_rtranclE)
    then show thesis using that c(2) by (auto simp: cycle_from_def)
  qed
qed

lemma dfs_each_clean:
  assumes "dfs_each f visited ns = Some (False, vs)" and "clean E visited"
    and "\<And>n v v'. n \<in> set ns \<Longrightarrow> clean E v \<Longrightarrow> f v n = Some (False, v') \<Longrightarrow> clean E v' \<and> n \<in> v' \<and> v \<subseteq> v'"
  shows "clean E vs \<and> set ns \<subseteq> vs \<and> visited \<subseteq> vs"
  using assms
proof (induction ns arbitrary: visited)
  case (Cons n ns)
  obtain v' where v': "f visited n = Some (False, v')" "dfs_each f v' ns = Some (False, vs)"
    using Cons.prems(1) by (auto split: option.splits bool.splits)
  have "clean E v' \<and> n \<in> v' \<and> visited \<subseteq> v'" using Cons.prems(3) [OF _ Cons.prems(2) v'(1)] by simp
  moreover have "clean E vs \<and> set ns \<subseteq> vs \<and> v' \<subseteq> vs" by (rule Cons.IH [OF v'(2)]) (use calculation Cons.prems(3) in auto)
  ultimately show ?case by auto
qed simp

lemma dfs_clean:
  assumes "dfs fuel wg visiting visited n = Some (False, vs)" and "clean (edges wg) visited"
  shows "clean (edges wg) vs \<and> n \<in> vs \<and> visited \<subseteq> vs"
  using assms
proof (induction fuel arbitrary: visiting visited n vs)
  case (Suc fuel)
  show ?case
  proof (cases "n \<in> visited")
    case True
    then show ?thesis using Suc.prems by (auto split: if_splits)
  next
    case False
    obtain v' where v': "dfs_each (\<lambda>vs n'. dfs fuel wg (insert n visiting) vs n') visited (wait_targets wg n) = Some (False, v')"
      "vs = insert n v'" using Suc.prems(1) False by (auto split: if_splits option.splits bool.splits)
    have c: "clean (edges wg) v' \<and> set (wait_targets wg n) \<subseteq> v' \<and> visited \<subseteq> v'"
      by (rule dfs_each_clean [OF v'(1) Suc.prems(2)]) (rule Suc.IH)
    have "\<not> cycle_from (edges wg) n"
    proof
      assume "cycle_from (edges wg) n"
      then obtain m where "(n, m) \<in> edges wg" "cycle_from (edges wg) m" by (rule cycle_from_step)
      then show False using c by (auto simp: edges_def clean_def)
    qed
    then show ?thesis using c v'(2) by (auto simp: clean_def)
  qed
qed simp

lemma dfs_each_total:
  "(\<And>n v. n \<in> set ns \<Longrightarrow> f v n \<noteq> None) \<Longrightarrow> dfs_each f visited ns \<noteq> None"
proof (induction ns arbitrary: visited)
  case (Cons n ns)
  have "f visited n \<noteq> None" using Cons.prems by simp
  moreover have "dfs_each f v ns \<noteq> None" for v by (rule Cons.IH) (use Cons.prems in simp)
  ultimately show ?case by (auto split: option.splits bool.splits)
qed simp

lemma dfs_total: "card (fst ` set wg - visiting) + 2 \<le> fuel \<Longrightarrow> dfs fuel wg visiting visited n \<noteq> None"
proof (induction fuel arbitrary: visiting visited n)
  case (Suc fuel)
  show ?case
  proof (cases "n \<in> visiting \<or> wait_targets wg n = []")
    case False
    then have "n \<in> fst ` set wg - visiting"
      by (auto simp: wait_targets_def image_iff split: option.splits dest!: map_of_SomeD intro!: bexI)
    then have "card (fst ` set wg - insert n visiting) < card (fst ` set wg - visiting)"
      by (intro psubset_card_mono) auto
    then have "dfs fuel wg (insert n visiting) v m \<noteq> None" for v m using Suc.prems by (intro Suc.IH) simp
    then have "dfs_each (\<lambda>vs m. dfs fuel wg (insert n visiting) vs m) visited (wait_targets wg n) \<noteq> None"
      by (intro dfs_each_total) 
    then show ?thesis by (auto split: option.splits bool.splits)
  qed auto
qed simp

lemma has_cycle_iff: "has_cycle lm start = Inr (cycle_from (edges (wait_for lm)) start)"
proof -
  have "card (fst ` set (wait_for lm)) \<le> length (wait_for lm)" by (metis card_length length_map list.set_map)
  then have "dfs (length (wait_for lm) + 2) (wait_for lm) {} {} start \<noteq> None" by (intro dfs_total) simp
  then obtain b vs where d: "dfs (length (wait_for lm) + 2) (wait_for lm) {} {} start = Some (b, vs)" by auto
  show ?thesis
  proof (cases b)
    case True
    then show ?thesis using d dfs_sound [of "length (wait_for lm) + 2" "wait_for lm" "{}" "{}" start vs] by (simp add: has_cycle_def)
  next
    case False
    then have "\<not> cycle_from (edges (wait_for lm)) start"
      using d dfs_clean [of "length (wait_for lm) + 2" "wait_for lm" "{}" "{}" start vs] by (auto simp: clean_def)
    then show ?thesis using d False by (simp add: has_cycle_def)
  qed
qed

section \<open>The wait-for graph is rebuilt from the queues\<close>

lemma wait_targets_update: "wait_targets (AList.update t hs wg) n = (if n = t then hs else wait_targets wg n)"
  by (simp add: wait_targets_def update_conv')

lemma edges_add: "edges (add_wait_edge t h wg) = insert (t, h) (edges wg)"
  by (auto simp: edges_def add_wait_edge_def wait_targets_update split: if_splits)

lemma edges_holders:
  "edges (fold (\<lambda>holder wg. if holder \<noteq> t then add_wait_edge t holder wg else wg) hs wg) =
     {(a, b). a = t \<and> b \<in> set hs \<and> b \<noteq> t} \<union> edges wg"
  by (induction hs arbitrary: wg) (auto simp: edges_add)

lemma edges_queue_loop:
  "edges (fold (\<lambda>req wg. if req_granted req then wg
       else fold (\<lambda>holder wg. if holder \<noteq> req_txn req then add_wait_edge (req_txn req) holder wg else wg) hs wg) q wg) =
     {(a, b). a \<noteq> b \<and> b \<in> set hs \<and> (\<exists>r \<in> set q. \<not> req_granted r \<and> req_txn r = a)} \<union> edges wg"
  by (induction q arbitrary: wg) (auto simp: edges_holders)

lemma edges_add_queue: "edges (add_queue_edges q wg) = queue_edges q \<union> edges wg"
  unfolding add_queue_edges_def Let_def edges_queue_loop queue_edges_def by auto

lemma edges_tables:
  "edges (fold (\<lambda>(k, q). add_queue_edges q) ts wg) = (\<Union>(k, q) \<in> set ts. queue_edges q) \<union> edges wg"
  by (induction ts arbitrary: wg) (auto simp: edges_add_queue)

lemma edges_rebuild: "keys_ok lm \<Longrightarrow> edges (wait_for (rebuild_wait_edges lm)) = wait_edges lm"
proof -
  assume "keys_ok lm"
  then have m: "(k, q) \<in> set (lock_tables lm) \<longleftrightarrow> map_of (lock_tables lm) k = Some q" for k q by (simp add: keys_ok_def)
  have "(\<Union>(k, q) \<in> set (lock_tables lm). queue_edges q) = wait_edges lm"
  proof (intro equalityI subsetI)
    fix e assume "e \<in> (\<Union>(k, q) \<in> set (lock_tables lm). queue_edges q)"
    then obtain k q where "map_of (lock_tables lm) k = Some q" "e \<in> queue_edges q" using m by auto
    then have "e \<in> queue_edges (lock_queue lm k)" by (simp add: lock_queue_def)
    then show "e \<in> wait_edges lm" by (auto simp: wait_edges_def)
  next
    fix e assume "e \<in> wait_edges lm"
    then obtain k where k: "e \<in> queue_edges (lock_queue lm k)" by (auto simp: wait_edges_def)
    then obtain q where "map_of (lock_tables lm) k = Some q" "lock_queue lm k = q"
      by (cases "map_of (lock_tables lm) k") (auto simp: lock_queue_def queue_edges_def)
    then show "e \<in> (\<Union>(k, q) \<in> set (lock_tables lm). queue_edges q)" using k m by blast
  qed
  moreover have "edges [] = {}" by (simp add: edges_def wait_targets_def)
  ultimately show ?thesis by (simp add: rebuild_wait_edges_def edges_tables)
qed

lemma lock_queue_simps [simp]:
  "lock_queue (rebuild_wait_edges lm) k = lock_queue lm k"
  "lock_queue (note_held t n lm) k = lock_queue lm k"
  "lock_queue (set_lock_queue k' q lm) k = (if k = k' then q else lock_queue lm k)"
  "keys_ok (rebuild_wait_edges lm) = keys_ok lm"
  "keys_ok (note_held t n lm) = keys_ok lm"
  "keys_ok lm \<Longrightarrow> keys_ok (set_lock_queue k' q lm)"
  by (simp_all add: lock_queue_def rebuild_wait_edges_def note_held_def set_lock_queue_def keys_ok_def update_conv' distinct_update)

lemma wait_edges_rebuild [simp]: "wait_edges (rebuild_wait_edges lm) = wait_edges lm" "wait_edges (note_held t n lm) = wait_edges lm"
  by (simp_all add: wait_edges_def)

lemma map_of_release_queue: "map_of (release_queue t k ts) = (map_of ts)(k := Option.bind (map_of ts k) (released t))"
  by (auto simp: release_queue_def released_def update_conv' delete_conv' Let_def split: option.splits intro!: ext)

lemma released_idem: "Option.bind (released t q) (released t) = released t q"
  by (simp add: released_def Let_def)

lemma release_fold:
  "map_of (fold (release_queue t) held ts) k = (if k \<in> set held then Option.bind (map_of ts k) (released t) else map_of ts k)"
proof (induction held arbitrary: ts)
  case (Cons h held)
  have "Option.bind (Option.bind (map_of ts h) (released t)) (released t) = Option.bind (map_of ts h) (released t)"
    by (cases "map_of ts h") (simp_all add: released_idem)
  then show ?case by (simp add: Cons.IH map_of_release_queue)
qed simp

lemma release_keys: "distinct (map fst ts) \<Longrightarrow> distinct (map fst (fold (release_queue t) held ts))"
proof (induction held arbitrary: ts)
  case (Cons k held)
  have "distinct (map fst (release_queue t k ts))"
    using Cons.prems by (auto simp: release_queue_def Let_def distinct_update distinct_delete split: option.splits)
  then show ?case using Cons.IH by simp
qed simp

lemma lock_queue_release:
  "lock_queue (release_all t lm) k =
     (if k \<in> held_keys lm t then filter (\<lambda>r. req_txn r \<noteq> t) (lock_queue lm k) else lock_queue lm k)"
proof -
  have q: "(case Option.bind m (released t) of None \<Rightarrow> [] | Some q \<Rightarrow> q) = filter (\<lambda>r. req_txn r \<noteq> t) (case m of None \<Rightarrow> [] | Some q \<Rightarrow> q)" for m
    by (cases m) (auto simp: released_def Let_def)
  show ?thesis
    by (cases "map_of (txn_tables lm) t")
      (auto simp: release_all_def lock_queue_def held_keys_def release_fold rebuild_wait_edges_def q)
qed

lemma keys_ok_release: "keys_ok lm \<Longrightarrow> keys_ok (release_all t lm)"
  by (auto simp: release_all_def keys_ok_def release_keys rebuild_wait_edges_def split: option.splits)

section \<open>Granting\<close>

lemma can_grant_compatible:
  "exclusive_ok q \<Longrightarrow> can_grant q t m \<Longrightarrow> s \<in> set q \<Longrightarrow> req_granted s \<Longrightarrow> req_txn s \<noteq> t \<Longrightarrow> m = Shared \<and> req_mode s = Shared"
proof (induction q)
  case (Cons r q)
  have ex: "exclusive_ok q" using Cons.prems(1) by (auto simp: exclusive_ok_def)
  have rs: "s \<in> set q \<Longrightarrow> req_granted r \<Longrightarrow> req_txn r = t \<Longrightarrow> req_mode r = Shared \<and> req_mode s = Shared"
    using Cons.prems(1,4,5) by (auto simp: exclusive_ok_def)
  show ?case
  proof (cases "s \<in> set q")
    case True
    show ?thesis
    proof (cases "req_granted r \<and> req_txn r = t \<and> (m = Shared \<or> req_mode r = Exclusive)")
      case own: True
      then show ?thesis using rs [OF True] by auto
    next
      case False
      then have "can_grant q t m" using Cons.prems(2) by (auto split: if_splits)
      then show ?thesis using Cons.IH [OF ex _ True] Cons.prems(4,5) by simp
    qed
  next
    case False
    then have "s = r" using Cons.prems(3) by simp
    then show ?thesis using Cons.prems(2,4,5) by (cases m; cases "req_mode r") auto
  qed
qed simp

lemma pending_of_simps [simp]:
  "pending_of [] t = []" "pending_of (r # q) t = (if req_txn r = t \<and> \<not> req_granted r then r # pending_of q t else pending_of q t)"
  "pending_of (q @ q') t = pending_of q t @ pending_of q' t"
  by (simp_all add: pending_of_def)

lemma pending_of_grant:
  "pending_of q t = [new_request t m] \<Longrightarrow> pending_of (grant_first t m q) t' = (if t' = t then [] else pending_of q t')"
  by (induction q) (auto simp: new_request_def split: if_splits)

lemma set_grant:
  "pending_of q t = [new_request t m] \<Longrightarrow>
     set (grant_first t m q) = (set q - {new_request t m}) \<union> {(new_request t m)\<lparr>req_granted := True\<rparr>}"
proof (induction q)
  case (Cons r q)
  show ?case
  proof (cases "req_txn r = t \<and> \<not> req_granted r")
    case True
    then have r: "r = new_request t m" "pending_of q t = []" using Cons.prems by auto
    then have "new_request t m \<notin> set q" by (auto simp: pending_of_def filter_empty_conv new_request_def)
    then show ?thesis using r by (cases m) (auto simp: new_request_def)
  next
    case False
    then show ?thesis using Cons by (auto simp: new_request_def)
  qed
qed simp

lemma exclusive_grant:
  assumes "exclusive_ok q" and "can_grant q t m" and "pending_of q t = [new_request t m]"
  shows "exclusive_ok (grant_first t m q)"
  using can_grant_compatible [OF assms(1,2)] assms(1) unfolding exclusive_ok_def set_grant [OF assms(3)]
  by (auto simp: new_request_def)

section \<open>Every step keeps the invariant\<close>

lemma trancl_avoid:
  assumes "(x, y) \<in> R\<^sup>+" and "\<And>a b. (a, b) \<in> R \<Longrightarrow> b \<noteq> t \<Longrightarrow> (a, b) \<in> E" and "\<And>b. (t, b) \<notin> R"
  shows "y \<noteq> t \<Longrightarrow> (x, y) \<in> E\<^sup>+"
  using assms(1)
proof (induction rule: trancl_induct)
  case (base y)
  then show ?case using assms(2) by blast
next
  case (step y z)
  then have "y \<noteq> t" using assms(3) by blast
  then show ?case using step assms(2) by (meson trancl_into_trancl)
qed

lemma acyclic_into:
  assumes "acyclic E" and "\<And>a b. (a, b) \<in> R \<Longrightarrow> b \<noteq> t \<Longrightarrow> (a, b) \<in> E" and "\<And>b. (t, b) \<notin> R"
  shows "acyclic R"
proof (rule acyclicI, rule allI, rule notI)
  fix c assume c: "(c, c) \<in> R\<^sup>+"
  then have "c \<noteq> t" using assms(3) by (blast dest: tranclD)
  then show False using trancl_avoid [OF c assms(2,3)] assms(1) by (auto simp: acyclic_def)
qed

lemma trancl_through:
  assumes "(x, y) \<in> E\<^sup>+"
  shows "(x, y) \<in> (without t E)\<^sup>+ \<or> (x, t) \<in> E\<^sup>* \<and> (t, y) \<in> E\<^sup>+"
  using assms
proof (induction rule: trancl_induct)
  case (base y)
  then show ?case by (cases "x = t") (auto simp: without_def)
next
  case (step y z)
  show ?case
  proof (cases "y = t")
    case True
    then show ?thesis using step.hyps by (auto intro: trancl_into_rtrancl)
  next
    case False
    then have "(y, z) \<in> without t E" using step.hyps(2) by (simp add: without_def)
    then show ?thesis using step by (meson trancl_into_trancl)
  qed
qed

lemma acyclic_waiting:
  assumes "acyclic (without t E)" and "\<not> cycle_from E t"
  shows "acyclic E"
proof (rule acyclicI, rule allI, rule notI)
  fix c assume c: "(c, c) \<in> E\<^sup>+"
  then have "(c, t) \<in> E\<^sup>*" "(t, c) \<in> E\<^sup>+" using trancl_through [OF c, of t] assms(1) by (auto simp: acyclic_def)
  then have "(t, t) \<in> E\<^sup>+" by (meson trancl_rtrancl_trancl)
  then show False using assms(2) by (auto simp: cycle_from_def)
qed

lemma in_wait_edges:
  "(a, b) \<in> wait_edges lm \<longleftrightarrow> a \<noteq> b \<and>
     (\<exists>k. pending_of (lock_queue lm k) a \<noteq> [] \<and> (\<exists>r \<in> set (lock_queue lm k). req_granted r \<and> req_txn r = b))"
  by (auto simp: wait_edges_def queue_edges_def pending_of_def filter_empty_conv)

lemma wait_edges_out:
  "pend_ok lm w \<Longrightarrow> w t = None \<Longrightarrow> (t, b) \<notin> wait_edges lm"
  by (auto simp: in_wait_edges pend_ok_def)

lemma without_same: "pend_ok lm w \<Longrightarrow> w t = None \<Longrightarrow> without t (wait_edges lm) = wait_edges lm"
  using wait_edges_out by (auto simp: without_def)

lemma attempt_granted:
  assumes q: "queues_ok lm w" and w: "w t = Some (k, m)" and ac: "acyclic (without t (wait_edges lm))"
    and c: "can_grant (lock_queue lm k) t m"
  shows "lock_inv (rebuild_wait_edges (note_held t k (set_lock_queue k (grant_first t m (lock_queue lm k)) lm)), w(t := None))"
proof -
  let ?lm = "set_lock_queue k (grant_first t m (lock_queue lm k)) lm"
  have p: "pending_of (lock_queue lm k) t = [new_request t m]" and po: "pend_ok lm w" using q w by (auto simp: queues_ok_def pend_ok_def)
  have po': "pend_ok ?lm (w(t := None))"
    using po w by (auto simp: pend_ok_def pending_of_grant [OF p] split: option.splits)
  have "acyclic (wait_edges ?lm)"
  proof (rule acyclic_into [OF ac])
    fix a b assume ab: "(a, b) \<in> wait_edges ?lm" "b \<noteq> t"
    then obtain k' r where k': "a \<noteq> b" "pending_of (lock_queue ?lm k') a \<noteq> []"
      "r \<in> set (lock_queue ?lm k')" "req_granted r" "req_txn r = b" by (auto simp: in_wait_edges)
    have "a \<noteq> t" using wait_edges_out [OF po', of t b] ab(1) by auto
    moreover have "pending_of (lock_queue lm k') a \<noteq> []" using k'(2) by (auto simp: pending_of_grant [OF p] split: if_splits)
    moreover have "r \<in> set (lock_queue lm k')"
      using k'(3-5) ab(2) by (auto simp: set_grant [OF p] new_request_def split: if_splits)
    ultimately show "(a, b) \<in> without t (wait_edges lm)" using k' by (auto simp: without_def in_wait_edges)
  qed (use wait_edges_out [OF po'] in simp)
  moreover have "exclusive_ok (grant_first t m (lock_queue lm k))"
    using exclusive_grant [OF _ c p] q by (simp add: queues_ok_def)
  ultimately show ?thesis using po' q by (auto simp: lock_inv_def queues_ok_def pend_ok_def)
qed

lemma attempt_throws:
  assumes q: "queues_ok lm w" and w: "w t = Some (k, m)" and ac: "acyclic (without t (wait_edges lm))"
  shows "lock_inv (rebuild_wait_edges (set_lock_queue k
    (filter (\<lambda>r. \<not> (req_txn r = t \<and> \<not> req_granted r)) (lock_queue lm k)) lm), w(t := None))"
proof -
  let ?lm = "set_lock_queue k (filter (\<lambda>r. \<not> (req_txn r = t \<and> \<not> req_granted r)) (lock_queue lm k)) lm"
  have po: "pend_ok lm w" using q by (simp add: queues_ok_def)
  have p: "pending_of (filter (\<lambda>r. req_txn r = t \<longrightarrow> req_granted r) q) a = (if a = t then [] else pending_of q a)" for q a
    by (induction q) auto
  have po': "pend_ok ?lm (w(t := None))" using po w by (auto simp: pend_ok_def p split: option.splits)
  have "wait_edges ?lm \<subseteq> without t (wait_edges lm)"
  proof
    fix e assume e: "e \<in> wait_edges ?lm"
    obtain a b where ab: "e = (a, b)" by (cases e)
    have "a \<noteq> t" using wait_edges_out [OF po', of t b] e ab by auto
    then show "e \<in> without t (wait_edges lm)" using e ab by (auto simp: without_def in_wait_edges p split: if_splits)
  qed
  then have "acyclic (wait_edges ?lm)" using ac by (rule acyclic_subset [rotated])
  moreover have "exclusive_ok (lock_queue ?lm k')" for k'
    using q by (auto simp: queues_ok_def exclusive_ok_def)
  ultimately show ?thesis using po' q by (auto simp: lock_inv_def queues_ok_def pend_ok_def)
qed

lemma attempt_inv:
  assumes q: "queues_ok lm w" and w: "w t = Some (k, m)" and ac: "acyclic (without t (wait_edges lm))"
    and run: "acquire_attempt t k m lm = (res, lm')"
  shows "res = Inr Granted \<and> lock_inv (lm', w(t := None)) \<or> res = Inr Waiting \<and> lock_inv (lm', w) \<or>
    res = Inl (DeadlockException ''deadlock detected'') \<and> lock_inv (lm', w(t := None)) \<and> cycle_from (wait_edges lm) t"
proof (cases "can_grant (lock_queue lm k) t m")
  case True
  then show ?thesis using attempt_granted [OF q w ac True] run by (auto simp: acquire_attempt_def)
next
  case False
  have e: "edges (wait_for (rebuild_wait_edges lm)) = wait_edges lm" using edges_rebuild q by (simp add: queues_ok_def)
  show ?thesis
  proof (cases "cycle_from (wait_edges lm) t")
    case True
    then show ?thesis
      using False run attempt_throws [OF q w ac] attempt_throws [of "rebuild_wait_edges lm" w t k m] q w ac
      by (auto simp: acquire_attempt_def has_cycle_iff e queues_ok_def pend_ok_def)
  next
    case no: False
    have "acyclic (wait_edges lm)" by (rule acyclic_waiting [OF ac no])
    then show ?thesis using False no run q by (auto simp: acquire_attempt_def has_cycle_iff e lock_inv_def queues_ok_def pend_ok_def)
  qed
qed

lemma acquire_inv:
  assumes inv: "lock_inv (lm, w)" and w: "w t = None" and run: "acquire t k m lm = (res, lm')"
  shows "res = Inr Granted \<and> lock_inv (lm', w) \<or> res = Inr Waiting \<and> lock_inv (lm', w(t \<mapsto> (k, m))) \<or>
    res = Inl (DeadlockException ''deadlock detected'') \<and> lock_inv (lm', w)"
proof (cases "list_ex (\<lambda>req. req_granted req \<and> req_txn req = t \<and> (req_mode req = Exclusive \<or> m = Shared)) (lock_queue lm k)")
  case True
  let ?lm = "set_lock_queue k (lock_queue lm k) lm"
  have r: "res = Inr Granted" "lm' = note_held t k ?lm" using True run by (simp_all add: acquire_def)
  have same: "lock_queue ?lm = lock_queue lm" by (rule ext) simp
  have "wait_edges ?lm = wait_edges lm" unfolding wait_edges_def by (simp only: same)
  moreover have "queues_ok lm' w"
    using inv unfolding r(2) lock_inv_def queues_ok_def pend_ok_def lock_queue_simps(2) same by simp
  ultimately have "lock_inv (lm', w)" using inv r(2) by (simp add: lock_inv_def)
  then show ?thesis using r(1) by simp
next
  case False
  let ?q = "lock_queue lm k @ [new_request t m]" let ?lm = "set_lock_queue k ?q lm" let ?w = "w(t \<mapsto> (k, m))"
  have q: "queues_ok lm w" and ac: "acyclic (wait_edges lm)" using inv by (simp_all add: lock_inv_def)
  then have po: "pend_ok lm w" by (simp add: queues_ok_def)
  have po': "pend_ok ?lm ?w" using po w by (auto simp: pend_ok_def new_request_def split: option.splits)
  have ex: "exclusive_ok ?q" using q by (auto simp: queues_ok_def exclusive_ok_def new_request_def)
  have q': "queues_ok ?lm ?w" using q po' ex by (auto simp: queues_ok_def)
  have "without t (wait_edges ?lm) \<subseteq> wait_edges lm"
  proof
    fix e assume e: "e \<in> without t (wait_edges ?lm)"
    obtain a b where ab: "e = (a, b)" by (cases e)
    obtain k' r where k: "a \<noteq> t" "a \<noteq> b" "pending_of (lock_queue ?lm k') a \<noteq> []"
      "r \<in> set (lock_queue ?lm k')" "req_granted r" "req_txn r = b" using e ab unfolding without_def in_wait_edges by blast
    have "pending_of (lock_queue lm k') a \<noteq> []" "r \<in> set (lock_queue lm k')"
      using k(1,3-5) by (auto simp: new_request_def split: if_splits)
    then show "e \<in> wait_edges lm" unfolding ab in_wait_edges using k(2,5,6) by blast
  qed
  then have ac': "acyclic (without t (wait_edges ?lm))" by (rule acyclic_subset [OF ac])
  have "acquire_attempt t k m ?lm = (res, lm')" using run False by (simp add: acquire_def new_request_def)
  from attempt_inv [OF q' _ ac' this] have cs: "res = Inr Granted \<and> lock_inv (lm', ?w(t := None)) \<or>
    res = Inr Waiting \<and> lock_inv (lm', ?w) \<or> res = Inl (DeadlockException ''deadlock detected'') \<and> lock_inv (lm', ?w(t := None))"
    by (metis fun_upd_same)
  have "?w(t := None) = w" using w by auto
  with cs show ?thesis by (simp only: disj_ac)
qed

lemma release_inv:
  assumes inv: "lock_inv (lm, w)" and w: "w t = None"
  shows "lock_inv (release_all t lm, w)"
proof -
  have q: "queues_ok lm w" and ac: "acyclic (wait_edges lm)" using inv by (simp_all add: lock_inv_def)
  then have po: "pend_ok lm w" by (simp add: queues_ok_def)
  have p: "pending_of (filter (\<lambda>r. req_txn r \<noteq> t) q) a = (if a = t then [] else pending_of q a)" for q a
    by (induction q) auto
  have none: "pending_of (lock_queue lm k) t = []" for k using po w by (simp add: pend_ok_def)
  have po': "pend_ok (release_all t lm) w"
    using po w none by (auto simp: pend_ok_def lock_queue_release p split: option.splits)
  have "wait_edges (release_all t lm) \<subseteq> wait_edges lm"
  proof
    fix e assume e: "e \<in> wait_edges (release_all t lm)"
    obtain a b where ab: "e = (a, b)" by (cases e)
    obtain k r where k: "a \<noteq> b" "pending_of (lock_queue (release_all t lm) k) a \<noteq> []"
      "r \<in> set (lock_queue (release_all t lm) k)" "req_granted r" "req_txn r = b" using e unfolding ab in_wait_edges by blast
    have "pending_of (lock_queue lm k) a \<noteq> []" "r \<in> set (lock_queue lm k)"
      using k(2,3) by (auto simp: lock_queue_release p split: if_splits)
    then show "e \<in> wait_edges lm" unfolding ab in_wait_edges using k(1,4,5) by blast
  qed
  then have "acyclic (wait_edges (release_all t lm))" by (rule acyclic_subset [OF ac])
  moreover have "exclusive_ok (lock_queue (release_all t lm) k)" for k
    using q by (auto simp: queues_ok_def exclusive_ok_def lock_queue_release)
  ultimately show ?thesis using po' q keys_ok_release by (auto simp: lock_inv_def queues_ok_def)
qed

lemma lock_inv_step: "lock_step s s' \<Longrightarrow> lock_inv s \<Longrightarrow> lock_inv s'"
proof (induction rule: lock_step.induct)
  case (acquire_granted w t k m lm lm')
  then show ?case using acquire_inv [of lm w t k m] by auto
next
  case (acquire_waits w t k m lm lm')
  then show ?case using acquire_inv [of lm w t k m] by auto
next
  case (acquire_throws w t k m lm e lm')
  then show ?case using acquire_inv [of lm w t k m] by auto
next
  case (retry_granted w t k m lm lm')
  then show ?case using attempt_inv [of lm w t k m] acyclic_subset [of "wait_edges lm" "without t (wait_edges lm)"]
    by (auto simp: lock_inv_def [of "(lm, w)"] without_def)
next
  case (retry_waits w t k m lm lm')
  then show ?case using attempt_inv [of lm w t k m] acyclic_subset [of "wait_edges lm" "without t (wait_edges lm)"]
    by (auto simp: lock_inv_def [of "(lm, w)"] without_def)
next
  case (retry_throws w t k m lm e lm')
  then show ?case using attempt_inv [of lm w t k m] acyclic_subset [of "wait_edges lm" "without t (wait_edges lm)"]
    by (auto simp: lock_inv_def [of "(lm, w)"] without_def)
next
  case (releases w t lm)
  then show ?case using release_inv by simp
qed

lemma lock_inv_init: "lock_inv (empty_lock_manager, Map.empty)"
  by (simp add: lock_inv_def queues_ok_def keys_ok_def pend_ok_def exclusive_ok_def empty_lock_manager_def lock_queue_def
      wait_edges_def queue_edges_def acyclic_def)

lemma lock_inv_reachable: "lock_step\<^sup>*\<^sup>* s s' \<Longrightarrow> lock_inv s \<Longrightarrow> lock_inv s'"
  by (induction rule: rtranclp_induct) (auto intro: lock_inv_step)

lemma finite_wait_edges: "finite (wait_edges lm)"
proof -
  let ?qs = "\<Union>(k, q) \<in> set (lock_tables lm). set q"
  have sub: "set (lock_queue lm k) \<subseteq> ?qs" for k
  proof (cases "map_of (lock_tables lm) k")
    case (Some q)
    from map_of_SomeD [OF this] show ?thesis using Some by (auto simp: lock_queue_def)
  qed (simp add: lock_queue_def)
  have "wait_edges lm \<subseteq> req_txn ` ?qs \<times> req_txn ` ?qs"
  proof
    fix e assume "e \<in> wait_edges lm"
    then obtain k r s where "e = (req_txn r, req_txn s)" "r \<in> set (lock_queue lm k)" "s \<in> set (lock_queue lm k)"
      by (auto simp: wait_edges_def queue_edges_def)
    then show "e \<in> req_txn ` ?qs \<times> req_txn ` ?qs" using sub by blast
  qed
  then show ?thesis by (rule finite_subset) auto
qed

section \<open>Properties\<close>

text \<open>C4: locks exclude. In every history of acquisitions and releases two transactions hold granted requests on
  the same key only in shared mode.\<close>

theorem locks_exclude:
  assumes "lock_step\<^sup>*\<^sup>* (empty_lock_manager, Map.empty) (lm, w)"
    and "r \<in> set (lock_queue lm key)" and "s \<in> set (lock_queue lm key)"
    and "req_granted r" and "req_granted s" and "req_txn r \<noteq> req_txn s"
  shows "req_mode r = Shared \<and> req_mode s = Shared"
  using lock_inv_reachable [OF assms(1) lock_inv_init] assms(2-6)
  by (auto simp: lock_inv_def queues_ok_def exclusive_ok_def)

lemma shared_locks_reached: "lock_step\<^sup>*\<^sup>* (empty_lock_manager, Map.empty) (shared_locks, Map.empty)"
proof -
  let ?a = "snd (acquire 1 ''t'' Shared empty_lock_manager)"
  have "acquire 1 ''t'' Shared empty_lock_manager = (Inr Granted, ?a)" by code_simp
  then have "lock_step (empty_lock_manager, Map.empty) (?a, Map.empty)" by (rule acquire_granted [rotated]) simp
  moreover have "acquire 2 ''t'' Shared ?a = (Inr Granted, shared_locks)" by code_simp
  then have "lock_step (?a, Map.empty) (shared_locks, Map.empty)" by (rule acquire_granted [rotated]) simp
  ultimately show ?thesis by (meson converse_rtranclp_into_rtranclp rtranclp.rtrancl_refl)
qed

theorem locks_exclude_witness:
  "lock_queue shared_locks ''t'' = [\<lparr>req_txn = 1, req_mode = Shared, req_granted = True\<rparr>, \<lparr>req_txn = 2, req_mode = Shared, req_granted = True\<rparr>] \<and>
   req_mode \<lparr>req_txn = 1, req_mode = Shared, req_granted = True\<rparr> = Shared"
proof -
  have q: "lock_queue shared_locks ''t'' =
      [\<lparr>req_txn = 1, req_mode = Shared, req_granted = True\<rparr>, \<lparr>req_txn = 2, req_mode = Shared, req_granted = True\<rparr>]"
    by code_simp
  show ?thesis
    using locks_exclude [OF shared_locks_reached, of "lock_queue shared_locks ''t'' ! 0" "''t''" "lock_queue shared_locks ''t'' ! 1"] q
    by simp
qed

text \<open>C6: no deadlock goes unnoticed. In every history the waiting transactions form no cycle, and as long as
  some transaction waits there is one whose every blocker is running.\<close>

theorem no_silent_deadlock:
  assumes "lock_step\<^sup>*\<^sup>* (empty_lock_manager, Map.empty) (lm, w)"
  shows "acyclic (wait_edges lm) \<and>
    (w t \<noteq> None \<longrightarrow> (\<exists>t'. w t' \<noteq> None \<and> (\<forall>h. (t', h) \<in> wait_edges lm \<longrightarrow> w h = None)))"
proof -
  have inv: "queues_ok lm w" "acyclic (wait_edges lm)"
    using lock_inv_reachable [OF assms lock_inv_init] by (auto simp: lock_inv_def)
  have wfe: "wf ((wait_edges lm)\<inverse>)" using finite_wait_edges inv(2) by (rule finite_acyclic_wf_converse)
  have "\<exists>t'. w t' \<noteq> None \<and> (\<forall>h. (t', h) \<in> wait_edges lm \<longrightarrow> w h = None)" if wt: "w t \<noteq> None"
  proof -
    obtain t' where "t' \<in> {t. w t \<noteq> None}" "\<And>h. (h, t') \<in> (wait_edges lm)\<inverse> \<Longrightarrow> h \<notin> {t. w t \<noteq> None}"
      by (rule wfE_min [OF wfe, of t "{t. w t \<noteq> None}"]) (use wt in auto)
    then show ?thesis by blast
  qed
  then show ?thesis using inv(2) by simp
qed

lemma blocked_locks_reached: "lock_step\<^sup>*\<^sup>* (empty_lock_manager, Map.empty) (blocked_locks, [2 \<mapsto> (''t'', Shared)])"
proof -
  let ?a = "snd (acquire 1 ''t'' Exclusive empty_lock_manager)"
  have "acquire 1 ''t'' Exclusive empty_lock_manager = (Inr Granted, ?a)" by code_simp
  then have "lock_step (empty_lock_manager, Map.empty) (?a, Map.empty)" by (rule acquire_granted [rotated]) simp
  moreover have "acquire 2 ''t'' Shared ?a = (Inr Waiting, blocked_locks)" by code_simp
  then have "lock_step (?a, Map.empty) (blocked_locks, [2 \<mapsto> (''t'', Shared)])" by (rule acquire_waits [rotated]) simp
  ultimately show ?thesis by (meson converse_rtranclp_into_rtranclp rtranclp.rtrancl_refl)
qed

theorem no_silent_deadlock_witness:
  "\<exists>t'. [2 \<mapsto> (''t'', Shared)] t' \<noteq> None \<and>
     (\<forall>h. (t', h) \<in> wait_edges blocked_locks \<longrightarrow> [2 \<mapsto> (''t'', Shared)] h = None)"
  using no_silent_deadlock [OF blocked_locks_reached, of 2] by simp

text \<open>C17: deadlock detection is exact and terminates. A request that cannot be granted is refused with a deadlock
  exception exactly when a cycle of the wait-for graph can be reached from its transaction, and waits
  otherwise.\<close>

theorem deadlock_detection_exact:
  assumes "keys_ok lm" and "\<not> can_grant (lock_queue lm key) txn mode"
  shows "fst (acquire_attempt txn key mode lm) =
    (if cycle_from (wait_edges lm) txn then Inl (DeadlockException ''deadlock detected'') else Inr Waiting)"
  using assms edges_rebuild [OF assms(1)] by (simp add: acquire_attempt_def has_cycle_iff)

theorem deadlock_detection_exact_witness:
  "\<not> cycle_from (wait_edges blocked_locks) 2"
proof -
  have "\<not> can_grant (lock_queue blocked_locks ''t'') 2 Shared" "fst (acquire_attempt 2 ''t'' Shared blocked_locks) = Inr Waiting"
    by code_simp+
  moreover have "keys_ok blocked_locks" unfolding keys_ok_def by code_simp
  ultimately show ?thesis using deadlock_detection_exact [of blocked_locks "''t''" 2 Shared] by (auto split: if_splits)
qed

end
