(* ===== verification/Tokens.thy ===== *)
theory Tokens
  imports Prelude
begin

text \<open>
  \<open>TokenType\<close> and \<open>Token\<close> of src/include/parser/token.h and src/src/parser/token.cc. The enumerators are grouped as the
  header's comments group them, with the keywords in two parts, because one datatype of all 114 enumerators is slow to
  process; an abbreviation with the prefix \<open>TOK\<close> gives each enumerator its flat name.
\<close>

section \<open>Token types\<close>

datatype keyword_one =
    K_SELECT | K_INSERT | K_UPDATE | K_DELETE | K_CREATE | K_DROP | K_ALTER | K_ADD | K_COLUMN
  | K_RENAME | K_TO | K_CONSTRAINT | K_PRIMARY | K_KEY | K_UNIQUE | K_BETWEEN | K_TABLE | K_VIEW | K_IF
  | K_FROM | K_WHERE | K_AND | K_OR | K_NOT | K_JOIN | K_INNER | K_LEFT | K_RIGHT | K_FULL | K_OUTER
  | K_CROSS | K_ON | K_GROUP | K_BY | K_HAVING | K_ORDER | K_ASC | K_DESC | K_VALUES | K_SET | K_NULL_KW
  | K_TRUE_KW | K_FALSE_KW

datatype keyword_two =
    K_AS | K_DISTINCT | K_INDEX | K_REFERENCES | K_FOREIGN | K_CASCADE | K_RESTRICT | K_BEGIN | K_COMMIT
  | K_ROLLBACK | K_PREPARE | K_EXECUTE | K_DEALLOCATE | K_IN | K_EXISTS | K_DEFAULT | K_VACUUM
  | K_EXPLAIN | K_CHECK | K_UNION | K_INTERSECT | K_EXCEPT | K_ALL | K_OVER | K_PARTITION | K_RANGE
  | K_HASH | K_OF | K_FOR | K_WITH | K_MODULUS | K_REMAINDER | K_FUNCTION | K_RETURNS | K_RETURN
  | K_PROCEDURE | K_CALL | K_TRIGGER | K_BEFORE | K_AFTER | K_EACH | K_ROW

datatype aggregate_name =
    A_COUNT | A_SUM | A_AVG | A_MIN | A_MAX

datatype operator_symbol =
    O_EQUAL | O_NOT_EQUAL | O_LESS | O_LESS_EQUAL | O_GREATER | O_GREATER_EQUAL | O_PLUS | O_MINUS
  | O_MULTIPLY | O_DIVIDE | O_MODULO

datatype delimiter =
    D_LPAREN | D_RPAREN | D_COMMA | D_DOT | D_SEMICOLON | D_ASTERISK | D_PARAMETER

datatype literal_kind =
    L_IDENTIFIER | L_NUMBER | L_STRING | L_DOLLAR_QUOTED_STRING | L_END_OF_INPUT | L_UNKNOWN

datatype token_type =
    KW1 keyword_one | KW2 keyword_two | AGG aggregate_name | OPR operator_symbol | DLM delimiter | LIT literal_kind

abbreviation TOK_SELECT :: token_type where "TOK_SELECT \<equiv> KW1 K_SELECT"
abbreviation TOK_INSERT :: token_type where "TOK_INSERT \<equiv> KW1 K_INSERT"
abbreviation TOK_UPDATE :: token_type where "TOK_UPDATE \<equiv> KW1 K_UPDATE"
abbreviation TOK_DELETE :: token_type where "TOK_DELETE \<equiv> KW1 K_DELETE"
abbreviation TOK_CREATE :: token_type where "TOK_CREATE \<equiv> KW1 K_CREATE"
abbreviation TOK_DROP :: token_type where "TOK_DROP \<equiv> KW1 K_DROP"
abbreviation TOK_ALTER :: token_type where "TOK_ALTER \<equiv> KW1 K_ALTER"
abbreviation TOK_ADD :: token_type where "TOK_ADD \<equiv> KW1 K_ADD"
abbreviation TOK_COLUMN :: token_type where "TOK_COLUMN \<equiv> KW1 K_COLUMN"
abbreviation TOK_RENAME :: token_type where "TOK_RENAME \<equiv> KW1 K_RENAME"
abbreviation TOK_TO :: token_type where "TOK_TO \<equiv> KW1 K_TO"
abbreviation TOK_CONSTRAINT :: token_type where "TOK_CONSTRAINT \<equiv> KW1 K_CONSTRAINT"
abbreviation TOK_PRIMARY :: token_type where "TOK_PRIMARY \<equiv> KW1 K_PRIMARY"
abbreviation TOK_KEY :: token_type where "TOK_KEY \<equiv> KW1 K_KEY"
abbreviation TOK_UNIQUE :: token_type where "TOK_UNIQUE \<equiv> KW1 K_UNIQUE"
abbreviation TOK_BETWEEN :: token_type where "TOK_BETWEEN \<equiv> KW1 K_BETWEEN"
abbreviation TOK_TABLE :: token_type where "TOK_TABLE \<equiv> KW1 K_TABLE"
abbreviation TOK_VIEW :: token_type where "TOK_VIEW \<equiv> KW1 K_VIEW"
abbreviation TOK_IF :: token_type where "TOK_IF \<equiv> KW1 K_IF"
abbreviation TOK_FROM :: token_type where "TOK_FROM \<equiv> KW1 K_FROM"
abbreviation TOK_WHERE :: token_type where "TOK_WHERE \<equiv> KW1 K_WHERE"
abbreviation TOK_AND :: token_type where "TOK_AND \<equiv> KW1 K_AND"
abbreviation TOK_OR :: token_type where "TOK_OR \<equiv> KW1 K_OR"
abbreviation TOK_NOT :: token_type where "TOK_NOT \<equiv> KW1 K_NOT"
abbreviation TOK_JOIN :: token_type where "TOK_JOIN \<equiv> KW1 K_JOIN"
abbreviation TOK_INNER :: token_type where "TOK_INNER \<equiv> KW1 K_INNER"
abbreviation TOK_LEFT :: token_type where "TOK_LEFT \<equiv> KW1 K_LEFT"
abbreviation TOK_RIGHT :: token_type where "TOK_RIGHT \<equiv> KW1 K_RIGHT"
abbreviation TOK_FULL :: token_type where "TOK_FULL \<equiv> KW1 K_FULL"
abbreviation TOK_OUTER :: token_type where "TOK_OUTER \<equiv> KW1 K_OUTER"
abbreviation TOK_CROSS :: token_type where "TOK_CROSS \<equiv> KW1 K_CROSS"
abbreviation TOK_ON :: token_type where "TOK_ON \<equiv> KW1 K_ON"
abbreviation TOK_GROUP :: token_type where "TOK_GROUP \<equiv> KW1 K_GROUP"
abbreviation TOK_BY :: token_type where "TOK_BY \<equiv> KW1 K_BY"
abbreviation TOK_HAVING :: token_type where "TOK_HAVING \<equiv> KW1 K_HAVING"
abbreviation TOK_ORDER :: token_type where "TOK_ORDER \<equiv> KW1 K_ORDER"
abbreviation TOK_ASC :: token_type where "TOK_ASC \<equiv> KW1 K_ASC"
abbreviation TOK_DESC :: token_type where "TOK_DESC \<equiv> KW1 K_DESC"
abbreviation TOK_VALUES :: token_type where "TOK_VALUES \<equiv> KW1 K_VALUES"
abbreviation TOK_SET :: token_type where "TOK_SET \<equiv> KW1 K_SET"
abbreviation TOK_NULL_KW :: token_type where "TOK_NULL_KW \<equiv> KW1 K_NULL_KW"
abbreviation TOK_TRUE_KW :: token_type where "TOK_TRUE_KW \<equiv> KW1 K_TRUE_KW"
abbreviation TOK_FALSE_KW :: token_type where "TOK_FALSE_KW \<equiv> KW1 K_FALSE_KW"

abbreviation TOK_AS :: token_type where "TOK_AS \<equiv> KW2 K_AS"
abbreviation TOK_DISTINCT :: token_type where "TOK_DISTINCT \<equiv> KW2 K_DISTINCT"
abbreviation TOK_INDEX :: token_type where "TOK_INDEX \<equiv> KW2 K_INDEX"
abbreviation TOK_REFERENCES :: token_type where "TOK_REFERENCES \<equiv> KW2 K_REFERENCES"
abbreviation TOK_FOREIGN :: token_type where "TOK_FOREIGN \<equiv> KW2 K_FOREIGN"
abbreviation TOK_CASCADE :: token_type where "TOK_CASCADE \<equiv> KW2 K_CASCADE"
abbreviation TOK_RESTRICT :: token_type where "TOK_RESTRICT \<equiv> KW2 K_RESTRICT"
abbreviation TOK_BEGIN :: token_type where "TOK_BEGIN \<equiv> KW2 K_BEGIN"
abbreviation TOK_COMMIT :: token_type where "TOK_COMMIT \<equiv> KW2 K_COMMIT"
abbreviation TOK_ROLLBACK :: token_type where "TOK_ROLLBACK \<equiv> KW2 K_ROLLBACK"
abbreviation TOK_PREPARE :: token_type where "TOK_PREPARE \<equiv> KW2 K_PREPARE"
abbreviation TOK_EXECUTE :: token_type where "TOK_EXECUTE \<equiv> KW2 K_EXECUTE"
abbreviation TOK_DEALLOCATE :: token_type where "TOK_DEALLOCATE \<equiv> KW2 K_DEALLOCATE"
abbreviation TOK_IN :: token_type where "TOK_IN \<equiv> KW2 K_IN"
abbreviation TOK_EXISTS :: token_type where "TOK_EXISTS \<equiv> KW2 K_EXISTS"
abbreviation TOK_DEFAULT :: token_type where "TOK_DEFAULT \<equiv> KW2 K_DEFAULT"
abbreviation TOK_VACUUM :: token_type where "TOK_VACUUM \<equiv> KW2 K_VACUUM"
abbreviation TOK_EXPLAIN :: token_type where "TOK_EXPLAIN \<equiv> KW2 K_EXPLAIN"
abbreviation TOK_CHECK :: token_type where "TOK_CHECK \<equiv> KW2 K_CHECK"
abbreviation TOK_UNION :: token_type where "TOK_UNION \<equiv> KW2 K_UNION"
abbreviation TOK_INTERSECT :: token_type where "TOK_INTERSECT \<equiv> KW2 K_INTERSECT"
abbreviation TOK_EXCEPT :: token_type where "TOK_EXCEPT \<equiv> KW2 K_EXCEPT"
abbreviation TOK_ALL :: token_type where "TOK_ALL \<equiv> KW2 K_ALL"
abbreviation TOK_OVER :: token_type where "TOK_OVER \<equiv> KW2 K_OVER"
abbreviation TOK_PARTITION :: token_type where "TOK_PARTITION \<equiv> KW2 K_PARTITION"
abbreviation TOK_RANGE :: token_type where "TOK_RANGE \<equiv> KW2 K_RANGE"
abbreviation TOK_HASH :: token_type where "TOK_HASH \<equiv> KW2 K_HASH"
abbreviation TOK_OF :: token_type where "TOK_OF \<equiv> KW2 K_OF"
abbreviation TOK_FOR :: token_type where "TOK_FOR \<equiv> KW2 K_FOR"
abbreviation TOK_WITH :: token_type where "TOK_WITH \<equiv> KW2 K_WITH"
abbreviation TOK_MODULUS :: token_type where "TOK_MODULUS \<equiv> KW2 K_MODULUS"
abbreviation TOK_REMAINDER :: token_type where "TOK_REMAINDER \<equiv> KW2 K_REMAINDER"
abbreviation TOK_FUNCTION :: token_type where "TOK_FUNCTION \<equiv> KW2 K_FUNCTION"
abbreviation TOK_RETURNS :: token_type where "TOK_RETURNS \<equiv> KW2 K_RETURNS"
abbreviation TOK_RETURN :: token_type where "TOK_RETURN \<equiv> KW2 K_RETURN"
abbreviation TOK_PROCEDURE :: token_type where "TOK_PROCEDURE \<equiv> KW2 K_PROCEDURE"
abbreviation TOK_CALL :: token_type where "TOK_CALL \<equiv> KW2 K_CALL"
abbreviation TOK_TRIGGER :: token_type where "TOK_TRIGGER \<equiv> KW2 K_TRIGGER"
abbreviation TOK_BEFORE :: token_type where "TOK_BEFORE \<equiv> KW2 K_BEFORE"
abbreviation TOK_AFTER :: token_type where "TOK_AFTER \<equiv> KW2 K_AFTER"
abbreviation TOK_EACH :: token_type where "TOK_EACH \<equiv> KW2 K_EACH"
abbreviation TOK_ROW :: token_type where "TOK_ROW \<equiv> KW2 K_ROW"

abbreviation TOK_COUNT :: token_type where "TOK_COUNT \<equiv> AGG A_COUNT"
abbreviation TOK_SUM :: token_type where "TOK_SUM \<equiv> AGG A_SUM"
abbreviation TOK_AVG :: token_type where "TOK_AVG \<equiv> AGG A_AVG"
abbreviation TOK_MIN :: token_type where "TOK_MIN \<equiv> AGG A_MIN"
abbreviation TOK_MAX :: token_type where "TOK_MAX \<equiv> AGG A_MAX"

abbreviation TOK_EQUAL :: token_type where "TOK_EQUAL \<equiv> OPR O_EQUAL"
abbreviation TOK_NOT_EQUAL :: token_type where "TOK_NOT_EQUAL \<equiv> OPR O_NOT_EQUAL"
abbreviation TOK_LESS :: token_type where "TOK_LESS \<equiv> OPR O_LESS"
abbreviation TOK_LESS_EQUAL :: token_type where "TOK_LESS_EQUAL \<equiv> OPR O_LESS_EQUAL"
abbreviation TOK_GREATER :: token_type where "TOK_GREATER \<equiv> OPR O_GREATER"
abbreviation TOK_GREATER_EQUAL :: token_type where "TOK_GREATER_EQUAL \<equiv> OPR O_GREATER_EQUAL"
abbreviation TOK_PLUS :: token_type where "TOK_PLUS \<equiv> OPR O_PLUS"
abbreviation TOK_MINUS :: token_type where "TOK_MINUS \<equiv> OPR O_MINUS"
abbreviation TOK_MULTIPLY :: token_type where "TOK_MULTIPLY \<equiv> OPR O_MULTIPLY"
abbreviation TOK_DIVIDE :: token_type where "TOK_DIVIDE \<equiv> OPR O_DIVIDE"
abbreviation TOK_MODULO :: token_type where "TOK_MODULO \<equiv> OPR O_MODULO"

abbreviation TOK_LPAREN :: token_type where "TOK_LPAREN \<equiv> DLM D_LPAREN"
abbreviation TOK_RPAREN :: token_type where "TOK_RPAREN \<equiv> DLM D_RPAREN"
abbreviation TOK_COMMA :: token_type where "TOK_COMMA \<equiv> DLM D_COMMA"
abbreviation TOK_DOT :: token_type where "TOK_DOT \<equiv> DLM D_DOT"
abbreviation TOK_SEMICOLON :: token_type where "TOK_SEMICOLON \<equiv> DLM D_SEMICOLON"
abbreviation TOK_ASTERISK :: token_type where "TOK_ASTERISK \<equiv> DLM D_ASTERISK"
abbreviation TOK_PARAMETER :: token_type where "TOK_PARAMETER \<equiv> DLM D_PARAMETER"

abbreviation TOK_IDENTIFIER :: token_type where "TOK_IDENTIFIER \<equiv> LIT L_IDENTIFIER"
abbreviation TOK_NUMBER :: token_type where "TOK_NUMBER \<equiv> LIT L_NUMBER"
abbreviation TOK_STRING :: token_type where "TOK_STRING \<equiv> LIT L_STRING"
abbreviation TOK_DOLLAR_QUOTED_STRING :: token_type where "TOK_DOLLAR_QUOTED_STRING \<equiv> LIT L_DOLLAR_QUOTED_STRING"
abbreviation TOK_END_OF_INPUT :: token_type where "TOK_END_OF_INPUT \<equiv> LIT L_END_OF_INPUT"
abbreviation TOK_UNKNOWN :: token_type where "TOK_UNKNOWN \<equiv> LIT L_UNKNOWN"

record token =
  tok_type :: token_type
  tok_lexeme :: string
  tok_line :: int
  tok_column :: int

section \<open>Names\<close>

primrec keyword_one_to_string :: "keyword_one \<Rightarrow> string" where
  "keyword_one_to_string K_SELECT = ''SELECT''"
| "keyword_one_to_string K_INSERT = ''INSERT''"
| "keyword_one_to_string K_UPDATE = ''UPDATE''"
| "keyword_one_to_string K_DELETE = ''DELETE''"
| "keyword_one_to_string K_CREATE = ''CREATE''"
| "keyword_one_to_string K_DROP = ''DROP''"
| "keyword_one_to_string K_ALTER = ''ALTER''"
| "keyword_one_to_string K_ADD = ''ADD''"
| "keyword_one_to_string K_COLUMN = ''COLUMN''"
| "keyword_one_to_string K_RENAME = ''RENAME''"
| "keyword_one_to_string K_TO = ''TO''"
| "keyword_one_to_string K_CONSTRAINT = ''CONSTRAINT''"
| "keyword_one_to_string K_PRIMARY = ''PRIMARY''"
| "keyword_one_to_string K_KEY = ''KEY''"
| "keyword_one_to_string K_UNIQUE = ''UNIQUE''"
| "keyword_one_to_string K_BETWEEN = ''BETWEEN''"
| "keyword_one_to_string K_TABLE = ''TABLE''"
| "keyword_one_to_string K_VIEW = ''VIEW''"
| "keyword_one_to_string K_IF = ''IF''"
| "keyword_one_to_string K_FROM = ''FROM''"
| "keyword_one_to_string K_WHERE = ''WHERE''"
| "keyword_one_to_string K_AND = ''AND''"
| "keyword_one_to_string K_OR = ''OR''"
| "keyword_one_to_string K_NOT = ''NOT''"
| "keyword_one_to_string K_JOIN = ''JOIN''"
| "keyword_one_to_string K_INNER = ''INNER''"
| "keyword_one_to_string K_LEFT = ''LEFT''"
| "keyword_one_to_string K_RIGHT = ''RIGHT''"
| "keyword_one_to_string K_FULL = ''FULL''"
| "keyword_one_to_string K_OUTER = ''OUTER''"
| "keyword_one_to_string K_CROSS = ''CROSS''"
| "keyword_one_to_string K_ON = ''ON''"
| "keyword_one_to_string K_GROUP = ''GROUP''"
| "keyword_one_to_string K_BY = ''BY''"
| "keyword_one_to_string K_HAVING = ''HAVING''"
| "keyword_one_to_string K_ORDER = ''ORDER''"
| "keyword_one_to_string K_ASC = ''ASC''"
| "keyword_one_to_string K_DESC = ''DESC''"
| "keyword_one_to_string K_VALUES = ''VALUES''"
| "keyword_one_to_string K_SET = ''SET''"
| "keyword_one_to_string K_NULL_KW = ''NULL''"
| "keyword_one_to_string K_TRUE_KW = ''TRUE''"
| "keyword_one_to_string K_FALSE_KW = ''FALSE''"

primrec keyword_two_to_string :: "keyword_two \<Rightarrow> string" where
  "keyword_two_to_string K_AS = ''AS''"
| "keyword_two_to_string K_DISTINCT = ''DISTINCT''"
| "keyword_two_to_string K_INDEX = ''INDEX''"
| "keyword_two_to_string K_REFERENCES = ''REFERENCES''"
| "keyword_two_to_string K_FOREIGN = ''FOREIGN''"
| "keyword_two_to_string K_CASCADE = ''CASCADE''"
| "keyword_two_to_string K_RESTRICT = ''RESTRICT''"
| "keyword_two_to_string K_BEGIN = ''BEGIN''"
| "keyword_two_to_string K_COMMIT = ''COMMIT''"
| "keyword_two_to_string K_ROLLBACK = ''ROLLBACK''"
| "keyword_two_to_string K_PREPARE = ''PREPARE''"
| "keyword_two_to_string K_EXECUTE = ''EXECUTE''"
| "keyword_two_to_string K_DEALLOCATE = ''DEALLOCATE''"
| "keyword_two_to_string K_IN = ''IN''"
| "keyword_two_to_string K_EXISTS = ''EXISTS''"
| "keyword_two_to_string K_DEFAULT = ''DEFAULT''"
| "keyword_two_to_string K_VACUUM = ''VACUUM''"
| "keyword_two_to_string K_EXPLAIN = ''EXPLAIN''"
| "keyword_two_to_string K_CHECK = ''CHECK''"
| "keyword_two_to_string K_UNION = ''UNION''"
| "keyword_two_to_string K_INTERSECT = ''INTERSECT''"
| "keyword_two_to_string K_EXCEPT = ''EXCEPT''"
| "keyword_two_to_string K_ALL = ''ALL''"
| "keyword_two_to_string K_OVER = ''OVER''"
| "keyword_two_to_string K_PARTITION = ''PARTITION''"
| "keyword_two_to_string K_RANGE = ''RANGE''"
| "keyword_two_to_string K_HASH = ''HASH''"
| "keyword_two_to_string K_OF = ''OF''"
| "keyword_two_to_string K_FOR = ''FOR''"
| "keyword_two_to_string K_WITH = ''WITH''"
| "keyword_two_to_string K_MODULUS = ''MODULUS''"
| "keyword_two_to_string K_REMAINDER = ''REMAINDER''"
| "keyword_two_to_string K_FUNCTION = ''FUNCTION''"
| "keyword_two_to_string K_RETURNS = ''RETURNS''"
| "keyword_two_to_string K_RETURN = ''RETURN''"
| "keyword_two_to_string K_PROCEDURE = ''PROCEDURE''"
| "keyword_two_to_string K_CALL = ''CALL''"
| "keyword_two_to_string K_TRIGGER = ''TRIGGER''"
| "keyword_two_to_string K_BEFORE = ''BEFORE''"
| "keyword_two_to_string K_AFTER = ''AFTER''"
| "keyword_two_to_string K_EACH = ''EACH''"
| "keyword_two_to_string K_ROW = ''ROW''"

primrec aggregate_name_to_string :: "aggregate_name \<Rightarrow> string" where
  "aggregate_name_to_string A_COUNT = ''COUNT''"
| "aggregate_name_to_string A_SUM = ''SUM''"
| "aggregate_name_to_string A_AVG = ''AVG''"
| "aggregate_name_to_string A_MIN = ''MIN''"
| "aggregate_name_to_string A_MAX = ''MAX''"

primrec operator_symbol_to_string :: "operator_symbol \<Rightarrow> string" where
  "operator_symbol_to_string O_EQUAL = ''=''"
| "operator_symbol_to_string O_NOT_EQUAL = ''!=''"
| "operator_symbol_to_string O_LESS = ''<''"
| "operator_symbol_to_string O_LESS_EQUAL = ''<=''"
| "operator_symbol_to_string O_GREATER = ''>''"
| "operator_symbol_to_string O_GREATER_EQUAL = ''>=''"
| "operator_symbol_to_string O_PLUS = ''+''"
| "operator_symbol_to_string O_MINUS = ''-''"
| "operator_symbol_to_string O_MULTIPLY = ''*''"
| "operator_symbol_to_string O_DIVIDE = ''/''"
| "operator_symbol_to_string O_MODULO = ''%''"

primrec delimiter_to_string :: "delimiter \<Rightarrow> string" where
  "delimiter_to_string D_LPAREN = ''(''"
| "delimiter_to_string D_RPAREN = '')''"
| "delimiter_to_string D_COMMA = '',''"
| "delimiter_to_string D_DOT = ''.''"
| "delimiter_to_string D_SEMICOLON = '';''"
| "delimiter_to_string D_ASTERISK = ''*''"
| "delimiter_to_string D_PARAMETER = ''PARAMETER''"

primrec literal_kind_to_string :: "literal_kind \<Rightarrow> string" where
  "literal_kind_to_string L_IDENTIFIER = ''IDENTIFIER''"
| "literal_kind_to_string L_NUMBER = ''NUMBER''"
| "literal_kind_to_string L_STRING = ''STRING''"
| "literal_kind_to_string L_DOLLAR_QUOTED_STRING = ''DOLLAR_QUOTED_STRING''"
| "literal_kind_to_string L_END_OF_INPUT = ''EOF''"
| "literal_kind_to_string L_UNKNOWN = ''UNKNOWN''"

fun token_type_to_string :: "token_type \<Rightarrow> string" where
  "token_type_to_string (KW1 x) = keyword_one_to_string x"
| "token_type_to_string (KW2 x) = keyword_two_to_string x"
| "token_type_to_string (AGG x) = aggregate_name_to_string x"
| "token_type_to_string (OPR x) = operator_symbol_to_string x"
| "token_type_to_string (DLM x) = delimiter_to_string x"
| "token_type_to_string (LIT x) = literal_kind_to_string x"

definition token_to_string :: "token \<Rightarrow> string" where
  "token_to_string t = token_type_to_string (tok_type t) @ [CHR '' '', CHR 0x27] @ tok_lexeme t @ [CHR 0x27]"

end
