(* ===== verification/Lexing.thy ===== *)
theory Lexing
  imports Values Tokens
begin

text \<open>
  \<open>Lexer\<close> of src/src/parser/lexer.cc. The scanner state is the unread rest of the input with the line and column
  counters; \<open>pos_--\<close>, which follows an \<open>advance\<close> over a known character, puts that character back and leaves the
  counters as they are. The loops recurse on the length of the rest, which gives totality. The main result is that
  lexing inverts rendering; the last theorems record how the position counters drift.
\<close>

section \<open>Scanner state\<close>

record lexer =
  lx_rest :: string
  lx_line :: int
  lx_column :: int

definition make_lexer :: "string \<Rightarrow> lexer" where
  "make_lexer input = \<lparr>lx_rest = input, lx_line = 1, lx_column = 1\<rparr>"

definition is_at_end :: "lexer \<Rightarrow> bool" where
  "is_at_end lx = (lx_rest lx = [])"

definition current_char :: "lexer \<Rightarrow> char" where
  "current_char lx = (case lx_rest lx of [] \<Rightarrow> CHR 0x00 | c # _ \<Rightarrow> c)"

definition peek_char :: "nat \<Rightarrow> lexer \<Rightarrow> char" where
  "peek_char offset lx = (if length (lx_rest lx) \<le> offset then CHR 0x00 else lx_rest lx ! offset)"

definition advance :: "lexer \<Rightarrow> lexer" where
  "advance lx =
     (case lx_rest lx of
        [] \<Rightarrow> lx
      | c # cs \<Rightarrow>
          if c = CHR 0x0A then \<lparr>lx_rest = cs, lx_line = lx_line lx + 1, lx_column = 1\<rparr>
          else \<lparr>lx_rest = cs, lx_line = lx_line lx, lx_column = lx_column lx + 1\<rparr>)"

definition is_alpha :: "char \<Rightarrow> bool" where
  "is_alpha c = (let n = (of_char c :: nat) in 97 \<le> n \<and> n \<le> 122 \<or> 65 \<le> n \<and> n \<le> 90 \<or> c = CHR ''_'')"

definition is_alpha_numeric :: "char \<Rightarrow> bool" where
  "is_alpha_numeric c = (is_alpha c \<or> is_digit c)"

lemma length_advance: "\<not> is_at_end lx \<Longrightarrow> length (lx_rest (advance lx)) < length (lx_rest lx)"
  by (auto simp: is_at_end_def advance_def split: list.splits)

lemma length_advance_le: "length (lx_rest (advance lx)) \<le> length (lx_rest lx)"
  by (auto simp: advance_def split: list.splits)

section \<open>Keywords\<close>

definition keyword_table :: "(string \<times> token_type) list" where
  "keyword_table =
    [(''SELECT'', TOK_SELECT), (''INSERT'', TOK_INSERT), (''UPDATE'', TOK_UPDATE), (''DELETE'', TOK_DELETE),
     (''CREATE'', TOK_CREATE), (''DROP'', TOK_DROP), (''ALTER'', TOK_ALTER), (''ADD'', TOK_ADD),
     (''COLUMN'', TOK_COLUMN), (''RENAME'', TOK_RENAME), (''TO'', TOK_TO), (''CONSTRAINT'', TOK_CONSTRAINT),
     (''PRIMARY'', TOK_PRIMARY), (''KEY'', TOK_KEY), (''UNIQUE'', TOK_UNIQUE), (''BETWEEN'', TOK_BETWEEN),
     (''TABLE'', TOK_TABLE), (''VIEW'', TOK_VIEW), (''IF'', TOK_IF), (''FROM'', TOK_FROM),
     (''WHERE'', TOK_WHERE), (''AND'', TOK_AND), (''OR'', TOK_OR), (''NOT'', TOK_NOT), (''JOIN'', TOK_JOIN),
     (''INNER'', TOK_INNER), (''LEFT'', TOK_LEFT), (''RIGHT'', TOK_RIGHT), (''FULL'', TOK_FULL),
     (''OUTER'', TOK_OUTER), (''CROSS'', TOK_CROSS), (''ON'', TOK_ON), (''GROUP'', TOK_GROUP), (''BY'', TOK_BY),
     (''HAVING'', TOK_HAVING), (''ORDER'', TOK_ORDER), (''ASC'', TOK_ASC), (''DESC'', TOK_DESC),
     (''VALUES'', TOK_VALUES), (''SET'', TOK_SET), (''NULL'', TOK_NULL_KW), (''TRUE'', TOK_TRUE_KW),
     (''FALSE'', TOK_FALSE_KW), (''AS'', TOK_AS), (''DISTINCT'', TOK_DISTINCT), (''INDEX'', TOK_INDEX),
     (''REFERENCES'', TOK_REFERENCES), (''FOREIGN'', TOK_FOREIGN), (''CASCADE'', TOK_CASCADE),
     (''RESTRICT'', TOK_RESTRICT), (''BEGIN'', TOK_BEGIN), (''COMMIT'', TOK_COMMIT),
     (''ROLLBACK'', TOK_ROLLBACK), (''PREPARE'', TOK_PREPARE), (''EXECUTE'', TOK_EXECUTE),
     (''DEALLOCATE'', TOK_DEALLOCATE), (''IN'', TOK_IN), (''EXISTS'', TOK_EXISTS), (''DEFAULT'', TOK_DEFAULT),
     (''VACUUM'', TOK_VACUUM), (''EXPLAIN'', TOK_EXPLAIN), (''CHECK'', TOK_CHECK), (''UNION'', TOK_UNION),
     (''INTERSECT'', TOK_INTERSECT), (''EXCEPT'', TOK_EXCEPT), (''ALL'', TOK_ALL), (''OVER'', TOK_OVER),
     (''PARTITION'', TOK_PARTITION), (''RANGE'', TOK_RANGE), (''HASH'', TOK_HASH), (''OF'', TOK_OF),
     (''FOR'', TOK_FOR), (''WITH'', TOK_WITH), (''MODULUS'', TOK_MODULUS), (''REMAINDER'', TOK_REMAINDER),
     (''FUNCTION'', TOK_FUNCTION), (''RETURNS'', TOK_RETURNS), (''RETURN'', TOK_RETURN),
     (''PROCEDURE'', TOK_PROCEDURE), (''CALL'', TOK_CALL), (''TRIGGER'', TOK_TRIGGER), (''BEFORE'', TOK_BEFORE),
     (''AFTER'', TOK_AFTER), (''EACH'', TOK_EACH), (''ROW'', TOK_ROW), (''COUNT'', TOK_COUNT),
     (''SUM'', TOK_SUM), (''AVG'', TOK_AVG), (''MIN'', TOK_MIN), (''MAX'', TOK_MAX)]"

definition get_keyword_token_type :: "string \<Rightarrow> token_type" where
  "get_keyword_token_type keyword =
     (case map_of keyword_table (map to_upper keyword) of None \<Rightarrow> TOK_IDENTIFIER | Some t \<Rightarrow> t)"

section \<open>Scanning loops\<close>

function skip_whitespace :: "lexer \<Rightarrow> lexer" where
  "skip_whitespace lx = (if \<not> is_at_end lx \<and> is_space (current_char lx) then skip_whitespace (advance lx) else lx)"
  by pat_completeness auto
termination
  by (relation "measure (\<lambda>lx. length (lx_rest lx))") (simp_all add: length_advance)

function skip_comment :: "lexer \<Rightarrow> lexer" where
  "skip_comment lx = (if \<not> is_at_end lx \<and> current_char lx \<noteq> CHR 0x0A then skip_comment (advance lx) else lx)"
  by pat_completeness auto
termination
  by (relation "measure (\<lambda>lx. length (lx_rest lx))") (simp_all add: length_advance)

function scan_while :: "(char \<Rightarrow> bool) \<Rightarrow> string \<Rightarrow> lexer \<Rightarrow> string \<times> lexer" where
  "scan_while p acc lx =
     (if \<not> is_at_end lx \<and> p (current_char lx) then scan_while p (acc @ [current_char lx]) (advance lx) else (acc, lx))"
  by pat_completeness auto
termination
  by (relation "measure (\<lambda>(_, _, lx). length (lx_rest lx))") (simp_all add: length_advance)

definition escaped_char :: "char \<Rightarrow> char" where
  "escaped_char c =
     (if c = CHR ''n'' then CHR 0x0A else if c = CHR ''t'' then CHR 0x09 else if c = CHR ''r'' then CHR 0x0D else c)"

definition string_newline :: "lexer \<Rightarrow> lexer" where
  "string_newline lx =
     (if current_char lx = CHR 0x0A then lx\<lparr>lx_line := lx_line lx + 1, lx_column := 0\<rparr> else lx)"

lemma string_newline_rest [simp]: "lx_rest (string_newline lx) = lx_rest lx" "is_at_end (string_newline lx) = is_at_end lx"
  by (simp_all add: string_newline_def is_at_end_def)

lemma length_advance_newline: "\<not> is_at_end lx \<Longrightarrow> length (lx_rest (advance (string_newline lx))) < length (lx_rest lx)"
  using length_advance [of "string_newline lx"] by simp

lemma length_advance_twice: "\<not> is_at_end lx \<Longrightarrow> length (lx_rest (advance (advance lx))) < length (lx_rest lx)"
  by (rule le_less_trans [OF length_advance_le length_advance])

function scan_string :: "char \<Rightarrow> string \<Rightarrow> lexer \<Rightarrow> string \<times> lexer" where
  "scan_string quote acc lx =
     (if is_at_end lx then (acc, lx)
      else if current_char lx = quote then
        (if peek_char 1 lx = quote then scan_string quote (acc @ [quote]) (advance (advance lx))
         else (acc, advance lx))
      else if current_char lx = CHR 0x5C then
        (let lx1 = advance lx in
         if is_at_end lx1 then scan_string quote acc lx1
         else scan_string quote (acc @ [escaped_char (current_char lx1)]) (advance lx1))
      else scan_string quote (acc @ [current_char lx]) (advance (string_newline lx)))"
  by pat_completeness auto
termination
  by (relation "measure (\<lambda>(_, _, lx). length (lx_rest lx))")
    (simp_all add: length_advance length_advance_newline length_advance_twice)

function scan_dollar :: "string \<Rightarrow> lexer \<Rightarrow> string option \<times> lexer" where
  "scan_dollar acc lx =
     (if is_at_end lx then (None, lx)
      else if current_char lx = CHR ''$'' \<and> peek_char 1 lx = CHR ''$'' then (Some acc, advance (advance lx))
      else scan_dollar (acc @ [current_char lx]) (advance (string_newline lx)))"
  by pat_completeness auto
termination
  by (relation "measure (\<lambda>(_, lx). length (lx_rest lx))") (simp_all add: length_advance_newline)

declare skip_whitespace.simps [simp del] skip_comment.simps [simp del] scan_while.simps [simp del]
  scan_string.simps [simp del] scan_dollar.simps [simp del]

section \<open>Tokens\<close>

definition mk_token :: "token_type \<Rightarrow> string \<Rightarrow> int \<Rightarrow> int \<Rightarrow> token" where
  "mk_token t lexeme line column = \<lparr>tok_type = t, tok_lexeme = lexeme, tok_line = line, tok_column = column\<rparr>"

definition make_token :: "token_type \<Rightarrow> string \<Rightarrow> lexer \<Rightarrow> token" where
  "make_token t lexeme lx = mk_token t lexeme (lx_line lx) (lx_column lx - int (length lexeme))"

definition scan_fraction_part :: "string \<Rightarrow> lexer \<Rightarrow> string \<times> lexer" where
  "scan_fraction_part number lx =
     (if \<not> is_at_end lx \<and> current_char lx = CHR ''.'' \<and> is_digit (peek_char 1 lx)
      then scan_while is_digit (number @ [current_char lx]) (advance lx) else (number, lx))"

definition scan_exponent_part :: "string \<Rightarrow> lexer \<Rightarrow> string \<times> lexer" where
  "scan_exponent_part number lx =
     (if \<not> is_at_end lx \<and> (current_char lx = CHR ''e'' \<or> current_char lx = CHR ''E'') then
        (let number1 = number @ [current_char lx]; lx1 = advance lx in
         if \<not> is_at_end lx1 \<and> (current_char lx1 = CHR ''+'' \<or> current_char lx1 = CHR ''-'')
         then scan_while is_digit (number1 @ [current_char lx1]) (advance lx1)
         else scan_while is_digit number1 lx1)
      else (number, lx))"

definition scan_number :: "lexer \<Rightarrow> token \<times> lexer" where
  "scan_number lx =
     (let (n1, lx1) = scan_while is_digit [] lx;
          (n2, lx2) = scan_fraction_part n1 lx1;
          (n3, lx3) = scan_exponent_part n2 lx2
      in (mk_token TOK_NUMBER n3 (lx_line lx3) (lx_column lx), lx3))"

definition scan_identifier :: "lexer \<Rightarrow> token \<times> lexer" where
  "scan_identifier lx =
     (let (identifier, lx1) = scan_while is_alpha_numeric [] lx
      in (mk_token (get_keyword_token_type identifier) identifier (lx_line lx1) (lx_column lx), lx1))"

text \<open>The character tables of the \<open>switch\<close> in \<open>scan_token\<close> for one-character tokens.\<close>

definition single_table :: "(char \<times> token_type) list" where
  "single_table =
     [(CHR ''='', TOK_EQUAL), (CHR ''+'', TOK_PLUS), (CHR ''-'', TOK_MINUS), (CHR ''*'', TOK_ASTERISK),
      (CHR ''/'', TOK_DIVIDE), (CHR ''%'', TOK_MODULO), (CHR ''('', TOK_LPAREN), (CHR '')'', TOK_RPAREN),
      (CHR '','', TOK_COMMA), (CHR ''.'', TOK_DOT), (CHR '';'', TOK_SEMICOLON), (CHR ''?'', TOK_PARAMETER)]"

definition scan_parameter :: "(lexer, token) proc" where
  "scan_parameter lx =
     (if \<not> is_at_end lx \<and> current_char lx = CHR ''$'' then
        (let lx1 = advance lx in
         case scan_dollar [] lx1 of
           (None, lx2) \<Rightarrow>
             (Inl (ParseException (''Unclosed dollar-quoted string starting at line '' @ int_to_text (lx_line lx1))), lx2)
         | (Some s, lx2) \<Rightarrow> (Inr (mk_token TOK_DOLLAR_QUOTED_STRING s (lx_line lx1) (lx_column lx1 - 2)), lx2))
      else if \<not> is_digit (current_char lx) then (Inr (mk_token TOK_UNKNOWN ''$'' (lx_line lx) (lx_column lx)), lx)
      else
        (let (lexeme, lx1) = scan_while is_digit ''$'' lx
         in (Inr (mk_token TOK_PARAMETER lexeme (lx_line lx1) (lx_column lx - 1)), lx1)))"

definition scan_symbol :: "char \<Rightarrow> (lexer, token) proc" where
  "scan_symbol c lx =
     (case map_of single_table c of
        Some t \<Rightarrow> (Inr (make_token t [c] lx), lx)
      | None \<Rightarrow>
          if c = CHR ''<'' then
            (if current_char lx = CHR ''='' then (Inr (make_token TOK_LESS_EQUAL ''<='' (advance lx)), advance lx)
             else if current_char lx = CHR ''>'' then (Inr (make_token TOK_NOT_EQUAL ''<>'' (advance lx)), advance lx)
             else (Inr (make_token TOK_LESS ''<'' lx), lx))
          else if c = CHR ''>'' then
            (if current_char lx = CHR ''='' then (Inr (make_token TOK_GREATER_EQUAL ''>='' (advance lx)), advance lx)
             else (Inr (make_token TOK_GREATER ''>'' lx), lx))
          else if c = CHR ''!'' \<and> current_char lx = CHR ''=''
          then (Inr (make_token TOK_NOT_EQUAL ''!='' (advance lx)), advance lx)
          else if c = CHR ''$'' then scan_parameter lx
          else (Inr (mk_token TOK_UNKNOWN [c] (lx_line lx) (lx_column lx)), lx))"

definition back_up :: "char \<Rightarrow> lexer \<Rightarrow> lexer" where
  "back_up c lx = lx\<lparr>lx_rest := c # lx_rest lx\<rparr>"

definition scan_token :: "(lexer, token) proc" where
  "scan_token lx =
     (let c = current_char lx; lx1 = advance lx in
      if c = CHR 0x27 \<or> c = CHR 0x22 then
        (let (s, lx2) = scan_string c [] lx1 in (Inr (mk_token TOK_STRING s (lx_line lx1) (lx_column lx1)), lx2))
      else if is_digit c then (let (t, lx2) = scan_number (back_up c lx1) in (Inr t, lx2))
      else if is_alpha c \<or> c = CHR ''_'' then (let (t, lx2) = scan_identifier (back_up c lx1) in (Inr t, lx2))
      else scan_symbol c lx1)"

section \<open>Progress\<close>

lemma length_skip_whitespace: "length (lx_rest (skip_whitespace lx)) \<le> length (lx_rest lx)"
proof (induction lx rule: skip_whitespace.induct)
  case (1 lx)
  then show ?case using length_advance_le [of lx] by (subst skip_whitespace.simps) auto
qed

lemma length_skip_comment: "length (lx_rest (skip_comment lx)) \<le> length (lx_rest lx)"
proof (induction lx rule: skip_comment.induct)
  case (1 lx)
  then show ?case using length_advance_le [of lx] by (subst skip_comment.simps) auto
qed

lemma length_skip_comment_less:
  "\<not> is_at_end lx \<Longrightarrow> current_char lx \<noteq> CHR 0x0A \<Longrightarrow> length (lx_rest (skip_comment lx)) < length (lx_rest lx)"
  using length_advance [of lx] length_skip_comment [of "advance lx"] by (subst skip_comment.simps) auto

lemma length_scan_while: "length (lx_rest (snd (scan_while p acc lx))) \<le> length (lx_rest lx)"
proof (induction p acc lx rule: scan_while.induct)
  case (1 p acc lx)
  then show ?case using length_advance_le [of lx] by (subst scan_while.simps) auto
qed

lemma length_scan_while_less:
  "\<not> is_at_end lx \<Longrightarrow> p (current_char lx) \<Longrightarrow> length (lx_rest (snd (scan_while p acc lx))) < length (lx_rest lx)"
  using length_advance [of lx] length_scan_while [of p "acc @ [current_char lx]" "advance lx"] by (subst scan_while.simps) auto

lemma length_scan_string: "length (lx_rest (snd (scan_string q acc lx))) \<le> length (lx_rest lx)"
proof (induction q acc lx rule: scan_string.induct)
  case (1 q acc lx)
  have l: "length (lx_rest (advance lx)) \<le> length (lx_rest lx)" "length (lx_rest (advance (advance lx))) \<le> length (lx_rest lx)"
    "length (lx_rest (advance (string_newline lx))) \<le> length (lx_rest lx)"
    using length_advance_le order.trans by (metis length_advance_le order.trans string_newline_rest(1))+
  show ?case using 1 l by (subst scan_string.simps) (auto simp: Let_def)
qed

lemma length_scan_dollar: "length (lx_rest (snd (scan_dollar acc lx))) \<le> length (lx_rest lx)"
proof (induction acc lx rule: scan_dollar.induct)
  case (1 acc lx)
  have l: "length (lx_rest (advance (advance lx))) \<le> length (lx_rest lx)"
    "length (lx_rest (advance (string_newline lx))) \<le> length (lx_rest lx)"
    by (metis length_advance_le order.trans string_newline_rest(1))+
  show ?case using 1 l by (subst scan_dollar.simps) auto
qed

lemma length_fraction: "length (lx_rest (snd (scan_fraction_part n lx))) \<le> length (lx_rest lx)"
  using length_scan_while [of is_digit "n @ [current_char lx]" "advance lx"] length_advance_le [of lx]
  by (auto simp: scan_fraction_part_def)

lemma length_exponent: "length (lx_rest (snd (scan_exponent_part n lx))) \<le> length (lx_rest lx)"
proof -
  have "length (lx_rest (snd (scan_while is_digit a (advance lx)))) \<le> length (lx_rest lx)"
    "length (lx_rest (snd (scan_while is_digit a (advance (advance lx))))) \<le> length (lx_rest lx)" for a
    using length_scan_while length_advance_le by (meson order.trans)+
  then show ?thesis by (auto simp: scan_exponent_part_def Let_def)
qed

lemma length_scan_number:
  assumes "\<not> is_at_end lx" and "is_digit (current_char lx)"
  shows "length (lx_rest (snd (scan_number lx))) < length (lx_rest lx)"
proof -
  obtain n1 lx1 where 1: "scan_while is_digit [] lx = (n1, lx1)" by (cases "scan_while is_digit [] lx")
  obtain n2 lx2 where 2: "scan_fraction_part n1 lx1 = (n2, lx2)" by (cases "scan_fraction_part n1 lx1")
  obtain n3 lx3 where 3: "scan_exponent_part n2 lx2 = (n3, lx3)" by (cases "scan_exponent_part n2 lx2")
  show ?thesis
    using length_scan_while_less [of lx is_digit "[]"] length_fraction [of n1 lx1] length_exponent [of n2 lx2] assms
    by (simp add: scan_number_def 1 2 3)
qed

lemma length_scan_identifier:
  assumes "\<not> is_at_end lx" and "is_alpha_numeric (current_char lx)"
  shows "length (lx_rest (snd (scan_identifier lx))) < length (lx_rest lx)"
  using length_scan_while_less [of lx is_alpha_numeric "[]"] assms
  by (auto simp: scan_identifier_def split: prod.splits)

lemma length_scan_parameter: "length (lx_rest (snd (scan_parameter lx))) \<le> length (lx_rest lx)"
  using order.trans [OF length_scan_dollar [of "[]" "advance lx"] length_advance_le [of lx]]
    length_scan_while [of is_digit "''$''" lx]
  by (auto simp: scan_parameter_def Let_def split: option.splits prod.splits)

lemma length_scan_symbol: "length (lx_rest (snd (scan_symbol c lx))) \<le> length (lx_rest lx)"
  using length_scan_parameter [of lx] length_advance_le [of lx] by (auto simp: scan_symbol_def split: option.splits)

lemma back_up_simps:
  "\<not> is_at_end (back_up c lx)" "current_char (back_up c lx) = c"
  "\<not> is_at_end lx \<Longrightarrow> length (lx_rest (back_up (current_char lx) (advance lx))) = length (lx_rest lx)"
  by (auto simp: back_up_def is_at_end_def current_char_def advance_def split: list.splits)

lemma length_scan_token:
  assumes "\<not> is_at_end lx"
  shows "length (lx_rest (snd (scan_token lx))) < length (lx_rest lx)"
proof -
  let ?c = "current_char lx" let ?lx = "advance lx" let ?b = "back_up ?c ?lx"
  note less = length_advance [OF assms] and b = back_up_simps(1,2) [of ?c ?lx] back_up_simps(3) [OF assms]
  consider "?c = CHR 0x27 \<or> ?c = CHR 0x22" | "\<not> (?c = CHR 0x27 \<or> ?c = CHR 0x22)" "is_digit ?c"
    | "\<not> (?c = CHR 0x27 \<or> ?c = CHR 0x22)" "\<not> is_digit ?c" "is_alpha ?c \<or> ?c = CHR ''_''"
    | "\<not> (?c = CHR 0x27 \<or> ?c = CHR 0x22)" "\<not> is_digit ?c" "\<not> (is_alpha ?c \<or> ?c = CHR ''_'')" by blast
  then show ?thesis
  proof cases
    case 1
    then show ?thesis using length_scan_string [of ?c "[]" ?lx] less by (auto simp: scan_token_def Let_def split: prod.splits)
  next
    case 2
    then show ?thesis using length_scan_number [of ?b] b by (auto simp: scan_token_def Let_def split: prod.splits)
  next
    case 3
    then have "is_alpha_numeric ?c" by (auto simp: is_alpha_numeric_def is_alpha_def)
    then show ?thesis using 3 length_scan_identifier [of ?b] b by (auto simp: scan_token_def Let_def split: prod.splits)
  next
    case 4
    then show ?thesis using length_scan_symbol [of ?c ?lx] less by (simp add: scan_token_def Let_def)
  qed
qed

section \<open>The token list\<close>

function tokenize_loop :: "token list \<Rightarrow> (lexer, token list) proc" where
  "tokenize_loop tokens lx =
     (if is_at_end lx then (Inr tokens, lx)
      else
        let lx1 = skip_whitespace lx in
        if is_at_end lx1 then (Inr tokens, lx1)
        else if current_char lx1 = CHR ''-'' \<and> peek_char 1 lx1 = CHR ''-'' then tokenize_loop tokens (skip_comment lx1)
        else case scan_token lx1 of
          (Inl e, lx2) \<Rightarrow> (Inl e, lx2)
        | (Inr t, lx2) \<Rightarrow>
            tokenize_loop (if tok_type t \<noteq> TOK_UNKNOWN \<or> tok_lexeme t \<noteq> [] then tokens @ [t] else tokens) lx2)"
  by pat_completeness auto
termination
proof (relation "measure (\<lambda>(_, lx). length (lx_rest lx))", goal_cases)
  case (2 tokens lx lx1)
  then show ?case using length_skip_whitespace [of lx] length_skip_comment_less [of lx1] by auto
next
  case (3 tokens lx lx1 y z t)
  then have "snd (scan_token lx1) = z" by (metis snd_conv)
  then show ?case using 3 length_skip_whitespace [of lx] length_scan_token [of lx1] by auto
qed simp

declare tokenize_loop.simps [simp del]

definition tokenize :: "(lexer, token list) proc" where
  "tokenize = bindM (tokenize_loop []) (\<lambda>tokens lx.
     (Inr (tokens @ [mk_token TOK_END_OF_INPUT [] (lx_line lx) (lx_column lx)]), lx))"

section \<open>The token cursor\<close>

record lexer_cursor =
  cur_input :: string
  cur_lexer :: lexer
  cur_tokens :: "token list"
  cur_index :: nat
  cur_tokenized :: bool

definition make_lexer_cursor :: "string \<Rightarrow> lexer_cursor" where
  "make_lexer_cursor input =
     \<lparr>cur_input = input, cur_lexer = make_lexer input, cur_tokens = [], cur_index = 0, cur_tokenized = False\<rparr>"

definition ensure_tokenized :: "(lexer_cursor, unit) proc" where
  "ensure_tokenized cu =
     (if cur_tokenized cu then (Inr (), cu)
      else case tokenize (cur_lexer cu) of
        (Inl e, lx) \<Rightarrow> (Inl e, cu\<lparr>cur_lexer := lx\<rparr>)
      | (Inr ts, lx) \<Rightarrow> (Inr (), cu\<lparr>cur_lexer := lx, cur_tokens := ts, cur_tokenized := True\<rparr>))"

definition end_token :: "lexer_cursor \<Rightarrow> token" where
  "end_token cu = mk_token TOK_END_OF_INPUT [] (lx_line (cur_lexer cu)) (lx_column (cur_lexer cu))"

definition next_token :: "(lexer_cursor, token) proc" where
  "next_token = bindM ensure_tokenized (\<lambda>_ cu.
     if cur_index cu < length (cur_tokens cu)
     then (Inr (cur_tokens cu ! cur_index cu), cu\<lparr>cur_index := cur_index cu + 1\<rparr>)
     else (Inr (end_token cu), cu))"

definition peek_token :: "int \<Rightarrow> (lexer_cursor, token) proc" where
  "peek_token offset = bindM ensure_tokenized (\<lambda>_ cu.
     let i = (int (cur_index cu) + offset) mod 2 ^ 64 in
     if i < int (length (cur_tokens cu)) then (Inr (cur_tokens cu ! nat i), cu) else (Inr (end_token cu), cu))"

definition has_more_tokens :: "lexer_cursor \<Rightarrow> bool" where
  "has_more_tokens cu =
     (if \<not> cur_tokenized cu then cur_input cu \<noteq> [] else cur_index cu < length (cur_tokens cu))"

definition get_all_tokens :: "(lexer_cursor, token list) proc" where
  "get_all_tokens = bindM ensure_tokenized (\<lambda>_ cu. (Inr (cur_tokens cu), cu))"

section \<open>Rendering\<close>

text \<open>How a token is written back: strings in single quotes with quotes and backslashes doubled, every other token as
  its lexeme.\<close>

definition escape_text :: "string \<Rightarrow> string" where
  "escape_text s = concat (map (\<lambda>c. if c = CHR 0x27 \<or> c = CHR 0x5C then [c, c] else [c]) s)"

definition token_text :: "token_type \<times> string \<Rightarrow> string" where
  "token_text = (\<lambda>(t, lexeme). if t = TOK_STRING then CHR 0x27 # escape_text lexeme @ [CHR 0x27] else lexeme)"

definition render :: "(token_type \<times> string) list \<Rightarrow> string" where
  "render ts = concat (map (\<lambda>t. token_text t @ '' '') ts)"

definition symbol_tokens :: "(token_type \<times> string) list" where
  "symbol_tokens =
     map (\<lambda>(c, t). (t, [c])) single_table @
     [(TOK_LESS, ''<''), (TOK_LESS_EQUAL, ''<=''), (TOK_NOT_EQUAL, ''<>''), (TOK_NOT_EQUAL, ''!=''),
      (TOK_GREATER, ''>''), (TOK_GREATER_EQUAL, ''>='')]"

definition word_lexeme :: "string \<Rightarrow> bool" where
  "word_lexeme s = (s \<noteq> [] \<and> is_alpha (hd s) \<and> list_all is_alpha_numeric s)"

definition number_lexeme :: "string \<Rightarrow> bool" where
  "number_lexeme s =
     (let w = takeWhile is_digit s; r = dropWhile is_digit s in
      w \<noteq> [] \<and> (r = [] \<or> hd r = CHR ''.'' \<and> tl r \<noteq> [] \<and> list_all is_digit (tl r)))"

definition renderable :: "token_type \<times> string \<Rightarrow> bool" where
  "renderable = (\<lambda>(t, lexeme).
     t = TOK_STRING \<or> t = TOK_NUMBER \<and> number_lexeme lexeme \<or>
     word_lexeme lexeme \<and> t = get_keyword_token_type lexeme \<or> (t, lexeme) \<in> set symbol_tokens)"

definition scans_as :: "lexer \<Rightarrow> token_type \<times> string \<Rightarrow> string \<Rightarrow> bool" where
  "scans_as lx e r =
     (\<exists>tok lx'. scan_token lx = (Inr tok, lx') \<and> (tok_type tok, tok_lexeme tok) = e \<and> lx_rest lx' = r)"

definition unclosed_dollar :: "db_error \<Rightarrow> bool" where
  "unclosed_dollar e = (\<exists>n. e = ParseException (''Unclosed dollar-quoted string starting at line '' @ int_to_text n))"

definition token_or_unclosed :: "token result \<Rightarrow> bool" where
  "token_or_unclosed r = (case r of Inl e \<Rightarrow> unclosed_dollar e | Inr t \<Rightarrow> tok_type t \<noteq> TOK_END_OF_INPUT)"

section \<open>Scanning what was rendered\<close>

lemma char_facts:
  "is_space (CHR '' '')" "\<not> is_digit (CHR '' '')" "\<not> is_alpha_numeric (CHR '' '')" "\<not> is_digit (CHR ''.'')"
  by (simp_all add: is_space_def is_digit_def is_alpha_numeric_def is_alpha_def)

lemma alnum_cases: "is_alpha c \<Longrightarrow> \<not> is_digit c \<and> \<not> is_space c \<and> c \<noteq> CHR 0x27 \<and> c \<noteq> CHR 0x22 \<and> c \<noteq> CHR ''-''"
  by (auto simp: is_alpha_def is_digit_def is_space_def Let_def)

lemma digit_cases: "is_digit c \<Longrightarrow> \<not> is_space c \<and> c \<noteq> CHR 0x27 \<and> c \<noteq> CHR 0x22 \<and> c \<noteq> CHR ''-''"
  by (auto simp: is_digit_def is_space_def Let_def)

lemma rest_advance [simp]: "lx_rest (advance lx) = tl (lx_rest lx)"
  by (simp add: advance_def split: list.splits)

lemma scan_while_rest:
  assumes "lx_rest lx = w @ r" and "list_all p w" and "r = [] \<or> \<not> p (hd r)"
  obtains lx' where "scan_while p acc lx = (acc @ w, lx')" "lx_rest lx' = r"
  using assms
proof (induction w arbitrary: acc lx thesis)
  case Nil
  have "scan_while p acc lx = (acc, lx)"
    using Nil(2,4) by (cases r) (simp_all add: scan_while.simps [of p acc lx] is_at_end_def current_char_def)
  then show ?case using Nil(1) [of lx] Nil(2) by simp
next
  case (Cons c w)
  have c: "\<not> is_at_end lx" "current_char lx = c" "p c" "lx_rest (advance lx) = w @ r"
    using Cons.prems by (simp_all add: is_at_end_def current_char_def)
  obtain lx' where "scan_while p (acc @ [c]) (advance lx) = ((acc @ [c]) @ w, lx')" "lx_rest lx' = r"
    by (rule Cons.IH [OF _ c(4), of "acc @ [c]"]) (use Cons.prems(3,4) that in auto)
  then show ?case using Cons.prems(1) [of lx'] c by (simp add: scan_while.simps [of p acc lx])
qed

lemma skip_whitespace_one:
  assumes "lx_rest lx = s @ CHR '' '' # r" and "s = []" and "r = [] \<or> \<not> is_space (hd r)"
  shows "lx_rest (skip_whitespace lx) = r"
  using assms char_facts(1)
  by (subst skip_whitespace.simps, subst skip_whitespace.simps)
    (auto simp: is_at_end_def current_char_def split: list.splits)

lemma skip_whitespace_none: "is_at_end lx \<or> \<not> is_space (current_char lx) \<Longrightarrow> skip_whitespace lx = lx"
  by (subst skip_whitespace.simps) auto

lemma scan_string_rest:
  assumes "lx_rest lx = escape_text s @ CHR 0x27 # r" and "r = [] \<or> hd r \<noteq> CHR 0x27"
  obtains lx' where "scan_string (CHR 0x27) acc lx = (acc @ s, lx')" "lx_rest lx' = r"
  using assms
proof (induction s arbitrary: acc lx thesis)
  case Nil
  have lx: "lx_rest lx = CHR 0x27 # r" using Nil(2) by (simp add: escape_text_def)
  then have "peek_char 1 lx \<noteq> CHR 0x27" using Nil(3) by (cases r) (simp_all add: peek_char_def)
  then have "scan_string (CHR 0x27) acc lx = (acc, advance lx)"
    using lx by (simp add: scan_string.simps [of _ acc lx] is_at_end_def current_char_def)
  then show ?case using Nil(1) [of "advance lx"] lx by simp
next
  case (Cons c s)
  have lx: "\<not> is_at_end lx" "lx_rest lx \<noteq> []" using Cons.prems by (auto simp: escape_text_def is_at_end_def)
  obtain lx1 where lx1: "scan_string (CHR 0x27) acc lx = scan_string (CHR 0x27) (acc @ [c]) lx1"
    "lx_rest lx1 = escape_text s @ CHR 0x27 # r"
  proof (cases "c = CHR 0x27 \<or> c = CHR 0x5C")
    case True
    then have "lx_rest lx = c # c # escape_text s @ CHR 0x27 # r" using Cons.prems(2) by (simp add: escape_text_def)
    then show thesis
      using True that [of "advance (advance lx)"]
      by (auto simp: scan_string.simps [of "CHR 0x27" acc lx] is_at_end_def current_char_def peek_char_def escaped_char_def Let_def)
  next
    case False
    then have "lx_rest lx = c # escape_text s @ CHR 0x27 # r" using Cons.prems(2) by (simp add: escape_text_def)
    then show thesis
      using False that [of "advance (string_newline lx)"]
      by (simp add: scan_string.simps [of "CHR 0x27" acc lx] is_at_end_def current_char_def)
  qed
  obtain lx' where "scan_string (CHR 0x27) (acc @ [c]) lx1 = ((acc @ [c]) @ s, lx')" "lx_rest lx' = r"
    by (rule Cons.IH [OF _ lx1(2) Cons.prems(3), of "acc @ [c]"]) (use that in auto)
  then show ?case using Cons.prems(1) [of lx'] lx1(1) by simp
qed

lemma advance_back_up:
  "lx_rest lx = c # cs \<Longrightarrow> lx_rest (back_up c (advance lx)) = c # cs" by (simp add: back_up_def)

lemma scan_word:
  assumes "lx_rest lx = s @ CHR '' '' # r" and "word_lexeme s"
  shows "scans_as lx (get_keyword_token_type s, s) (CHR '' '' # r)"
proof -
  obtain c cs where s: "s = c # cs" "is_alpha c" "list_all is_alpha_numeric s" using assms(2) by (cases s) (auto simp: word_lexeme_def)
  note cc = alnum_cases [OF s(2)]
  have cur: "current_char lx = c" using assms(1) s(1) by (simp add: current_char_def)
  let ?lx = "back_up c (advance lx)"
  have "lx_rest ?lx = s @ CHR '' '' # r" using assms(1) s(1) by (simp add: back_up_def)
  then obtain lx' where "scan_while is_alpha_numeric [] ?lx = ([] @ s, lx')" "lx_rest lx' = CHR '' '' # r"
    by (rule scan_while_rest [OF _ s(3), where acc = "[]"]) (use char_facts(3) in auto)
  then show ?thesis
    using cc cur s(2) by (auto simp: scans_as_def scan_token_def Let_def scan_identifier_def mk_token_def)
qed

lemma scan_fraction_rest:
  assumes "lx_rest lx = f @ CHR '' '' # r" and "f = [] \<or> hd f = CHR ''.'' \<and> tl f \<noteq> [] \<and> list_all is_digit (tl f)"
  obtains lx' where "scan_fraction_part n lx = (n @ f, lx')" "lx_rest lx' = CHR '' '' # r"
proof (cases f)
  case Nil
  then have "current_char lx = CHR '' ''" using assms(1) by (simp add: current_char_def)
  then show thesis using that [of lx] assms(1) Nil by (simp add: scan_fraction_part_def)
next
  case (Cons c ds)
  obtain d ds' where ds: "ds = d # ds'" "is_digit d" "list_all is_digit ds" "c = CHR ''.''" using assms(2) Cons by (cases ds) auto
  have lx: "\<not> is_at_end lx" "current_char lx = CHR ''.''" "is_digit (peek_char 1 lx)" "lx_rest (advance lx) = ds @ CHR '' '' # r"
    using assms(1) Cons ds by (simp_all add: is_at_end_def current_char_def peek_char_def)
  obtain lx' where "scan_while is_digit (n @ [CHR ''.'']) (advance lx) = ((n @ [CHR ''.'']) @ ds, lx')" "lx_rest lx' = CHR '' '' # r"
    by (rule scan_while_rest [OF lx(4) ds(3), where acc = "n @ [CHR ''.'']"]) (use char_facts(2) in auto)
  then show thesis using that [of lx'] lx Cons ds(4) by (simp add: scan_fraction_part_def)
qed

lemma scan_digits:
  assumes "lx_rest lx = s @ CHR '' '' # r" and "number_lexeme s"
  shows "scans_as lx (TOK_NUMBER, s) (CHR '' '' # r)"
proof -
  let ?w = "takeWhile is_digit s" and ?f = "dropWhile is_digit s"
  have w: "?w \<noteq> []" and f: "?f = [] \<or> hd ?f = CHR ''.'' \<and> tl ?f \<noteq> [] \<and> list_all is_digit (tl ?f)" and
    all: "list_all is_digit ?w" using assms(2) by (auto simp: number_lexeme_def Let_def list_all_iff dest: set_takeWhileD)
  have nd: "\<not> is_digit (hd (?f @ CHR '' '' # r))"
    using f by (metis append_Nil char_facts(2,4) hd_append2 list.sel(1))
  obtain c cs where s: "s = c # cs" "is_digit c" using w by (cases s) (auto split: if_splits)
  note cc = digit_cases [OF s(2)]
  have cur: "current_char lx = c" using assms(1) s(1) by (simp add: current_char_def)
  let ?lx = "back_up c (advance lx)"
  have "lx_rest ?lx = ?w @ (?f @ CHR '' '' # r)" using assms(1) s(1) by (simp add: back_up_def)
  then obtain lx1 where 1: "scan_while is_digit [] ?lx = ([] @ ?w, lx1)" "lx_rest lx1 = ?f @ CHR '' '' # r"
    by (rule scan_while_rest [OF _ all, where acc = "[]"]) (use nd in simp_all)
  obtain lx2 where 2: "scan_fraction_part ?w lx1 = (?w @ ?f, lx2)" "lx_rest lx2 = CHR '' '' # r"
    by (rule scan_fraction_rest [OF 1(2) f])
  have 3: "scan_exponent_part s lx2 = (s, lx2)" using 2(2) by (simp add: scan_exponent_part_def current_char_def)
  show ?thesis
    using 1 2 3 cc cur s(2) by (auto simp: scans_as_def scan_token_def Let_def scan_number_def mk_token_def)
qed

lemma scan_quoted:
  assumes "lx_rest lx = CHR 0x27 # escape_text s @ CHR 0x27 # CHR '' '' # r"
  shows "scans_as lx (TOK_STRING, s) (CHR '' '' # r)"
proof -
  have cur: "current_char lx = CHR 0x27" using assms by (simp add: current_char_def)
  obtain lx' where "scan_string (CHR 0x27) [] (advance lx) = ([] @ s, lx')" "lx_rest lx' = CHR '' '' # r"
    by (rule scan_string_rest [of "advance lx" s "CHR '' '' # r" "[]"]) (use assms in simp_all)
  then show ?thesis using cur by (auto simp: scans_as_def scan_token_def Let_def mk_token_def)
qed

lemma scan_single:
  assumes "lx_rest lx = c # r" and "map_of single_table c = Some t"
  shows "scans_as lx (t, [c]) r"
proof -
  have "\<not> is_digit c" "\<not> is_alpha c" "c \<noteq> CHR 0x27" "c \<noteq> CHR 0x22" "c \<noteq> CHR ''_''"
    using assms(2) by (auto simp: single_table_def is_digit_def is_alpha_def split: if_splits)
  then show ?thesis
    using assms by (simp add: scans_as_def scan_token_def Let_def current_char_def scan_symbol_def make_token_def mk_token_def)
qed

lemma compound_chars:
  "\<not> is_digit (CHR ''<'')" "\<not> is_alpha (CHR ''<'')" "map_of single_table (CHR ''<'') = None"
  "\<not> is_digit (CHR ''>'')" "\<not> is_alpha (CHR ''>'')" "map_of single_table (CHR ''>'') = None"
  "\<not> is_digit (CHR ''!'')" "\<not> is_alpha (CHR ''!'')" "map_of single_table (CHR ''!'') = None"
  by (simp_all add: is_digit_def is_alpha_def single_table_def)

lemma scan_compound:
  assumes "lx_rest lx = l @ CHR '' '' # r"
    and "(t, l) \<in> {(TOK_LESS, ''<''), (TOK_LESS_EQUAL, ''<=''), (TOK_NOT_EQUAL, ''<>''), (TOK_NOT_EQUAL, ''!=''),
      (TOK_GREATER, ''>''), (TOK_GREATER_EQUAL, ''>='')}"
  shows "scans_as lx (t, l) (CHR '' '' # r)"
proof -
  note unf = scans_as_def scan_token_def Let_def current_char_def scan_symbol_def make_token_def mk_token_def compound_chars
  consider "t = TOK_LESS" "l = ''<''" | "t = TOK_LESS_EQUAL" "l = ''<=''" | "t = TOK_NOT_EQUAL" "l = ''<>''"
    | "t = TOK_NOT_EQUAL" "l = ''!=''" | "t = TOK_GREATER" "l = ''>''" | "t = TOK_GREATER_EQUAL" "l = ''>=''"
    using assms(2) by blast
  then show ?thesis using assms(1) by cases (simp_all add: unf)
qed

lemma scan_rendered:
  assumes "renderable (t, l)" and "lx_rest lx = token_text (t, l) @ CHR '' '' # r"
  shows "scans_as lx (t, l) (CHR '' '' # r)"
proof (cases "t = TOK_STRING")
  case True
  then show ?thesis using assms(2) scan_quoted [of lx l r] by (simp add: token_text_def)
next
  case False
  then have lx: "lx_rest lx = l @ CHR '' '' # r" using assms(2) by (simp add: token_text_def)
  consider "t = TOK_NUMBER" "number_lexeme l" | "word_lexeme l" "t = get_keyword_token_type l" | "(t, l) \<in> set symbol_tokens"
    using assms(1) False by (auto simp: renderable_def)
  then show ?thesis
  proof cases
    case 3
    show ?thesis
    proof (cases "\<exists>c. l = [c] \<and> map_of single_table c = Some t")
      case True
      then show ?thesis using scan_single lx by auto
    next
      case False
      have "map_of single_table c = Some t" if "(c, t) \<in> set single_table" for c
        by (rule map_of_is_SomeI [OF _ that]) (simp add: single_table_def)
      then have "(t, l) \<in> {(TOK_LESS, ''<''), (TOK_LESS_EQUAL, ''<=''), (TOK_NOT_EQUAL, ''<>''), (TOK_NOT_EQUAL, ''!=''),
          (TOK_GREATER, ''>''), (TOK_GREATER_EQUAL, ''>='')}"
        using False 3 by (auto simp: symbol_tokens_def)
      then show ?thesis by (rule scan_compound [OF lx])
    qed
  qed (use scan_digits scan_word lx in auto)
qed

lemma text_start:
  assumes "renderable (t, l)"
  obtains c cs where "token_text (t, l) = c # cs" "\<not> is_space c" "c = CHR ''-'' \<longrightarrow> cs = []" "t \<noteq> TOK_UNKNOWN \<or> l \<noteq> []"
proof (cases "t = TOK_STRING")
  case True
  then show thesis using that [of "CHR 0x27"] by (simp add: token_text_def is_space_def)
next
  case False
  then have tx: "token_text (t, l) = l" by (simp add: token_text_def)
  have "l \<noteq> [] \<and> \<not> is_space (hd l) \<and> (hd l = CHR ''-'' \<longrightarrow> tl l = [])"
  proof -
    consider "number_lexeme l" | "word_lexeme l" | "(t, l) \<in> set symbol_tokens"
      using assms False by (auto simp: renderable_def)
    then show ?thesis
    proof cases
      case 1
      then show ?thesis using digit_cases by (cases l) (auto simp: number_lexeme_def Let_def split: if_splits)
    next
      case 2
      then show ?thesis using alnum_cases by (cases l) (auto simp: word_lexeme_def)
    next
      case 3
      then show ?thesis by (auto simp: symbol_tokens_def single_table_def is_space_def)
    qed
  qed
  then show thesis using that [of "hd l" "tl l"] tx by auto
qed

lemma tokenize_rendered:
  assumes "list_all renderable ts" and "lx_rest lx = render ts \<or> lx_rest lx = CHR '' '' # render ts"
  shows "\<exists>toks lx'. tokenize_loop acc lx = (Inr (acc @ toks), lx') \<and> map (\<lambda>t. (tok_type t, tok_lexeme t)) toks = ts"
  using assms
proof (induction ts arbitrary: acc lx)
  case Nil
  then have r: "lx_rest lx = [] \<or> lx_rest lx = '' ''" by (simp add: render_def)
  have "is_at_end (skip_whitespace lx)"
    using r skip_whitespace_one [of lx "[]" "[]"] skip_whitespace_none [of lx] by (auto simp: is_at_end_def)
  then show ?case by (subst tokenize_loop.simps) (auto simp: Let_def)
next
  case (Cons e ts)
  obtain t l where tl: "e = (t, l)" by (cases e)
  have ren: "renderable (t, l)" using Cons.prems(1) tl by simp
  obtain c cs where c: "token_text (t, l) = c # cs" "\<not> is_space c" "c = CHR ''-'' \<longrightarrow> cs = []" "t \<noteq> TOK_UNKNOWN \<or> l \<noteq> []"
    using ren by (rule text_start)
  have rd: "render (e # ts) = token_text (t, l) @ CHR '' '' # render ts" using tl by (simp add: render_def)
  let ?lx = "skip_whitespace lx"
  have lx: "lx_rest ?lx = token_text (t, l) @ CHR '' '' # render ts"
    using Cons.prems(2) c(1,2) rd skip_whitespace_one [of lx "[]" "render (e # ts)"] skip_whitespace_none [of lx]
    by (auto simp: current_char_def)
  have cur: "\<not> is_at_end lx" "\<not> is_at_end ?lx" "\<not> (current_char ?lx = CHR ''-'' \<and> peek_char 1 ?lx = CHR ''-'')"
    using lx c Cons.prems(2) rd by (auto simp: is_at_end_def current_char_def peek_char_def)
  obtain tok lx' where s: "scan_token ?lx = (Inr tok, lx')" "(tok_type tok, tok_lexeme tok) = (t, l)" "lx_rest lx' = CHR '' '' # render ts"
    using scan_rendered [OF ren lx] by (auto simp: scans_as_def)
  have "tokenize_loop acc lx = tokenize_loop (acc @ [tok]) lx'"
    using cur s c(4) by (subst tokenize_loop.simps) (auto simp: Let_def)
  moreover obtain toks lx'' where "tokenize_loop (acc @ [tok]) lx' = (Inr ((acc @ [tok]) @ toks), lx'')"
    "map (\<lambda>t. (tok_type t, tok_lexeme t)) toks = ts" using Cons.IH [of lx' "acc @ [tok]"] Cons.prems(1) s(3) by auto
  ultimately show ?case using s(2) tl by (intro exI [of _ "tok # toks"]) auto
qed

section \<open>Shape of the result\<close>

lemma keyword_type_not_end: "get_keyword_token_type s \<noteq> TOK_END_OF_INPUT"
proof -
  have "list_all (\<lambda>(k, t). t \<noteq> TOK_END_OF_INPUT) keyword_table" by (simp add: keyword_table_def)
  then show ?thesis by (auto simp: get_keyword_token_type_def list_all_iff split: option.splits dest!: map_of_SomeD)
qed

lemma scan_parameter_shape: "token_or_unclosed (fst (scan_parameter lx))"
  by (auto simp: token_or_unclosed_def unclosed_dollar_def scan_parameter_def Let_def mk_token_def split: prod.splits option.splits)

lemma scan_symbol_shape: "token_or_unclosed (fst (scan_symbol c lx))"
proof -
  have "list_all (\<lambda>(k, t). t \<noteq> TOK_END_OF_INPUT) single_table" by (simp add: single_table_def)
  then have "map_of single_table c = Some t \<Longrightarrow> t \<noteq> TOK_END_OF_INPUT" for t
    by (auto simp: list_all_iff dest!: map_of_SomeD)
  then show ?thesis
    using scan_parameter_shape [of lx] by (auto simp: scan_symbol_def token_or_unclosed_def make_token_def mk_token_def split: option.splits)
qed

lemma scan_token_shape: "token_or_unclosed (fst (scan_token lx))"
  using scan_symbol_shape keyword_type_not_end
  by (auto simp: scan_token_def Let_def token_or_unclosed_def scan_number_def scan_identifier_def mk_token_def split: prod.splits)

lemma tokenize_loop_shape:
  "list_all (\<lambda>t. tok_type t \<noteq> TOK_END_OF_INPUT) acc \<Longrightarrow>
     (case fst (tokenize_loop acc lx) of Inl e \<Rightarrow> unclosed_dollar e
      | Inr ts \<Rightarrow> list_all (\<lambda>t. tok_type t \<noteq> TOK_END_OF_INPUT) ts)"
proof (induction acc lx rule: tokenize_loop.induct)
  case (1 tokens lx)
  let ?lx = "skip_whitespace lx"
  show ?case
  proof (cases "is_at_end lx \<or> is_at_end ?lx")
    case True
    then show ?thesis using 1(3) by (subst tokenize_loop.simps) (auto simp: Let_def)
  next
    case go: False
    show ?thesis
    proof (cases "current_char ?lx = CHR ''-'' \<and> peek_char 1 ?lx = CHR ''-''")
      case True
      then show ?thesis using go 1(1) [OF _ refl _ True] 1(3) by (subst tokenize_loop.simps) (auto simp: Let_def)
    next
      case False
      obtain r lx2 where s: "scan_token ?lx = (r, lx2)" by (cases "scan_token ?lx")
      have shape: "token_or_unclosed r" using scan_token_shape [of ?lx] s by simp
      show ?thesis
      proof (cases r)
        case (Inl e)
        then show ?thesis using go False s shape by (subst tokenize_loop.simps) (auto simp: Let_def token_or_unclosed_def)
      next
        case (Inr t)
        then show ?thesis
          using go False s shape 1(2) [OF _ refl _ False s [symmetric] Inr] 1(3)
          by (subst tokenize_loop.simps) (auto simp: Let_def token_or_unclosed_def)
      qed
    qed
  qed
qed

lemma keyword_table_names:
  "list_all (\<lambda>(k, t). token_type_to_string t = k \<and> map_of keyword_table (map to_upper k) = Some t) keyword_table"
  by code_simp

lemma keyword_read_back:
  assumes "t \<in> set (map snd keyword_table)"
  shows "get_keyword_token_type (token_type_to_string t) = t"
  using assms keyword_table_names by (auto simp: get_keyword_token_type_def list_all_iff)

lemma keywords_listed:
  shows "KW1 a \<in> set (map snd keyword_table)"
    and "KW2 b \<in> set (map snd keyword_table)"
    and "AGG g \<in> set (map snd keyword_table)"
proof -
  show "KW1 a \<in> set (map snd keyword_table)" by (cases a) (simp_all add: keyword_table_def)
  show "KW2 b \<in> set (map snd keyword_table)" by (cases b) (simp_all add: keyword_table_def)
  show "AGG g \<in> set (map snd keyword_table)" by (cases g) (simp_all add: keyword_table_def)
qed

lemma to_upper_idem: "to_upper (to_upper c) = to_upper c"
  by (auto simp: to_upper_def Let_def)

section \<open>Properties\<close>

lemma scan_string_lines:
  assumes "lx_rest lx = b @ q # r" "list_all (\<lambda>c. c \<noteq> q \<and> c \<noteq> CHR 0x5C) b" "q \<noteq> CHR 0x0A" "q \<noteq> CHR 0x00" "r = [] \<or> hd r \<noteq> q"
  shows "\<exists>lx'. scan_string q acc lx = (acc @ b, lx') \<and> lx_rest lx' = r \<and>
    lx_line lx' = lx_line lx + 2 * of_nat (count_list b (CHR 0x0A))"
  using assms(1,2)
proof (induction b arbitrary: acc lx)
  case Nil
  have "peek_char 1 lx \<noteq> q" using Nil(1) assms(4,5) by (cases r) (auto simp: peek_char_def)
  then show ?case
    using Nil assms(3) by (simp add: scan_string.simps[of q acc lx] is_at_end_def current_char_def advance_def)
next
  case (Cons c b)
  let ?lx = "advance (string_newline lx)"
  have step: "scan_string q acc lx = scan_string q (acc @ [c]) ?lx"
    using Cons.prems by (simp add: scan_string.simps[of q acc lx] is_at_end_def current_char_def)
  have "lx_rest ?lx = b @ q # r" "lx_line ?lx = lx_line lx + (if c = CHR 0x0A then 2 else 0)"
    using Cons.prems(1) by (auto simp: string_newline_def advance_def current_char_def)
  with Cons.IH[of ?lx "acc @ [c]"] Cons.prems(2) step show ?case by auto
qed

lemma scan_while_columns:
  assumes "lx_rest lx = w @ r" "list_all p w" "r = [] \<or> \<not> p (hd r)" "\<not> p (CHR 0x0A)"
  shows "\<exists>lx'. scan_while p acc lx = (acc @ w, lx') \<and> lx_rest lx' = r \<and> lx_line lx' = lx_line lx \<and>
    lx_column lx' = lx_column lx + of_nat (length w)"
  using assms(1,2)
proof (induction w arbitrary: acc lx)
  case Nil
  then show ?case using assms(3) by (cases r) (auto simp: scan_while.simps[of p acc lx] is_at_end_def current_char_def)
next
  case (Cons c w)
  have step: "scan_while p acc lx = scan_while p (acc @ [c]) (advance lx)"
    using Cons.prems by (simp add: scan_while.simps[of p acc lx] is_at_end_def current_char_def)
  have "c \<noteq> CHR 0x0A" using Cons.prems(2) assms(4) by auto
  then have "lx_rest (advance lx) = w @ r" "lx_line (advance lx) = lx_line lx" "lx_column (advance lx) = lx_column lx + 1"
    using Cons.prems(1) by (simp_all add: advance_def)
  with Cons.IH[of "advance lx" "acc @ [c]"] Cons.prems(2) step show ?case by auto
qed

text \<open>C13: the lexer inverts rendering. A list of keywords, identifiers, numbers, operators, delimiters and strings
  with arbitrary contents, written with one blank after each, is read back as the same token types and lexemes,
  followed by the end token.\<close>

theorem lexer_roundtrip:
  assumes "list_all renderable ts"
  shows "\<exists>toks. fst (tokenize (make_lexer (render ts))) = Inr toks \<and>
    map (\<lambda>t. (tok_type t, tok_lexeme t)) toks = ts @ [(TOK_END_OF_INPUT, [])]"
  using tokenize_rendered [OF assms, of "make_lexer (render ts)" "[]"]
  by (auto simp: tokenize_def bindM_def make_lexer_def mk_token_def)

theorem lexer_roundtrip_witness:
  "\<exists>toks. fst (tokenize (make_lexer (render [(TOK_SELECT, ''select''), (TOK_NUMBER, ''1.5''), (TOK_LESS_EQUAL, ''<=''),
      (TOK_STRING, ''it'' @ [CHR 0x27] @ ''s'')]))) = Inr toks \<and>
    map (\<lambda>t. (tok_type t, tok_lexeme t)) toks = [(TOK_SELECT, ''select''), (TOK_NUMBER, ''1.5''), (TOK_LESS_EQUAL, ''<=''),
      (TOK_STRING, ''it'' @ [CHR 0x27] @ ''s'')] @ [(TOK_END_OF_INPUT, [])]"
  by (rule lexer_roundtrip) code_simp

text \<open>C28: the lexer is total. On every input it either returns a token list that ends with the only end token, or
  throws the parse exception for an unclosed dollar-quoted string.\<close>

theorem tokenize_total:
  "case fst (tokenize (make_lexer input)) of
     Inl e \<Rightarrow> unclosed_dollar e
   | Inr toks \<Rightarrow> toks \<noteq> [] \<and> tok_type (last toks) = TOK_END_OF_INPUT \<and>
       list_all (\<lambda>t. tok_type t \<noteq> TOK_END_OF_INPUT) (butlast toks)"
  using tokenize_loop_shape [of "[]" "make_lexer input"]
  by (auto simp: tokenize_def bindM_def mk_token_def split: prod.splits sum.splits)

text \<open>C35: keywords are recognised without regard to case, and the name a keyword prints as is read back as that
  keyword.\<close>

theorem keyword_recognition:
  "get_keyword_token_type (map to_upper s) = get_keyword_token_type s \<and>
   get_keyword_token_type (token_type_to_string (KW1 a)) = KW1 a \<and>
   get_keyword_token_type (token_type_to_string (KW2 b)) = KW2 b \<and>
   get_keyword_token_type (token_type_to_string (AGG g)) = AGG g"
  using keyword_read_back [OF keywords_listed(1)] keyword_read_back [OF keywords_listed(2)]
    keyword_read_back [OF keywords_listed(3)]
  by (simp add: get_keyword_token_type_def comp_def to_upper_idem)

text \<open>The recorded positions drift from the text, whatever the state of the lexer. A string literal advances the
  line by two for each newline it contains; a word is recorded one column to the right of where it starts and leaves
  the column one further than the characters it consumed.\<close>

theorem string_line_drift:
  assumes "quote = CHR 0x27 \<or> quote = CHR 0x22" "list_all (\<lambda>c. c \<noteq> quote \<and> c \<noteq> CHR 0x5C) body"
    and "lx_rest lx = quote # body @ quote # rest" "rest = [] \<or> hd rest \<noteq> quote"
  shows "\<exists>t lx'. scan_token lx = (Inr t, lx') \<and> tok_lexeme t = body \<and> lx_rest lx' = rest \<and>
    lx_line lx' = lx_line lx + 2 * of_nat (count_list body (CHR 0x0A))"
proof -
  have q: "quote \<noteq> CHR 0x0A" "quote \<noteq> CHR 0x00" using assms(1) by auto
  have adv: "lx_rest (advance lx) = body @ quote # rest" "lx_line (advance lx) = lx_line lx"
    using assms(3) q by (auto simp: advance_def)
  obtain lx' where "scan_string quote [] (advance lx) = ([] @ body, lx')" "lx_rest lx' = rest"
    "lx_line lx' = lx_line lx + 2 * of_nat (count_list body (CHR 0x0A))"
    using scan_string_lines[OF adv(1) assms(2) q assms(4), of "[]"] adv(2) by auto
  then show ?thesis using assms(1,3) by (auto simp: scan_token_def current_char_def Let_def mk_token_def)
qed

theorem word_column_drift:
  assumes "is_alpha c" "list_all is_alpha_numeric w" "lx_rest lx = c # w @ rest" "rest = [] \<or> \<not> is_alpha_numeric (hd rest)"
  shows "\<exists>t lx'. scan_token lx = (Inr t, lx') \<and> tok_lexeme t = c # w \<and> tok_column t = lx_column lx + 1 \<and>
    lx_rest lx' = rest \<and> lx_column lx' = lx_column lx + of_nat (length (c # w)) + 1"
proof -
  have nl: "\<not> is_alpha_numeric (CHR 0x0A)" by (simp add: is_alpha_numeric_def is_alpha_def is_digit_def)
  have c: "is_alpha_numeric c" "c \<noteq> CHR 0x0A" using assms(1) nl by (auto simp: is_alpha_numeric_def)
  let ?lx = "back_up c (advance lx)"
  have b: "lx_rest ?lx = (c # w) @ rest" "lx_column ?lx = lx_column lx + 1" "list_all is_alpha_numeric (c # w)"
    using assms(2,3) c by (simp_all add: back_up_def advance_def)
  obtain lx' where "scan_while is_alpha_numeric [] ?lx = ([] @ c # w, lx')" "lx_rest lx' = rest"
    "lx_column lx' = lx_column lx + 1 + of_nat (length (c # w))"
    using scan_while_columns[OF b(1,3) assms(4) nl, of "[]"] b(2) by auto
  then show ?thesis using assms(1,3) alnum_cases[OF assms(1)] b(2)
    by (auto simp: scan_token_def current_char_def Let_def mk_token_def scan_identifier_def)
qed

end
