(* ===== verification/Sorting.thy ===== *)
theory Sorting
  imports Key_Orders "HOL-Library.Multiset"
begin

text \<open>
  The standard library's sorts as the query operators use them, with a comparison that may throw, and
  what they compute under a strict weak order: a sorted permutation that keeps equivalent elements in
  place. Every key order is such an order.
\<close>

section \<open>Sorting\<close>

text \<open>
  \<^verbatim>\<open>std::stable_sort\<close> and \<^verbatim>\<open>std::sort\<close> as insertion sorts; the comparison may throw. Where the
  comparison is a strict weak order the stable result is unique, and so is the result of
  \<^verbatim>\<open>std::sort\<close> when incomparable elements are equal.
\<close>

fun insert_by :: "('a \<Rightarrow> 'a \<Rightarrow> bool result) \<Rightarrow> 'a \<Rightarrow> 'a list \<Rightarrow> 'a list result" where
  "insert_by lt x [] = Inr [x]"
| "insert_by lt x (y # ys) =
     bindR (lt x y) (\<lambda>b. if b then Inr (x # y # ys) else bindR (insert_by lt x ys) (\<lambda>zs. Inr (y # zs)))"

fun sort_into :: "('a \<Rightarrow> 'a \<Rightarrow> bool result) \<Rightarrow> 'a list \<Rightarrow> 'a list \<Rightarrow> 'a list result" where
  "sort_into lt acc [] = Inr acc"
| "sort_into lt acc (x # xs) = bindR (insert_by lt x acc) (\<lambda>acc'. sort_into lt acc' xs)"

definition stable_sort :: "('a \<Rightarrow> 'a \<Rightarrow> bool result) \<Rightarrow> 'a list \<Rightarrow> 'a list result" where
  "stable_sort lt xs = sort_into lt [] xs"

fun unique_by :: "('a \<Rightarrow> 'a \<Rightarrow> bool) \<Rightarrow> 'a list \<Rightarrow> 'a list" where
  "unique_by eq [] = []"
| "unique_by eq [x] = [x]"
| "unique_by eq (x # y # ys) = (if eq x y then unique_by eq (x # ys) else x # unique_by eq (y # ys))"


section \<open>Sorting under a strict weak order\<close>

locale weak_order =
  fixes dom :: "'a \<Rightarrow> bool" and lt :: "'a \<Rightarrow> 'a \<Rightarrow> bool"
  assumes asym: "dom a \<Longrightarrow> dom b \<Longrightarrow> lt a b \<Longrightarrow> \<not> lt b a"
    and neg_trans: "dom a \<Longrightarrow> dom b \<Longrightarrow> dom c \<Longrightarrow> \<not> lt a b \<Longrightarrow> \<not> lt b c \<Longrightarrow> \<not> lt a c"
begin

definition ascending :: "'a list \<Rightarrow> bool" where
  "ascending xs = sorted_wrt (\<lambda>a b. \<not> lt b a) xs"

definition equivalent :: "'a \<Rightarrow> 'a \<Rightarrow> bool" where
  "equivalent a b = (\<not> lt a b \<and> \<not> lt b a)"

lemma below_all:
  assumes "dom x" "dom y" "\<forall>z \<in> set ys. dom z" "lt x y" "ascending (y # ys)" "z \<in> set (y # ys)"
  shows "lt x z"
proof (cases "z = y")
  case False
  with assms have "z \<in> set ys" "dom z" "\<not> lt z y" by (auto simp: ascending_def)
  with assms neg_trans[of x z y] show ?thesis by blast
qed (use assms in simp)

lemma insert_by_ok:
  assumes "\<And>a b. dom a \<Longrightarrow> dom b \<Longrightarrow> cmp a b = Inr (lt a b)"
    and "dom x" "\<forall>y \<in> set ys. dom y" "ascending ys"
  shows "\<exists>zs. insert_by cmp x ys = Inr zs \<and> mset zs = add_mset x (mset ys) \<and> ascending zs \<and>
     (\<forall>a. dom a \<longrightarrow> filter (equivalent a) zs = filter (equivalent a) ys @ filter (equivalent a) [x])"
  using assms(3,4)
proof (induction ys)
  case Nil
  then show ?case by (auto simp: ascending_def)
next
  case (Cons y ys)
  then have y: "dom y" "\<forall>y \<in> set ys. dom y" "ascending ys" by (auto simp: ascending_def)
  show ?case
  proof (cases "lt x y")
    case True
    have above: "\<forall>z \<in> set (y # ys). lt x z"
      using below_all[OF assms(2) y(1,2) True Cons.prems(2)] by blast
    have "filter (equivalent a) (y # ys) = []" if "dom a" "equivalent a x" for a
    proof -
      have "\<not> equivalent a z" if "z \<in> set (y # ys)" for z
      proof -
        have "dom z" using that Cons.prems by auto
        then show ?thesis
          using above that \<open>dom a\<close> \<open>equivalent a x\<close> assms(2) neg_trans[of x a z]
          unfolding equivalent_def by blast
      qed
      then show ?thesis by (simp add: filter_empty_conv)
    qed
    moreover have "ascending (x # y # ys)"
      using above Cons.prems assms(2) asym by (auto simp: ascending_def)
    ultimately show ?thesis
      using True assms(1)[OF assms(2) y(1)] by (auto simp del: filter.simps(2)) (auto simp: filter.simps(2))
  next
    case False
    from Cons.IH[OF y(2,3)] obtain zs where zs: "insert_by cmp x ys = Inr zs" "mset zs = add_mset x (mset ys)"
      "ascending zs" "\<forall>a. dom a \<longrightarrow> filter (equivalent a) zs = filter (equivalent a) ys @ filter (equivalent a) [x]"
      by blast
    from zs(2) have "set zs = insert x (set ys)" by (metis set_mset_add_mset_insert set_mset_mset)
    with False Cons.prems zs(3) have "ascending (y # zs)" by (auto simp: ascending_def)
    with False zs assms(1)[OF assms(2) y(1)] show ?thesis by auto
  qed
qed

lemma sort_into_ok:
  assumes "\<And>a b. dom a \<Longrightarrow> dom b \<Longrightarrow> cmp a b = Inr (lt a b)"
    and "\<forall>x \<in> set xs. dom x" "\<forall>y \<in> set acc. dom y" "ascending acc"
  shows "\<exists>zs. sort_into cmp acc xs = Inr zs \<and> mset zs = mset acc + mset xs \<and> ascending zs \<and>
     (\<forall>a. dom a \<longrightarrow> filter (equivalent a) zs = filter (equivalent a) acc @ filter (equivalent a) xs)"
  using assms(2-4)
proof (induction xs arbitrary: acc)
  case (Cons x xs)
  from insert_by_ok[OF assms(1), of x acc] Cons.prems obtain acc' where acc':
    "insert_by cmp x acc = Inr acc'" "mset acc' = add_mset x (mset acc)" "ascending acc'"
    "\<forall>a. dom a \<longrightarrow> filter (equivalent a) acc' = filter (equivalent a) acc @ filter (equivalent a) [x]"
    by auto
  from acc'(2) have "set acc' = insert x (set acc)" by (metis set_mset_add_mset_insert set_mset_mset)
  with Cons.prems have "\<forall>y \<in> set acc'. dom y" by auto
  with Cons.IH[of acc'] Cons.prems acc' obtain zs where
    "sort_into cmp acc' xs = Inr zs" "mset zs = mset acc' + mset xs" "ascending zs"
    "\<forall>a. dom a \<longrightarrow> filter (equivalent a) zs = filter (equivalent a) acc' @ filter (equivalent a) xs"
    by auto
  with acc' show ?case by auto
qed auto

lemma stable_sort_ok:
  assumes "\<And>a b. dom a \<Longrightarrow> dom b \<Longrightarrow> cmp a b = Inr (lt a b)" "\<forall>x \<in> set xs. dom x"
  obtains ys where "stable_sort cmp xs = Inr ys" "mset ys = mset xs" "ascending ys"
    "\<And>a. dom a \<Longrightarrow> filter (equivalent a) ys = filter (equivalent a) xs"
  using sort_into_ok[OF assms, of "[]"] by (auto simp: stable_sort_def ascending_def)

end

sublocale key_order \<subseteq> weak: weak_order dom lt
proof
  show "dom a \<Longrightarrow> dom b \<Longrightarrow> lt a b \<Longrightarrow> \<not> lt b a" for a b by (rule less_asym)
  show "dom a \<Longrightarrow> dom b \<Longrightarrow> dom c \<Longrightarrow> \<not> lt a b \<Longrightarrow> \<not> lt b c \<Longrightarrow> \<not> lt a c" for a b c
    using not_less_iff less_trans less_irrefl by metis
qed

context key_order
begin

lemma weak_by_key: "weak_order (\<lambda>r. dom (f r)) (\<lambda>a b. lt (f a) (f b))"
  by unfold_locales (use weak.asym weak.neg_trans in blast)+

lemma unique_by_ascending:
  "\<forall>x \<in> set xs. dom x \<Longrightarrow> weak.ascending xs \<Longrightarrow>
   sorted_wrt lt (unique_by eq xs) \<and> set (unique_by eq xs) = set xs"
proof (induction xs rule: induct_list012)
  case (3 x y ys)
  then have IH: "sorted_wrt lt (unique_by eq (y # ys))" "set (unique_by eq (y # ys)) = set (y # ys)"
    by (auto simp: weak.ascending_def)
  have d: "dom x" "dom y" using "3.prems" by auto
  show ?case
  proof (cases "x = y")
    case True
    with IH d eq_iff[of x y] show ?thesis by simp
  next
    case False
    have "\<not> lt y x" using "3.prems" by (simp add: weak.ascending_def)
    with False d have xy: "lt x y" using less_total by blast
    have "lt x z" if "z \<in> set (y # ys)" for z
      using weak.below_all[of x y ys z] d xy that "3.prems" by (auto simp: weak.ascending_def)
    with IH False d eq_iff[of x y] show ?thesis by simp
  qed
qed (auto simp: weak.ascending_def)

lemma sorted_wrt_distinct: "\<forall>x \<in> set xs. dom x \<Longrightarrow> sorted_wrt lt xs \<Longrightarrow> distinct xs"
  by (induction xs) (use less_irrefl in auto)

end

end
