(* ===== verification/Btree.thy ===== *)
theory Btree
  imports Values
begin

text \<open>
  The B-tree index of src/core/btree_index.cc: composite keys and their comparison, the node type, insertion with
  node splits, removal, and the point, prefix and range lookups. A node holds its children by unique pointer, so
  the tree is a datatype and an update returns the new node; a vector access past the end is an error value. The
  invariant \<open>wf_node\<close> fixes the degree bounds and the uniform depth, \<open>entries\<close> is the in-order list of keys with
  their rows, and the operations are shown to act on that sorted list as the association-list operations of
  \<open>Key_Orders\<close> do. Removal is exact as long as no separator key disappears; the last section shows what happens
  otherwise.
\<close>

section \<open>Composite keys\<close>

type_synonym index_key = "sql_value list"

definition has_null :: "index_key \<Rightarrow> bool" where
  "has_null k = list_ex is_null k"

fun starts_with :: "index_key \<Rightarrow> index_key \<Rightarrow> bool" where
  "starts_with k [] = True"
| "starts_with [] (p # ps) = False"
| "starts_with (v # vs) (p # ps) = (if \<not> value_eq v p then False else starts_with vs ps)"

definition index_eq :: "index_key \<Rightarrow> index_key \<Rightarrow> bool" where
  "index_eq a b = list_all2 value_eq a b"

fun index_less :: "index_key \<Rightarrow> index_key \<Rightarrow> bool" where
  "index_less [] b = (b \<noteq> [])"
| "index_less (x # a) [] = False"
| "index_less (x # a) (y # b) =
     (if value_less x y then True else if value_less y x then False else index_less a b)"

fun key_to_string :: "index_key \<Rightarrow> string" where
  "key_to_string k = ''('' @ concat (map (\<lambda>i. (if i > 0 then '', '' else []) @ value_to_string (k ! i)) [0..<length k]) @ '')''"

section \<open>Nodes\<close>

definition kMinDegree :: nat where
  "kMinDegree = 16"

datatype node = Node (node_leaf: bool) (node_keys: "index_key list") (node_rows: "nat list list")
  (node_children: "node list")

definition vec_at :: "'a list \<Rightarrow> nat \<Rightarrow> 'a result" where
  "vec_at xs i = (if i < length xs then Inr (xs ! i) else Inl UndefinedBehaviour)"

definition vec_insert :: "nat \<Rightarrow> 'a \<Rightarrow> 'a list \<Rightarrow> 'a list result" where
  "vec_insert i x xs = (if i \<le> length xs then Inr (take i xs @ x # drop i xs) else Inl UndefinedBehaviour)"

definition vec_erase :: "nat \<Rightarrow> 'a list \<Rightarrow> 'a list result" where
  "vec_erase i xs = (if i < length xs then Inr (take i xs @ drop (Suc i) xs) else Inl UndefinedBehaviour)"

fun key_pos :: "index_key list \<Rightarrow> index_key \<Rightarrow> nat" where
  "key_pos [] key = 0"
| "key_pos (k # ks) key = (if index_less k key then Suc (key_pos ks key) else 0)"

definition key_hit :: "index_key list \<Rightarrow> nat \<Rightarrow> index_key \<Rightarrow> bool" where
  "key_hit ks i key = (i < length ks \<and> index_eq (ks ! i) key)"

section \<open>Insertion\<close>

definition split_node :: "node \<Rightarrow> (node \<times> index_key \<times> nat list \<times> node) result" where
  "split_node full_child =
     (let mid = kMinDegree - 1 in
      bindR (vec_at (node_keys full_child) mid) (\<lambda>mid_key.
      bindR (vec_at (node_rows full_child) mid) (\<lambda>mid_rows.
        if \<not> node_leaf full_child \<and> length (node_children full_child) < Suc mid
        then Inl UndefinedBehaviour
        else Inr
          (Node (node_leaf full_child) (take mid (node_keys full_child)) (take mid (node_rows full_child))
             (if node_leaf full_child then node_children full_child
              else take (Suc mid) (node_children full_child)),
           mid_key, mid_rows,
           Node (node_leaf full_child) (drop (Suc mid) (node_keys full_child))
             (drop (Suc mid) (node_rows full_child))
             (if node_leaf full_child then [] else drop (Suc mid) (node_children full_child))))))"

definition split_child :: "node \<Rightarrow> nat \<Rightarrow> node result" where
  "split_child parent child_index =
     bindR (vec_at (node_children parent) child_index) (\<lambda>full_child.
     bindR (split_node full_child) (\<lambda>(left, mid_key, mid_rows, new_child).
     bindR (vec_insert child_index mid_key (node_keys parent)) (\<lambda>ks.
     bindR (vec_insert child_index mid_rows (node_rows parent)) (\<lambda>rs.
     bindR (vec_insert (Suc child_index) new_child ((node_children parent)[child_index := left])) (\<lambda>cs.
       Inr (Node (node_leaf parent) ks rs cs))))))"

definition push_row :: "node \<Rightarrow> nat \<Rightarrow> nat \<Rightarrow> node result" where
  "push_row nd i row =
     bindR (vec_at (node_rows nd) i) (\<lambda>rs.
       Inr (Node (node_leaf nd) (node_keys nd) ((node_rows nd)[i := rs @ [row]]) (node_children nd)))"

definition set_child :: "node \<Rightarrow> nat \<Rightarrow> node \<Rightarrow> node" where
  "set_child nd j c = Node (node_leaf nd) (node_keys nd) (node_rows nd) ((node_children nd)[j := c])"

section \<open>Sizes\<close>

lemma size_take_le: "size_list f (take n xs) \<le> size_list f xs"
  by (induction xs arbitrary: n) (auto simp: take_Cons' split: nat.splits)

lemma size_drop_le: "size_list f (drop n xs) \<le> size_list f xs"
  by (induction xs arbitrary: n) (auto simp: drop_Cons' le_SucI trans_le_add2)

lemma split_node_size:
  assumes "split_node c = Inr (l, k, r, rt)"
  shows "size l \<le> size c" "size rt \<le> size c"
proof -
  obtain lf ks rs cs where Node: "c = Node lf ks rs cs" by (cases c)
  have l: "l = Node lf (take (kMinDegree - 1) ks) (take (kMinDegree - 1) rs) (if lf then cs else take (Suc (kMinDegree - 1)) cs)"
    and rt: "rt = Node lf (drop (Suc (kMinDegree - 1)) ks) (drop (Suc (kMinDegree - 1)) rs) (if lf then [] else drop (Suc (kMinDegree - 1)) cs)"
    using assms Node by (auto simp: split_node_def Let_def bindR_def vec_at_def split: if_splits)
  show "size l \<le> size c" using size_take_le [of size "Suc (kMinDegree - 1)" cs] by (simp add: l Node)
  show "size rt \<le> size c" using size_drop_le [of size "Suc (kMinDegree - 1)" cs] by (simp add: rt Node)
qed

lemma child_size:
  assumes "i < length (node_children nd)"
  shows "size (node_children nd ! i) < size nd"
proof (cases nd)
  case (Node lf ks rs cs)
  then have "cs ! i \<in> set cs" using assms by simp
  then have "size (cs ! i) \<le> size_list size cs" by (rule size_list_estimation') simp
  then show ?thesis using Node by simp
qed

lemma split_child_children:
  assumes "split_child nd i = Inr nd'"
  obtains l k r rt where "i < length (node_children nd)" "split_node (node_children nd ! i) = Inr (l, k, r, rt)"
    "node_children nd' = take i (node_children nd) @ l # rt # drop (Suc i) (node_children nd)"
proof -
  obtain l k r rt where sp: "split_node (node_children nd ! i) = Inr (l, k, r, rt)" and i: "i < length (node_children nd)"
    using assms by (auto simp: split_child_def bindR_def vec_at_def split: sum.splits if_splits)
  then have "node_children nd' = take (Suc i) ((node_children nd)[i := l]) @ rt # drop (Suc i) ((node_children nd)[i := l])"
    using assms by (auto simp: split_child_def bindR_def vec_at_def vec_insert_def split: sum.splits if_splits)
  then have "node_children nd' = take i (node_children nd) @ l # rt # drop (Suc i) (node_children nd)"
    using i by (simp add: take_Suc_conv_app_nth drop_update_cancel)
  then show thesis using that i sp by blast
qed

lemma split_child_size:
  assumes "split_child nd i = Inr nd'" and "j = i \<or> j = Suc i"
  shows "j < length (node_children nd')" "size (node_children nd' ! j) < size nd"
proof -
  obtain l k r rt where i: "i < length (node_children nd)" and sp: "split_node (node_children nd ! i) = Inr (l, k, r, rt)"
    and ch: "node_children nd' = take i (node_children nd) @ l # rt # drop (Suc i) (node_children nd)"
    by (rule split_child_children [OF assms(1)])
  have "size l < size nd" "size rt < size nd" using split_node_size [OF sp] child_size [OF i] by simp_all
  moreover have "node_children nd' ! i = l" "node_children nd' ! Suc i = rt" "Suc i < length (node_children nd')"
    using ch i by (auto simp: nth_append)
  ultimately show "j < length (node_children nd')" "size (node_children nd' ! j) < size nd" using assms(2) by auto
qed

function insert_non_full :: "node \<Rightarrow> index_key \<Rightarrow> nat \<Rightarrow> node result" where
  "insert_non_full nd key row =
     (let i = key_pos (node_keys nd) key in
      if key_hit (node_keys nd) i key then push_row nd i row
      else if node_leaf nd then
        bindR (vec_insert i key (node_keys nd)) (\<lambda>ks.
        bindR (vec_insert i [row] (node_rows nd)) (\<lambda>rs.
          Inr (Node (node_leaf nd) ks rs (node_children nd))))
      else if length (node_children nd) \<le> i then Inl UndefinedBehaviour
      else if length (node_keys (node_children nd ! i)) = 2 * kMinDegree - 1 then
        (case split_child nd i of
           Inl e \<Rightarrow> Inl e
         | Inr nd' \<Rightarrow>
             if index_less (node_keys nd' ! i) key then
               bindR (insert_non_full (node_children nd' ! Suc i) key row) (\<lambda>c. Inr (set_child nd' (Suc i) c))
             else if index_eq (node_keys nd' ! i) key then push_row nd' i row
             else bindR (insert_non_full (node_children nd' ! i) key row) (\<lambda>c. Inr (set_child nd' i c)))
      else bindR (insert_non_full (node_children nd ! i) key row) (\<lambda>c. Inr (set_child nd i c)))"
  by pat_completeness auto
termination
  by (relation "measure (\<lambda>(nd, _, _). size nd)") (auto simp: split_child_size child_size)

declare insert_non_full.simps [simp del]

type_synonym btree_index = "node option"

definition btree_insert :: "index_key \<Rightarrow> nat \<Rightarrow> btree_index \<Rightarrow> btree_index result" where
  "btree_insert key row root_ptr =
     (if has_null key \<or> key = [] then Inr root_ptr
      else
        let r = (case root_ptr of None \<Rightarrow> Node True [] [] [] | Some nd \<Rightarrow> nd) in
        if length (node_keys r) = 2 * kMinDegree - 1
        then bindR (split_child (Node False [] [] [r]) 0) (\<lambda>new_root.
               bindR (insert_non_full new_root key row) (\<lambda>nd. Inr (Some nd)))
        else bindR (insert_non_full r key row) (\<lambda>nd. Inr (Some nd)))"

function remove_from_node :: "node \<Rightarrow> index_key \<Rightarrow> nat \<Rightarrow> (bool \<times> node) result" where
  "remove_from_node nd key row =
     (let i = key_pos (node_keys nd) key in
      if key_hit (node_keys nd) i key then
        bindR (vec_at (node_rows nd) i) (\<lambda>rows.
          let rows' = filter (\<lambda>r. r \<noteq> row) rows in
          if rows' \<noteq> [] then
            Inr (True, Node (node_leaf nd) (node_keys nd) ((node_rows nd)[i := rows']) (node_children nd))
          else
            bindR (vec_erase i (node_keys nd)) (\<lambda>ks.
            bindR (vec_erase i (node_rows nd)) (\<lambda>rs.
              Inr (True, Node (node_leaf nd) ks rs (node_children nd)))))
      else if node_leaf nd then Inr (False, nd)
      else if length (node_children nd) \<le> i then Inl UndefinedBehaviour
      else bindR (remove_from_node (node_children nd ! i) key row) (\<lambda>(b, c). Inr (b, set_child nd i c)))"
  by pat_completeness auto
termination
  by (relation "measure (\<lambda>(nd, _, _). size nd)") (auto simp: child_size)

declare remove_from_node.simps [simp del]

definition btree_remove :: "index_key \<Rightarrow> nat \<Rightarrow> btree_index \<Rightarrow> btree_index result" where
  "btree_remove key row root_ptr =
     (case root_ptr of
        None \<Rightarrow> Inr None
      | Some nd \<Rightarrow>
          if has_null key \<or> key = [] then Inr root_ptr
          else bindR (remove_from_node nd key row) (\<lambda>(_, nd').
            let nd'' = (if node_keys nd' = [] \<and> \<not> node_leaf nd' \<and> length (node_children nd') = 1
                        then node_children nd' ! 0 else nd') in
            Inr (if node_keys nd'' = [] \<and> node_leaf nd'' then None else Some nd'')))"

section \<open>Lookups\<close>

function collect_equal :: "node \<Rightarrow> index_key \<Rightarrow> nat list result" where
  "collect_equal nd key =
     (let i = key_pos (node_keys nd) key in
      if key_hit (node_keys nd) i key then vec_at (node_rows nd) i
      else if node_leaf nd then Inr []
      else if length (node_children nd) \<le> i then Inl UndefinedBehaviour
      else collect_equal (node_children nd ! i) key)"
  by pat_completeness auto
termination
  by (relation "measure (\<lambda>(nd, _). size nd)") (auto simp: child_size)

declare collect_equal.simps [simp del]

definition find_equal :: "btree_index \<Rightarrow> index_key \<Rightarrow> nat list result" where
  "find_equal root_ptr key =
     (case root_ptr of None \<Rightarrow> Inr []
      | Some nd \<Rightarrow> if has_null key \<or> key = [] then Inr [] else collect_equal nd key)"

fun collect_loop :: "bool \<Rightarrow> (index_key \<Rightarrow> bool) \<Rightarrow> (index_key \<Rightarrow> bool) \<Rightarrow> nat list result \<Rightarrow>
    index_key list \<Rightarrow> nat list list \<Rightarrow> nat list result list \<Rightarrow> nat list result" where
  "collect_loop leaf pass stop back [] rs cs = (if leaf then Inr [] else back)"
| "collect_loop leaf pass stop back (k # ks) rs cs =
     bindR (if leaf then Inr [] else case cs of [] \<Rightarrow> Inl UndefinedBehaviour | c # _ \<Rightarrow> c) (\<lambda>out.
       if pass k then
         (case rs of
            [] \<Rightarrow> Inl UndefinedBehaviour
          | r # _ \<Rightarrow> bindR (collect_loop leaf pass stop back ks (tl rs) (tl cs)) (\<lambda>rest. Inr (out @ r @ rest)))
       else if stop k then Inr out
       else bindR (collect_loop leaf pass stop back ks (tl rs) (tl cs)) (\<lambda>rest. Inr (out @ rest)))"

definition last_child :: "nat list result list \<Rightarrow> nat list result" where
  "last_child cs = (if cs = [] then Inl UndefinedBehaviour else last cs)"

fun collect_node :: "(index_key \<Rightarrow> bool) \<Rightarrow> (index_key \<Rightarrow> bool) \<Rightarrow> node \<Rightarrow> nat list result" where
  "collect_node pass stop (Node leaf ks rs cs) =
     collect_loop leaf pass stop (last_child (map (collect_node pass stop) cs)) ks rs (map (collect_node pass stop) cs)"

fun prefix_exceeded :: "index_key \<Rightarrow> index_key \<Rightarrow> bool" where
  "prefix_exceeded (p # ps) (v # vs) =
     (if value_less p v then True else if value_less v p then False else prefix_exceeded ps vs)"
| "prefix_exceeded _ _ = False"

definition past_prefix :: "index_key \<Rightarrow> index_key \<Rightarrow> bool" where
  "past_prefix prefix k =
     (index_less prefix k \<and> \<not> starts_with k prefix \<and> prefix_exceeded prefix k \<and> \<not> starts_with k prefix)"

definition collect_prefix :: "node \<Rightarrow> index_key \<Rightarrow> nat list result" where
  "collect_prefix nd prefix = collect_node (\<lambda>k. starts_with k prefix) (past_prefix prefix) nd"

definition find_prefix :: "btree_index \<Rightarrow> index_key \<Rightarrow> nat list result" where
  "find_prefix root_ptr prefix =
     (case root_ptr of None \<Rightarrow> Inr []
      | Some nd \<Rightarrow> if has_null prefix \<or> prefix = [] then Inr [] else collect_prefix nd prefix)"

definition passes_lower :: "index_key \<Rightarrow> index_key option \<Rightarrow> bool \<Rightarrow> bool" where
  "passes_lower key lower lower_inclusive =
     (case lower of None \<Rightarrow> True
      | Some l \<Rightarrow> if lower_inclusive then \<not> index_less key l else index_less l key)"

definition passes_upper :: "index_key \<Rightarrow> index_key option \<Rightarrow> bool \<Rightarrow> bool" where
  "passes_upper key upper upper_inclusive =
     (case upper of None \<Rightarrow> True
      | Some u \<Rightarrow> if upper_inclusive then \<not> index_less u key else index_less key u)"

definition in_range :: "index_key option \<Rightarrow> bool \<Rightarrow> index_key option \<Rightarrow> bool \<Rightarrow> index_key \<Rightarrow> bool" where
  "in_range lower lower_inclusive upper upper_inclusive k =
     (passes_lower k lower lower_inclusive \<and> passes_upper k upper upper_inclusive)"

definition past_upper :: "index_key option \<Rightarrow> index_key \<Rightarrow> bool" where
  "past_upper upper k = (case upper of None \<Rightarrow> False | Some u \<Rightarrow> index_less u k)"

definition collect_range :: "node \<Rightarrow> index_key option \<Rightarrow> bool \<Rightarrow> index_key option \<Rightarrow> bool \<Rightarrow> nat list result" where
  "collect_range nd lower lower_inclusive upper upper_inclusive =
     collect_node (in_range lower lower_inclusive upper upper_inclusive) (past_upper upper) nd"

definition find_range :: "btree_index \<Rightarrow> index_key option \<Rightarrow> bool \<Rightarrow> index_key option \<Rightarrow> bool \<Rightarrow> nat list result" where
  "find_range root_ptr lower lower_inclusive upper upper_inclusive =
     (case root_ptr of None \<Rightarrow> Inr []
      | Some nd \<Rightarrow> collect_range nd lower lower_inclusive upper upper_inclusive)"

definition find_range_value :: "btree_index \<Rightarrow> sql_value option \<Rightarrow> bool \<Rightarrow> sql_value option \<Rightarrow> bool \<Rightarrow> nat list result" where
  "find_range_value root_ptr lower lower_inclusive upper upper_inclusive =
     find_range root_ptr (map_option (\<lambda>v. [v]) lower) lower_inclusive (map_option (\<lambda>v. [v]) upper) upper_inclusive"

section \<open>Abstract view and invariant\<close>

fun weave :: "'a list list \<Rightarrow> 'a list \<Rightarrow> 'a list" where
  "weave [] es = es"
| "weave (c # cs) [] = c"
| "weave (c # cs) (e # es) = c @ e # weave cs es"

fun entries :: "node \<Rightarrow> (index_key \<times> nat list) list" where
  "entries (Node leaf ks rs cs) = weave (if leaf then [] else map entries cs) (zip ks rs)"

definition kMaxKeys :: nat where
  "kMaxKeys = 2 * kMinDegree - 1"

fun wf_node :: "nat \<Rightarrow> nat \<Rightarrow> nat \<Rightarrow> node \<Rightarrow> bool" where
  "wf_node m low 0 (Node leaf ks rs cs) =
     (leaf \<and> cs = [] \<and> length rs = length ks \<and> low \<le> length ks \<and> length ks \<le> kMaxKeys)"
| "wf_node m low (Suc d) (Node leaf ks rs cs) =
     (\<not> leaf \<and> length cs = Suc (length ks) \<and> length rs = length ks \<and> low \<le> length ks \<and> length ks \<le> kMaxKeys \<and>
      list_all (wf_node m m d) cs)"

definition index_entries :: "btree_index \<Rightarrow> (index_key \<times> nat list) list" where
  "index_entries root_ptr = (case root_ptr of None \<Rightarrow> [] | Some nd \<Rightarrow> entries nd)"

definition index_dom :: "data_type list \<Rightarrow> index_key \<Rightarrow> bool" where
  "index_dom ts k = list_all2 exact_of ts k"

section \<open>Specification vocabulary\<close>

definition weave_pre :: "'a list list \<Rightarrow> 'a list \<Rightarrow> 'a list" where
  "weave_pre cs es = concat (map2 (\<lambda>c e. c @ [e]) cs es)"

definition weave_post :: "nat \<Rightarrow> 'a list list \<Rightarrow> 'a list \<Rightarrow> 'a list" where
  "weave_post i cs es = (if i < length es then es ! i # weave (drop (Suc i) cs) (drop (Suc i) es) else [])"

definition left_of :: "node \<Rightarrow> nat \<Rightarrow> (index_key \<times> nat list) list" where
  "left_of nd i = weave_pre (take i (map entries (node_children nd))) (take i (zip (node_keys nd) (node_rows nd)))"

definition right_of :: "node \<Rightarrow> nat \<Rightarrow> (index_key \<times> nat list) list" where
  "right_of nd i = weave_post i (map entries (node_children nd)) (zip (node_keys nd) (node_rows nd))"

definition inserts :: "nat \<Rightarrow> data_type list \<Rightarrow> index_key \<Rightarrow> nat \<Rightarrow> nat \<Rightarrow> nat \<Rightarrow> node \<Rightarrow> bool" where
  "inserts m ts key row low d nd =
     (\<exists>nd'. insert_non_full nd key row = Inr nd' \<and> wf_node m low d nd' \<and> entries nd' = upsert index_less key row (entries nd))"

definition root_ok :: "nat \<Rightarrow> node \<Rightarrow> bool" where
  "root_ok m nd = (\<exists>d. wf_node m (if d = 0 then 0 else 1) d nd)"

definition wf_index :: "nat \<Rightarrow> data_type list \<Rightarrow> btree_index \<Rightarrow> bool" where
  "wf_index m ts idx =
     (case idx of None \<Rightarrow> True
      | Some nd \<Rightarrow> root_ok m nd \<and> sorted_wrt index_less (map fst (entries nd)) \<and>
        (\<forall>k \<in> set (map fst (entries nd)). index_dom ts k))"

definition indexable :: "data_type list \<Rightarrow> index_key \<Rightarrow> bool" where
  "indexable ts key = (index_dom ts key \<and> \<not> has_null key \<and> key \<noteq> [])"

definition rows_of :: "(index_key \<Rightarrow> bool) \<Rightarrow> (index_key \<times> nat list) list \<Rightarrow> nat list" where
  "rows_of P es = concat (map snd (filter (\<lambda>e. P (fst e)) es))"

definition stops :: "data_type list \<Rightarrow> (index_key \<Rightarrow> bool) \<Rightarrow> (index_key \<Rightarrow> bool) \<Rightarrow> bool" where
  "stops ts pass stop =
     (\<forall>k k'. index_dom ts k \<longrightarrow> index_dom ts k' \<longrightarrow> stop k \<longrightarrow> index_less k k' \<longrightarrow> \<not> pass k')"

definition drop_row :: "'k \<Rightarrow> 'v \<Rightarrow> ('k \<times> 'v list) list \<Rightarrow> ('k \<times> 'v list) list" where
  "drop_row key row es =
     concat (map (\<lambda>(k, rs). if k \<noteq> key then [(k, rs)]
                            else let rs' = filter (\<lambda>r. r \<noteq> row) rs in if rs' = [] then [] else [(k, rs')]) es)"

definition removes_ok :: "index_key \<Rightarrow> nat \<Rightarrow> nat \<Rightarrow> nat \<Rightarrow> node \<Rightarrow> bool" where
  "removes_ok key row low d nd =
     (\<exists>b nd'. remove_from_node nd key row = Inr (b, nd') \<and> wf_node 0 low d nd' \<and>
        entries nd' = drop_row key row (entries nd))"

definition btree_insert_all :: "(index_key \<times> nat) list \<Rightarrow> btree_index \<Rightarrow> btree_index result" where
  "btree_insert_all kvs idx = fold (\<lambda>(k, r) acc. bindR acc (btree_insert k r)) kvs (Inr idx)"

definition int_leaf :: "nat \<Rightarrow> nat \<Rightarrow> node" where
  "int_leaf lo hi = Node True (map (\<lambda>n. [IntV (word_of_nat n)]) [lo..<hi]) (map (\<lambda>n. [n]) [lo..<hi]) []"

definition int_rows :: "nat \<Rightarrow> (index_key \<times> nat) list" where
  "int_rows n = map (\<lambda>i. ([IntV (word_of_nat i)], i)) [1..<n]"

definition sample_root :: node where
  "sample_root = Node False [[IntV 16]] [[16]] [int_leaf 1 16, int_leaf 17 33]"

text \<open>The length of every path from a node to a leaf, in order.\<close>

fun leaf_depths :: "node \<Rightarrow> nat list" where
  "leaf_depths (Node leaf ks rs cs) = (if leaf then [0] else map Suc (concat (map leaf_depths cs)))"

function removes_separator :: "node \<Rightarrow> index_key \<Rightarrow> nat \<Rightarrow> bool" where
  "removes_separator nd key row =
     (let i = key_pos (node_keys nd) key in
      if key_hit (node_keys nd) i key then \<not> node_leaf nd \<and> filter (\<lambda>r. r \<noteq> row) (node_rows nd ! i) = []
      else if node_leaf nd \<or> length (node_children nd) \<le> i then False
      else removes_separator (node_children nd ! i) key row)"
  by pat_completeness auto
termination
  by (relation "measure (\<lambda>(nd, _). size nd)") (auto simp: child_size)

declare removes_separator.simps [simp del]

text \<open>The keys of the subtrees to the right of a key, in the inner node that holds it.\<close>

function beyond_separator :: "node \<Rightarrow> index_key \<Rightarrow> index_key list" where
  "beyond_separator nd key =
     (let i = key_pos (node_keys nd) key in
      if key_hit (node_keys nd) i key then concat (map (\<lambda>c. map fst (entries c)) (drop (Suc i) (node_children nd)))
      else if node_leaf nd \<or> length (node_children nd) \<le> i then []
      else beyond_separator (node_children nd ! i) key)"
  by pat_completeness auto
termination
  by (relation "measure (\<lambda>(nd, _). size nd)") (auto simp: child_size)

declare beyond_separator.simps [simp del]

section \<open>The key order and woven lists\<close>

lemma index_dom_simps [simp]:
  "index_dom [] k = (k = [])" "index_dom ts [] = (ts = [])"
  "index_dom (t # ts) (v # k) = (exact_of t v \<and> index_dom ts k)"
  by (simp_all add: index_dom_def)

lemma index_dom_ConsE:
  assumes "index_dom (t # ts) k"
  obtains v k' where "k = v # k'" "exact_of t v" "index_dom ts k'"
  using assms by (cases k) simp_all

lemma index_less_Cons:
  assumes "exact_of t x" "exact_of t y"
  shows "index_less (x # a) (y # b) \<longleftrightarrow> value_less x y \<or> x = y \<and> index_less a b"
  using value_order.less_total [OF assms] value_order.less_asym [OF assms] value_order.less_irrefl [OF assms(1)]
  by (cases "value_less x y"; cases "x = y") simp_all

lemma index_less_irrefl: "index_dom ts k \<Longrightarrow> \<not> index_less k k"
proof (induction ts arbitrary: k)
  case (Cons t ts)
  obtain v k' where k: "k = v # k'" "exact_of t v" "index_dom ts k'" by (rule index_dom_ConsE [OF Cons.prems])
  then show ?case using Cons.IH [OF k(3)] value_order.less_irrefl [OF k(2)] by (simp only: index_less_Cons [OF k(2,2)]) simp
qed simp

lemma index_less_total: "index_dom ts a \<Longrightarrow> index_dom ts b \<Longrightarrow> index_less a b \<or> a = b \<or> index_less b a"
proof (induction ts arbitrary: a b)
  case (Cons t ts)
  obtain x a' where a: "a = x # a'" "exact_of t x" "index_dom ts a'" by (rule index_dom_ConsE [OF Cons.prems(1)])
  obtain y b' where b: "b = y # b'" "exact_of t y" "index_dom ts b'" by (rule index_dom_ConsE [OF Cons.prems(2)])
  show ?case
    unfolding a(1) b(1) index_less_Cons [OF a(2) b(2)] index_less_Cons [OF b(2) a(2)]
    using value_order.less_total [OF a(2) b(2)] Cons.IH [OF a(3) b(3)] by blast
qed simp

lemma index_less_trans:
  "index_dom ts a \<Longrightarrow> index_dom ts b \<Longrightarrow> index_dom ts c \<Longrightarrow> index_less a b \<Longrightarrow> index_less b c \<Longrightarrow> index_less a c"
proof (induction ts arbitrary: a b c)
  case (Cons t ts)
  obtain x a' where a: "a = x # a'" "exact_of t x" "index_dom ts a'" by (rule index_dom_ConsE [OF Cons.prems(1)])
  obtain y b' where b: "b = y # b'" "exact_of t y" "index_dom ts b'" by (rule index_dom_ConsE [OF Cons.prems(2)])
  obtain z c' where c: "c = z # c'" "exact_of t z" "index_dom ts c'" by (rule index_dom_ConsE [OF Cons.prems(3)])
  note xy = Cons.prems(4) [unfolded a(1) b(1) index_less_Cons [OF a(2) b(2)]]
    and yz = Cons.prems(5) [unfolded b(1) c(1) index_less_Cons [OF b(2) c(2)]]
  show ?case
    unfolding a(1) c(1) index_less_Cons [OF a(2) c(2)]
    using xy yz value_order.less_trans [OF a(2) b(2) c(2)] Cons.IH [OF a(3) b(3) c(3)] by blast
qed simp

lemma index_eq_iff: "index_dom ts a \<Longrightarrow> index_dom ts b \<Longrightarrow> index_eq a b = (a = b)"
proof (induction ts arbitrary: a b)
  case (Cons t ts)
  obtain x a' where a: "a = x # a'" "exact_of t x" "index_dom ts a'" by (rule index_dom_ConsE [OF Cons.prems(1)])
  obtain y b' where b: "b = y # b'" "exact_of t y" "index_dom ts b'" by (rule index_dom_ConsE [OF Cons.prems(2)])
  show ?case
    using Cons.IH [OF a(3) b(3)] value_eq_exact [OF a(2) b(2)] by (simp add: a(1) b(1) index_eq_def)
qed (simp add: index_eq_def)

interpretation index_order: key_order "index_dom ts" index_less index_eq for ts
  by unfold_locales (rule index_less_irrefl index_less_trans index_less_total index_eq_iff; assumption)+

lemma key_pos_le: "key_pos ks key \<le> length ks"
  by (induction ks) auto

lemma key_pos_before: "j < key_pos ks key \<Longrightarrow> index_less (ks ! j) key"
proof (induction ks arbitrary: j)
  case (Cons k ks)
  then show ?case by (cases j) (auto split: if_splits)
qed simp

lemma key_pos_at: "key_pos ks key < length ks \<Longrightarrow> \<not> index_less (ks ! key_pos ks key) key"
  by (induction ks) (auto split: if_splits)

section \<open>Woven lists\<close>

lemma weave_pre_append:
  "length xs = length ys \<Longrightarrow> weave (xs @ cs) (ys @ es) = weave_pre xs ys @ weave cs es"
  by (induction xs ys rule: list_induct2) (auto simp: weave_pre_def)

lemma weave_at:
  assumes "length cs = Suc (length es)" and "i \<le> length es"
  shows "weave cs es = weave_pre (take i cs) (take i es) @ cs ! i @ weave_post i cs es"
proof -
  have "weave cs es = weave_pre (take i cs) (take i es) @ weave (drop i cs) (drop i es)"
    using weave_pre_append [of "take i cs" "take i es" "drop i cs" "drop i es"] assms by simp
  moreover have "weave (drop i cs) (drop i es) = cs ! i @ weave_post i cs es"
    using assms by (cases "i < length es") (simp_all add: weave_post_def Cons_nth_drop_Suc [symmetric])
  ultimately show ?thesis by simp
qed

lemma weave_update:
  assumes "length cs = Suc (length es)" and "i \<le> length es"
  shows "weave (cs[i := c]) es = weave_pre (take i cs) (take i es) @ c @ weave_post i cs es"
  using weave_at [of "cs[i := c]" es i] assms by (simp add: weave_post_def)

lemma weave_cut:
  assumes "length cs = Suc (length es)" and "m < length es"
  shows "weave cs es = weave (take (Suc m) cs) (take m es) @ es ! m # weave (drop (Suc m) cs) (drop (Suc m) es)"
proof -
  have "weave (take (Suc m) cs) (take m es) = weave_pre (take m cs) (take m es) @ cs ! m"
    using weave_at [of "take (Suc m) cs" "take m es" m] assms by (simp add: weave_post_def min_def)
  then show ?thesis using weave_at [OF assms(1), of m] assms by (simp add: weave_post_def)
qed

lemma weave_split:
  assumes "length cs = Suc (length es)" and "i \<le> length es"
  shows "weave (take i cs @ l # r # drop (Suc i) cs) (take i es @ m # drop i es) =
    weave_pre (take i cs) (take i es) @ l @ m # r @ weave_post i cs es"
proof -
  have "weave (take i cs @ l # r # drop (Suc i) cs) (take i es @ m # drop i es) =
      weave_pre (take i cs) (take i es) @ weave (l # r # drop (Suc i) cs) (m # drop i es)"
    using assms by (intro weave_pre_append) simp
  moreover have "weave (r # drop (Suc i) cs) (drop i es) = r @ weave_post i cs es"
    using assms by (cases "i < length es") (simp_all add: weave_post_def Cons_nth_drop_Suc [symmetric])
  ultimately show ?thesis by simp
qed

lemma set_weave_pre:
  assumes "length cs = length es"
  shows "set (weave_pre cs es) = (\<Union>c \<in> set cs. set c) \<union> set es"
  using assms by (induction cs es rule: list_induct2) (auto simp: weave_pre_def)

section \<open>One child among its siblings\<close>

context key_order
begin

lemma upsert_mid:
  assumes "dom k" and "ordered (xs @ ys @ zs)" and "\<forall>x \<in> set xs. lt (fst x) k"
    and "zs \<noteq> [] \<longrightarrow> lt k (fst (hd zs))"
  shows "upsert lt k v (xs @ ys @ zs) = xs @ upsert lt k v ys @ zs"
proof -
  have "upsert lt k v (ys @ zs) = upsert lt k v ys @ zs"
  proof (cases zs)
    case (Cons z zs')
    obtain a vs where z: "z = (a, vs)" by (cases z)
    have "ordered (ys @ [(a, vs)])" using assms(2) Cons z by (auto simp: ordered_append ordered_Cons)
    then show ?thesis using upsert_suffix [OF assms(1)] assms(4) Cons z by simp
  qed simp
  then show ?thesis using upsert_prefix [of xs k v "ys @ zs"] assms(3) by simp
qed

lemma lookup_mid:
  assumes "dom k" and "ordered (xs @ ys @ zs)" and "\<forall>x \<in> set xs. lt (fst x) k"
    and "zs \<noteq> [] \<longrightarrow> lt k (fst (hd zs))"
  shows "lookup_rows (xs @ ys @ zs) k = lookup_rows ys k"
proof -
  have "\<forall>z \<in> set zs. lt k (fst z)"
  proof (cases zs)
    case (Cons z zs')
    have "ordered zs" using assms(2) by (simp add: ordered_append)
    then have z: "dom (fst z)" and tail: "\<forall>y \<in> set zs'. lt (fst z) (fst y)" "\<forall>y \<in> set zs'. dom (fst y)"
      using Cons by (simp_all add: ordered_def)
    have kz: "lt k (fst z)" using assms(4) Cons by simp
    show ?thesis
    proof
      fix y assume "y \<in> set zs"
      then show "lt k (fst y)" using kz less_trans [OF assms(1) z _ kz, of "fst y"] tail Cons by auto
    qed
  qed simp
  then show ?thesis
    using lookup_rows_prefix [of xs k "ys @ zs"] lookup_rows_suffix [of zs k ys] assms(1,3) by simp
qed

lemma below_last:
  assumes "ordered (xs @ [x])" and "lt (fst x) k" and "dom k"
  shows "\<forall>y \<in> set (xs @ [x]). lt (fst y) k"
proof -
  have x: "dom (fst x)" and xs: "\<forall>y \<in> set xs. lt (fst y) (fst x)" "\<forall>y \<in> set xs. dom (fst y)"
    using assms(1) by (simp_all add: ordered_def sorted_wrt_append)
  show ?thesis
  proof
    fix y assume "y \<in> set (xs @ [x])"
    then show "lt (fst y) k" using assms(2) less_trans [OF _ x assms(3) _ assms(2), of "fst y"] xs by auto
  qed
qed

end

lemma wf_node_parts:
  assumes "wf_node m low d nd"
  shows "length (node_rows nd) = length (node_keys nd)" "low \<le> length (node_keys nd)" "length (node_keys nd) \<le> kMaxKeys"
    "node_leaf nd \<longleftrightarrow> d = 0" "d = 0 \<Longrightarrow> node_children nd = []"
    "d = Suc d' \<Longrightarrow> length (node_children nd) = Suc (length (node_keys nd))"
    "d = Suc d' \<Longrightarrow> i \<le> length (node_keys nd) \<Longrightarrow> wf_node m m d' (node_children nd ! i)"
  using assms by (cases nd; cases d; auto simp: list_all_length)+

lemma weave_pre_snoc:
  "length xs = length ys \<Longrightarrow> weave_pre (xs @ [x]) (ys @ [y]) = weave_pre xs ys @ x @ [y]"
  by (simp add: weave_pre_def)

lemma weave_pre_take:
  assumes "0 < i" "i \<le> length es" "length cs = Suc (length es)"
  shows "\<exists>xs. weave_pre (take i cs) (take i es) = xs @ [es ! (i - 1)]"
proof -
  obtain j where j: "i = Suc j" using assms(1) by (cases i) auto
  have "take i cs = take j cs @ [cs ! j]" "take i es = take j es @ [es ! j]"
    using assms j by (simp_all add: take_Suc_conv_app_nth)
  then show ?thesis using j assms by (simp add: weave_pre_snoc)
qed

lemma entries_at:
  assumes "wf_node m low (Suc d) nd" and "i \<le> length (node_keys nd)"
  shows "entries nd = left_of nd i @ entries (node_children nd ! i) @ right_of nd i"
proof -
  note w = wf_node_parts [OF assms(1)]
  have "entries nd = weave (map entries (node_children nd)) (zip (node_keys nd) (node_rows nd))"
    using w(4) by (cases nd) simp
  then show ?thesis
    using weave_at [of "map entries (node_children nd)" "zip (node_keys nd) (node_rows nd)" i] w(1,6) assms(2)
    by (simp add: left_of_def right_of_def)
qed

lemma entries_set_child:
  assumes "wf_node m low (Suc d) nd" and "i \<le> length (node_keys nd)"
  shows "entries (set_child nd i c) = left_of nd i @ entries c @ right_of nd i"
proof -
  note w = wf_node_parts [OF assms(1)]
  have "entries (set_child nd i c) = weave ((map entries (node_children nd))[i := entries c]) (zip (node_keys nd) (node_rows nd))"
    using w(4) by (simp add: set_child_def map_update)
  then show ?thesis
    using weave_update [of "map entries (node_children nd)" "zip (node_keys nd) (node_rows nd)" i] w(1,6) assms(2)
    by (simp add: left_of_def right_of_def)
qed

lemma wf_set_child:
  assumes "wf_node m low (Suc d) nd" and "wf_node m m d c"
  shows "wf_node m low (Suc d) (set_child nd i c)"
proof (cases nd)
  case (Node lf ks rs cs)
  then show ?thesis using assms by (auto simp: set_child_def list_all_iff dest!: set_update_subset_insert [THEN subsetD])
qed

lemma around_child:
  assumes wf: "wf_node m low (Suc d) nd" and i: "i \<le> length (node_keys nd)" and ord: "index_order.ordered ts (entries nd)"
    and key: "index_dom ts key" and lo: "0 < i \<Longrightarrow> index_less (node_keys nd ! (i - 1)) key"
    and hi: "i < length (node_keys nd) \<Longrightarrow> index_less key (node_keys nd ! i)"
  shows "\<forall>x \<in> set (left_of nd i). index_less (fst x) key"
    and "right_of nd i \<noteq> [] \<longrightarrow> index_less key (fst (hd (right_of nd i)))"
proof -
  note w = wf_node_parts [OF wf]
  let ?es = "zip (node_keys nd) (node_rows nd)" let ?cs = "map entries (node_children nd)"
  have len: "length ?cs = Suc (length ?es)" "i \<le> length ?es" using w(1,6) i by simp_all
  show "\<forall>x \<in> set (left_of nd i). index_less (fst x) key"
  proof (cases "0 < i")
    case True
    obtain xs where xs: "left_of nd i = xs @ [?es ! (i - 1)]"
      using weave_pre_take [OF True len(2,1)] by (auto simp: left_of_def)
    have "index_order.ordered ts (left_of nd i)"
      using ord entries_at [OF wf i] by (simp add: index_order.ordered_append)
    then have ord': "index_order.ordered ts (xs @ [?es ! (i - 1)])" unfolding xs .
    have "fst (?es ! (i - 1)) = node_keys nd ! (i - 1)" using True i w(1) by simp
    then have "index_less (fst (?es ! (i - 1))) key" using lo [OF True] by simp
    from index_order.below_last [OF ord' this key] show ?thesis unfolding xs .
  qed (simp add: left_of_def weave_pre_def)
  show "right_of nd i \<noteq> [] \<longrightarrow> index_less key (fst (hd (right_of nd i)))"
    using hi w(1) by (simp add: right_of_def weave_post_def)
qed

lemma set_child_upsert:
  assumes wf: "wf_node m low (Suc d) nd" and i: "i \<le> length (node_keys nd)" and ord: "index_order.ordered ts (entries nd)"
    and key: "index_dom ts key" and lo: "0 < i \<Longrightarrow> index_less (node_keys nd ! (i - 1)) key"
    and hi: "i < length (node_keys nd) \<Longrightarrow> index_less key (node_keys nd ! i)"
    and c: "wf_node m m d c" "entries c = upsert index_less key row (entries (node_children nd ! i))"
  shows "wf_node m low (Suc d) (set_child nd i c)" "entries (set_child nd i c) = upsert index_less key row (entries nd)"
proof -
  show "wf_node m low (Suc d) (set_child nd i c)" by (rule wf_set_child [OF wf c(1)])
  note r = around_child [OF wf i ord key lo hi]
  show "entries (set_child nd i c) = upsert index_less key row (entries nd)"
    unfolding entries_set_child [OF wf i] entries_at [OF wf i] c(2)
    using index_order.upsert_mid [OF key _ r] ord entries_at [OF wf i] by simp
qed

section \<open>Splitting\<close>

lemma degree_consts: "kMinDegree = 16" "kMaxKeys = 31"
  by (simp_all add: kMinDegree_def kMaxKeys_def)

lemma take_zip_nth:
  "i < length ks \<Longrightarrow> length rs = length ks \<Longrightarrow> zip ks rs = zip (take i ks) (take i rs) @ (ks ! i, rs ! i) # zip (drop (Suc i) ks) (drop (Suc i) rs)"
  using id_take_nth_drop [of i "zip ks rs"] by (simp add: take_zip drop_zip)

lemma split_node_ok:
  assumes wf: "wf_node m low d nd" and full: "length (node_keys nd) = kMaxKeys" and m: "m \<le> 15"
  obtains l k r rt where "split_node nd = Inr (l, k, r, rt)" "wf_node m m d l" "wf_node m m d rt"
    "length (node_keys l) = 15" "length (node_keys rt) = 15" "entries nd = entries l @ (k, r) # entries rt"
proof -
  obtain lf ks rs cs where nd: "nd = Node lf ks rs cs" by (cases nd)
  note w = wf_node_parts [OF wf]
  have len: "length ks = 31" "length rs = 31" using full w(1) nd by (simp_all add: degree_consts)
  let ?l = "Node lf (take 15 ks) (take 15 rs) (if lf then cs else take 16 cs)"
  let ?r = "Node lf (drop 16 ks) (drop 16 rs) (if lf then [] else drop 16 cs)"
  have z: "zip ks rs = zip (take 15 ks) (take 15 rs) @ (ks ! 15, rs ! 15) # zip (drop 16 ks) (drop 16 rs)"
    using take_zip_nth [of 15 ks rs] len by simp
  show thesis
  proof (cases d)
    case 0
    have lf: "lf" "cs = []" using w(4,5) 0 nd by simp_all
    have "entries nd = entries ?l @ (ks ! 15, rs ! 15) # entries ?r" using z nd lf by simp
    moreover have "split_node nd = Inr (?l, ks ! 15, rs ! 15, ?r)"
      using len lf by (simp add: nd split_node_def Let_def vec_at_def degree_consts)
    moreover have "wf_node m m d ?l" "wf_node m m d ?r"
      using len lf 0 m by (simp_all add: degree_consts)
    ultimately show thesis using that len by simp
  next
    case (Suc d')
    have lf: "\<not> lf" "length cs = 32" "list_all (wf_node m m d') cs"
      using wf Suc nd len by simp_all
    have sub: "list_all P (take n xs)" "list_all P (drop n xs)" if "list_all P xs" for P n and xs :: "node list"
      using that by (auto simp: list_all_iff dest: in_set_takeD in_set_dropD)
    have "weave (map entries cs) (zip ks rs) = weave (take 16 (map entries cs)) (take 15 (zip ks rs)) @
        (zip ks rs) ! 15 # weave (drop 16 (map entries cs)) (drop 16 (zip ks rs))"
      using weave_cut [of "map entries cs" "zip ks rs" 15] lf(2) len by simp
    then have "entries nd = entries ?l @ (ks ! 15, rs ! 15) # entries ?r"
      using nd lf(1) len by (simp add: take_map drop_map take_zip drop_zip)
    moreover have "split_node nd = Inr (?l, ks ! 15, rs ! 15, ?r)"
      using len lf by (simp add: nd split_node_def Let_def vec_at_def degree_consts)
    moreover have "wf_node m m d ?l" "wf_node m m d ?r"
      using len lf Suc m sub [OF lf(3)] by (simp_all add: degree_consts)
    ultimately show thesis using that len by simp
  qed
qed

lemma split_child_ok:
  assumes wf: "wf_node m low (Suc d) nd" and i: "i \<le> length (node_keys nd)" and room: "length (node_keys nd) < kMaxKeys"
    and full: "length (node_keys (node_children nd ! i)) = kMaxKeys" and m: "m \<le> 15"
  obtains nd' where "split_child nd i = Inr nd'" "wf_node m low (Suc d) nd'" "entries nd' = entries nd"
    "length (node_keys nd') = Suc (length (node_keys nd))"
    "length (node_keys (node_children nd' ! i)) = 15" "length (node_keys (node_children nd' ! Suc i)) = 15"
    "\<And>j. j < i \<Longrightarrow> node_keys nd' ! j = node_keys nd ! j" "\<And>j. i \<le> j \<Longrightarrow> j < length (node_keys nd) \<Longrightarrow> node_keys nd' ! Suc j = node_keys nd ! j"
proof -
  obtain lf ks rs cs where nd: "nd = Node lf ks rs cs" by (cases nd)
  note w = wf_node_parts [OF wf]
  have len: "length rs = length ks" "length cs = Suc (length ks)" "\<not> lf" "i \<le> length ks"
    using w(1,4,6) i nd by simp_all
  have c: "wf_node m m d (cs ! i)" "length (node_keys (cs ! i)) = kMaxKeys"
    using w(7) [OF refl i] full nd by simp_all
  obtain l k r rt where sp: "split_node (cs ! i) = Inr (l, k, r, rt)" "wf_node m m d l" "wf_node m m d rt"
    "length (node_keys l) = 15" "length (node_keys rt) = 15" "entries (cs ! i) = entries l @ (k, r) # entries rt"
    by (rule split_node_ok [OF c m])
  let ?nd = "Node lf (take i ks @ k # drop i ks) (take i rs @ r # drop i rs) (take i cs @ l # rt # drop (Suc i) cs)"
  have "take (Suc i) (cs[i := l]) @ rt # drop (Suc i) (cs[i := l]) = take i cs @ l # rt # drop (Suc i) cs"
    using len by (simp add: take_Suc_conv_app_nth drop_update_cancel)
  then have run: "split_child nd i = Inr ?nd"
    using len sp(1) by (simp add: nd split_child_def vec_at_def vec_insert_def)
  have "list_all (wf_node m m d) cs" using wf nd by simp
  then have "wf_node m low (Suc d) ?nd"
    using wf nd room len sp(2,3) by (auto simp: list_all_iff dest: in_set_takeD in_set_dropD)
  moreover have "entries ?nd = entries nd"
  proof -
    have z: "zip (take i ks @ k # drop i ks) (take i rs @ r # drop i rs) = take i (zip ks rs) @ (k, r) # drop i (zip ks rs)"
      using len by (simp add: take_zip drop_zip)
    have m: "map entries (take i cs @ l # rt # drop (Suc i) cs) = take i (map entries cs) @ entries l # entries rt # drop (Suc i) (map entries cs)"
      by (simp add: take_map drop_map)
    have "entries ?nd = weave_pre (take i (map entries cs)) (take i (zip ks rs)) @ entries l @ (k, r) # entries rt @
        weave_post i (map entries cs) (zip ks rs)"
      using weave_split [of "map entries cs" "zip ks rs" i] len m z by simp
    also have "\<dots> = entries nd"
      using weave_at [of "map entries cs" "zip ks rs" i] len sp(6) nd by simp
    finally show ?thesis .
  qed
  moreover have "j < i \<Longrightarrow> (take i ks @ k # drop i ks) ! j = ks ! j" for j using len by (simp add: nth_append)
  moreover have "i \<le> j \<Longrightarrow> j < length ks \<Longrightarrow> (take i ks @ k # drop i ks) ! Suc j = ks ! j" for j
    using len by (simp add: nth_append Suc_diff_le)
  ultimately show thesis using that run sp(4,5) len nd by (auto simp: nth_append)
qed

section \<open>Insertion below a node\<close>

lemma entries_hit:
  assumes wf: "wf_node m low d nd" and i: "i < length (node_keys nd)"
  obtains xs ys where "entries nd = xs @ (node_keys nd ! i, node_rows nd ! i) # ys"
    "\<And>r. entries (Node (node_leaf nd) (node_keys nd) ((node_rows nd)[i := r]) (node_children nd)) = xs @ (node_keys nd ! i, r) # ys"
proof -
  obtain lf ks rs cs where nd: "nd = Node lf ks rs cs" by (cases nd)
  note w = wf_node_parts [OF wf]
  have len: "length rs = length ks" "i < length ks" using w(1) i nd by simp_all
  have z: "zip ks (rs[i := r]) = zip (take i ks) (take i rs) @ (ks ! i, r) # zip (drop (Suc i) ks) (drop (Suc i) rs)" for r
    using take_zip_nth [of i ks "rs[i := r]"] len by simp
  show thesis
  proof (cases d)
    case 0
    then have "lf" using w(4) nd by simp
    then show thesis using that z z [of "rs ! i"] nd by simp
  next
    case (Suc d')
    then have lf: "\<not> lf" "length cs = Suc (length ks)" using w(4,6) nd by simp_all
    have "weave (map entries cs) (zip ks (rs[i := r])) = weave (take (Suc i) (map entries cs)) (zip (take i ks) (take i rs)) @
        (ks ! i, r) # weave (drop (Suc i) (map entries cs)) (zip (drop (Suc i) ks) (drop (Suc i) rs))" for r
      using weave_cut [of "map entries cs" "zip ks (rs[i := r])" i] lf len by (simp add: take_zip drop_zip)
    from this this [of "rs ! i"] show thesis using that nd lf by simp
  qed
qed

lemma push_row_ok:
  assumes wf: "wf_node m low d nd" and i: "i < length (node_keys nd)" and ord: "index_order.ordered ts (entries nd)"
    and key: "index_dom ts (node_keys nd ! i)"
  obtains nd' where "push_row nd i row = Inr nd'" "wf_node m low d nd'"
    "entries nd' = upsert index_less (node_keys nd ! i) row (entries nd)"
proof -
  note w = wf_node_parts [OF wf]
  let ?nd = "Node (node_leaf nd) (node_keys nd) ((node_rows nd)[i := node_rows nd ! i @ [row]]) (node_children nd)"
  obtain xs ys where e: "entries nd = xs @ (node_keys nd ! i, node_rows nd ! i) # ys"
    "entries ?nd = xs @ (node_keys nd ! i, node_rows nd ! i @ [row]) # ys"
    using entries_hit [OF wf i] by metis
  have o: "index_order.ordered ts (xs @ [(node_keys nd ! i, node_rows nd ! i)])"
    using ord e(1) by (simp add: index_order.ordered_append index_order.ordered_Cons)
  have "entries ?nd = upsert index_less (node_keys nd ! i) row (entries nd)"
    unfolding e by (rule index_order.upsert_hit [OF key o, symmetric])
  moreover have "push_row nd i row = Inr ?nd" using w(1) i by (simp add: push_row_def vec_at_def)
  moreover have "wf_node m low d ?nd" using wf by (cases nd; cases d) simp_all
  ultimately show thesis using that by blast
qed

lemma node_keys_dom:
  assumes wf: "wf_node m low d nd" and ord: "index_order.ordered ts (entries nd)" and i: "i < length (node_keys nd)"
  shows "index_dom ts (node_keys nd ! i)"
proof -
  obtain xs ys where "entries nd = xs @ (node_keys nd ! i, node_rows nd ! i) # ys" using entries_hit [OF wf i] by metis
  then show ?thesis using ord by (simp add: index_order.ordered_append index_order.ordered_Cons)
qed

lemma key_pos_around:
  assumes wf: "wf_node m low d nd" and ord: "index_order.ordered ts (entries nd)" and key: "index_dom ts key"
    and miss: "\<not> key_hit (node_keys nd) (key_pos (node_keys nd) key) key"
  defines "i \<equiv> key_pos (node_keys nd) key"
  shows "i \<le> length (node_keys nd)" "0 < i \<Longrightarrow> index_less (node_keys nd ! (i - 1)) key"
    "i < length (node_keys nd) \<Longrightarrow> index_less key (node_keys nd ! i)"
proof -
  show "i \<le> length (node_keys nd)" unfolding i_def by (rule key_pos_le)
  show "0 < i \<Longrightarrow> index_less (node_keys nd ! (i - 1)) key" unfolding i_def by (rule key_pos_before) simp
  assume i: "i < length (node_keys nd)"
  note dom = node_keys_dom [OF wf ord i]
  have "\<not> index_less (node_keys nd ! i) key" using key_pos_at [of "node_keys nd" key] i by (simp add: i_def)
  moreover have "node_keys nd ! i \<noteq> key"
    using miss i index_order.eq_iff [OF dom key] by (auto simp: key_hit_def i_def)
  ultimately show "index_less key (node_keys nd ! i)" using index_order.less_total [OF dom key] by blast
qed

lemma key_hit_eq:
  assumes "wf_node m low d nd" "index_order.ordered ts (entries nd)" "index_dom ts key" "key_hit (node_keys nd) i key"
  shows "i < length (node_keys nd)" "node_keys nd ! i = key"
  using assms(4) index_order.eq_iff [OF node_keys_dom [OF assms(1,2)] assms(3), of i] by (auto simp: key_hit_def)

lemma insert_leaf_ok:
  assumes wf: "wf_node m low 0 nd" and room: "length (node_keys nd) < kMaxKeys" and ord: "index_order.ordered ts (entries nd)"
    and key: "index_dom ts key" and miss: "\<not> key_hit (node_keys nd) (key_pos (node_keys nd) key) key"
  shows "\<exists>nd'. insert_non_full nd key row = Inr nd' \<and> wf_node m low 0 nd' \<and> entries nd' = upsert index_less key row (entries nd)"
proof -
  obtain lf ks rs cs where nd: "nd = Node lf ks rs cs" by (cases nd)
  note w = wf_node_parts [OF wf]
  have len: "length rs = length ks" "lf" "cs = []" using w nd by simp_all
  let ?i = "key_pos ks key"
  note p = key_pos_around [OF wf ord key miss, unfolded nd node.sel]
  let ?nd = "Node lf (take ?i ks @ key # drop ?i ks) (take ?i rs @ [row] # drop ?i rs) cs"
  have run: "insert_non_full nd key row = Inr ?nd"
    using miss len p(1) nd by (simp add: insert_non_full.simps [of "Node True ks rs []"] Let_def vec_insert_def)
  have es: "entries nd = take ?i (zip ks rs) @ [] @ drop ?i (zip ks rs)" using nd len by simp
  have "\<forall>x \<in> set (take ?i (zip ks rs)). index_less (fst x) key"
  proof
    fix x assume "x \<in> set (take ?i (zip ks rs))"
    then obtain j where "j < ?i" "j < length (zip ks rs)" "x = zip ks rs ! j" by (auto simp: in_set_conv_nth)
    then show "index_less (fst x) key" using key_pos_before [of j ks key] len by simp
  qed
  moreover have "drop ?i (zip ks rs) \<noteq> [] \<longrightarrow> index_less key (fst (hd (drop ?i (zip ks rs))))"
    using p(3) len by (simp add: hd_drop_conv_nth)
  ultimately have "upsert index_less key row (entries nd) = take ?i (zip ks rs) @ [(key, [row])] @ drop ?i (zip ks rs)"
    using index_order.upsert_mid [OF key, of "take ?i (zip ks rs)" "[]" "drop ?i (zip ks rs)"] ord es by simp
  moreover have "entries ?nd = take ?i (zip ks rs) @ [(key, [row])] @ drop ?i (zip ks rs)"
    using len p(1) by (simp add: take_zip drop_zip)
  moreover have "wf_node m low 0 ?nd" using wf room nd len p(1) by simp
  ultimately show ?thesis using run by simp
qed

lemma inserts_hit:
  assumes wf: "wf_node m low d nd" and ord: "index_order.ordered ts (entries nd)" and key: "index_dom ts key"
    and hit: "key_hit (node_keys nd) (key_pos (node_keys nd) key) key"
  shows "inserts m ts key row low d nd"
proof -
  note h = key_hit_eq [OF wf ord key hit]
  show ?thesis
    using push_row_ok [OF wf h(1) ord, of row] h(2) key hit
    by (auto simp: inserts_def insert_non_full.simps [of nd] Let_def)
qed

lemma descend_ok:
  assumes IH: "\<And>nd. wf_node m m d nd \<Longrightarrow> length (node_keys nd) < kMaxKeys \<Longrightarrow>
      index_order.ordered ts (entries nd) \<Longrightarrow> inserts m ts key row m d nd"
    and wf: "wf_node m low (Suc d) nd" and ord: "index_order.ordered ts (entries nd)" and key: "index_dom ts key"
    and j: "j \<le> length (node_keys nd)" and small: "length (node_keys (node_children nd ! j)) < kMaxKeys"
    and lo: "0 < j \<Longrightarrow> index_less (node_keys nd ! (j - 1)) key"
    and hi: "j < length (node_keys nd) \<Longrightarrow> index_less key (node_keys nd ! j)"
  obtains c where "insert_non_full (node_children nd ! j) key row = Inr c" "wf_node m low (Suc d) (set_child nd j c)"
    "entries (set_child nd j c) = upsert index_less key row (entries nd)"
proof -
  have "index_order.ordered ts (entries (node_children nd ! j))"
    using ord unfolding entries_at [OF wf j] by (simp add: index_order.ordered_append)
  then obtain c where c: "insert_non_full (node_children nd ! j) key row = Inr c" "wf_node m m d c"
    "entries c = upsert index_less key row (entries (node_children nd ! j))"
    using IH [OF wf_node_parts(7) [OF wf refl j] small] by (auto simp: inserts_def)
  show thesis using set_child_upsert [OF wf j ord key lo hi c(2,3)] c(1) that by blast
qed

lemma inserts_split:
  assumes IH: "\<And>nd. wf_node m m d nd \<Longrightarrow> length (node_keys nd) < kMaxKeys \<Longrightarrow>
      index_order.ordered ts (entries nd) \<Longrightarrow> inserts m ts key row m d nd"
    and wf: "wf_node m low (Suc d) nd" and room: "length (node_keys nd) < kMaxKeys"
    and ord: "index_order.ordered ts (entries nd)" and key: "index_dom ts key"
  defines "i \<equiv> key_pos (node_keys nd) key"
  assumes miss: "\<not> key_hit (node_keys nd) i key" and full: "length (node_keys (node_children nd ! i)) = kMaxKeys" and m: "m \<le> 15"
  shows "inserts m ts key row low (Suc d) nd"
proof -
  note p = key_pos_around [OF wf ord key miss [unfolded i_def], folded i_def] and w = wf_node_parts [OF wf]
  have inner: "\<not> node_leaf nd" "\<not> length (node_children nd) \<le> i" using w(4,6) p(1) by simp_all
  obtain nd' where nd': "split_child nd i = Inr nd'" "wf_node m low (Suc d) nd'" "entries nd' = entries nd"
    "length (node_keys nd') = Suc (length (node_keys nd))"
    "length (node_keys (node_children nd' ! i)) = 15" "length (node_keys (node_children nd' ! Suc i)) = 15"
    "\<And>j. j < i \<Longrightarrow> node_keys nd' ! j = node_keys nd ! j"
    "\<And>j. i \<le> j \<Longrightarrow> j < length (node_keys nd) \<Longrightarrow> node_keys nd' ! Suc j = node_keys nd ! j"
    by (rule split_child_ok [OF wf p(1) room full m]) blast
  have ord': "index_order.ordered ts (entries nd')" and i': "i < length (node_keys nd')" using ord nd'(3,4) p(1) by simp_all
  note dom = node_keys_dom [OF nd'(2) ord' i'] and step = descend_ok [OF IH nd'(2) ord' key]
  note unf = inserts_def insert_non_full.simps [of nd] Let_def kMaxKeys_def i_def [symmetric]
  consider "index_less (node_keys nd' ! i) key" | "node_keys nd' ! i = key" | "index_less key (node_keys nd' ! i)"
    using index_order.less_total [OF dom key] by blast
  then show ?thesis
  proof cases
    case 1
    have "Suc i < length (node_keys nd') \<Longrightarrow> index_less key (node_keys nd' ! Suc i)" using p(3) nd'(4) nd'(8) [of i] by simp
    then obtain c where "insert_non_full (node_children nd' ! Suc i) key row = Inr c" "wf_node m low (Suc d) (set_child nd' (Suc i) c)"
      "entries (set_child nd' (Suc i) c) = upsert index_less key row (entries nd')"
      using step [of "Suc i"] i' nd'(6) 1 by (auto simp: degree_consts)
    then show ?thesis using miss inner full nd'(1,3) 1 by (simp add: unf)
  next
    case 2
    obtain nd'' where "push_row nd' i row = Inr nd''" "wf_node m low (Suc d) nd''"
      "entries nd'' = upsert index_less key row (entries nd)"
      using push_row_ok [OF nd'(2) i' ord', of row] 2 key nd'(3) by auto
    then show ?thesis
      using miss inner full nd'(1) 2 index_order.less_irrefl [OF key] index_order.eq_iff [OF key key] by (simp add: unf)
  next
    case 3
    have "\<not> index_less (node_keys nd' ! i) key" "\<not> index_eq (node_keys nd' ! i) key"
      using index_order.less_asym [OF key dom 3] index_order.eq_iff [OF dom key] 3 index_order.less_irrefl [OF key] by auto
    moreover have "0 < i \<Longrightarrow> index_less (node_keys nd' ! (i - 1)) key" using p(2) nd'(7) [of "i - 1"] by simp
    then obtain c where "insert_non_full (node_children nd' ! i) key row = Inr c" "wf_node m low (Suc d) (set_child nd' i c)"
      "entries (set_child nd' i c) = upsert index_less key row (entries nd')"
      using step [of i] i' nd'(5) 3 by (auto simp: degree_consts)
    ultimately show ?thesis using miss inner full nd'(1,3) by (simp add: unf)
  qed
qed

lemma insert_non_full_ok:
  assumes "wf_node m low d nd" and "length (node_keys nd) < kMaxKeys" and "index_order.ordered ts (entries nd)"
    and "index_dom ts key" and "m \<le> 15"
  shows "inserts m ts key row low d nd"
  using assms
proof (induction d arbitrary: low nd)
  case 0
  then show ?case
    using insert_leaf_ok [OF 0(1-4)] inserts_hit [OF 0(1,3,4)] by (auto simp: inserts_def)
next
  case (Suc d)
  note wf = Suc.prems(1) and ord = Suc.prems(3) and key = Suc.prems(4)
  note IH = Suc.IH [OF _ _ _ key Suc.prems(5)]
  let ?i = "key_pos (node_keys nd) key"
  show ?case
  proof (cases "key_hit (node_keys nd) ?i key")
    case False
    note p = key_pos_around [OF wf ord key False] and w = wf_node_parts [OF wf]
    show ?thesis
    proof (cases "length (node_keys (node_children nd ! ?i)) = kMaxKeys")
      case True
      show ?thesis by (rule inserts_split [OF IH wf Suc.prems(2) ord key False True Suc.prems(5)])
    next
      case small: False
      have less: "length (node_keys (node_children nd ! ?i)) < kMaxKeys"
        using wf_node_parts(3) [OF w(7) [OF refl p(1)]] small by simp
      obtain c where "insert_non_full (node_children nd ! ?i) key row = Inr c"
        "wf_node m low (Suc d) (set_child nd ?i c)" "entries (set_child nd ?i c) = upsert index_less key row (entries nd)"
        by (rule descend_ok [OF IH wf ord key p(1) less p(2,3)])
      then show ?thesis
        using False w(4,6) p(1) small by (simp add: inserts_def insert_non_full.simps [of nd] Let_def kMaxKeys_def)
    qed
  qed (rule inserts_hit [OF wf ord key])
qed

section \<open>Insertion and point lookup\<close>

lemma wf_index_ordered:
  "wf_index m ts idx = (case idx of None \<Rightarrow> True | Some nd \<Rightarrow> root_ok m nd \<and> index_order.ordered ts (entries nd))"
  by (simp add: wf_index_def index_order.ordered_def split: option.splits)

lemma root_okI: "wf_node m low d nd \<Longrightarrow> low = (if d = 0 then 0 else 1) \<Longrightarrow> root_ok m nd"
  unfolding root_ok_def by blast

lemma wf_node_low: "wf_node m low d nd \<Longrightarrow> low' \<le> length (node_keys nd) \<Longrightarrow> wf_node m low' d nd"
  by (cases nd; cases d) simp_all

lemma insert_root_ok:
  assumes root: "root_ok m nd" and ord: "index_order.ordered ts (entries nd)"
    and key: "indexable ts key" and m: "m \<le> 15"
  shows "\<exists>idx. btree_insert key row (Some nd) = Inr idx \<and> wf_index m ts idx \<and>
    index_entries idx = upsert index_less key row (entries nd)"
proof -
  obtain d low where wf: "wf_node m low d nd" and low: "low = (if d = 0 then 0 else 1)" using root by (auto simp: root_ok_def)
  show ?thesis
  proof (cases "length (node_keys nd) = kMaxKeys")
  case True
  let ?new = "Node False [] [] [nd]"
  have new: "wf_node m 0 (Suc d) ?new" using wf_node_low [OF wf, of m] True m by (simp add: degree_consts)
  obtain nd' where nd': "split_child ?new 0 = Inr nd'" "wf_node m 0 (Suc d) nd'" "entries nd' = entries ?new"
    "length (node_keys nd') = Suc (length (node_keys ?new))"
    by (rule split_child_ok [OF new, of 0]) (use True m in \<open>auto simp: degree_consts\<close>)
  have wf1: "wf_node m 1 (Suc d) nd'" using wf_node_low [OF nd'(2)] nd'(4) by simp
  have "inserts m ts key row 1 (Suc d) nd'"
    using insert_non_full_ok [OF wf1, of ts key row] nd'(3,4) ord key m by (simp add: indexable_def degree_consts)
  then obtain nd'' where "insert_non_full nd' key row = Inr nd''" "wf_node m 1 (Suc d) nd''"
    "entries nd'' = upsert index_less key row (entries nd)"
    using nd'(3) by (auto simp: inserts_def)
  then show ?thesis
    using True nd'(1) key ord index_order.ordered_upsert [of ts key "entries nd" row]
      root_okI [of m 1 "Suc d"]
    by (auto simp: btree_insert_def kMaxKeys_def wf_index_ordered index_entries_def indexable_def)
next
  case False
  then have "length (node_keys nd) < kMaxKeys" using wf_node_parts(3) [OF wf] by simp
  then obtain nd' where "insert_non_full nd key row = Inr nd'" "wf_node m low d nd'"
    "entries nd' = upsert index_less key row (entries nd)"
    using insert_non_full_ok [OF wf _ ord, of key row] key m by (auto simp: inserts_def indexable_def)
  then show ?thesis
    using False key ord index_order.ordered_upsert [of ts key "entries nd" row] root_okI [OF _ low]
    by (auto simp: btree_insert_def kMaxKeys_def wf_index_ordered index_entries_def indexable_def)
  qed
qed

lemma btree_insert_ok:
  assumes wf: "wf_index m ts idx" and key: "indexable ts key" and m: "m \<le> 15"
  shows "\<exists>idx'. btree_insert key row idx = Inr idx' \<and> wf_index m ts idx' \<and>
    index_entries idx' = upsert index_less key row (index_entries idx)"
proof (cases idx)
  case None
  have "btree_insert key row None = btree_insert key row (Some (Node True [] [] []))"
    using key by (simp add: btree_insert_def indexable_def)
  moreover have "root_ok m (Node True [] [] [])" by (rule root_okI [of m 0 0]) (simp_all add: degree_consts)
  ultimately show ?thesis
    using insert_root_ok [of m "Node True [] [] []" ts key row] key m None by (simp add: index_entries_def)
next
  case (Some nd)
  then show ?thesis using insert_root_ok [OF _ _ key m, of nd row] wf by (simp add: wf_index_ordered index_entries_def)
qed

lemma btree_insert_skips: "has_null key \<or> key = [] \<Longrightarrow> btree_insert key row idx = Inr idx"
  by (simp add: btree_insert_def)

lemma collect_equal_hit:
  assumes wf: "wf_node m low d nd" and ord: "index_order.ordered ts (entries nd)" and key: "index_dom ts key"
    and hit: "key_hit (node_keys nd) (key_pos (node_keys nd) key) key"
  shows "collect_equal nd key = Inr (lookup_rows (entries nd) key)"
proof -
  let ?i = "key_pos (node_keys nd) key"
  note h = key_hit_eq [OF wf ord key hit]
  obtain xs ys where e: "entries nd = xs @ (key, node_rows nd ! ?i) # ys" using entries_hit [OF wf h(1)] h(2) by metis
  have "lookup_rows (entries nd) key = node_rows nd ! ?i"
    unfolding e by (rule index_order.lookup_rows_hit [OF ord [unfolded e]])
  then show ?thesis using hit h wf_node_parts(1) [OF wf] by (simp add: collect_equal.simps [of nd] Let_def vec_at_def)
qed

lemma leaf_key_absent:
  assumes wf: "wf_node m low 0 nd" and ord: "index_order.ordered ts (entries nd)" and key: "index_dom ts key"
    and miss: "\<not> key_hit (node_keys nd) (key_pos (node_keys nd) key) key"
  shows "key \<notin> set (node_keys nd)"
proof
  let ?i = "key_pos (node_keys nd) key"
  note w = wf_node_parts [OF wf] and p = key_pos_around [OF wf ord key miss] and irr = index_order.less_irrefl [OF key]
  assume "key \<in> set (node_keys nd)"
  then obtain j where j: "j < length (node_keys nd)" "node_keys nd ! j = key" by (auto simp: in_set_conv_nth)
  have es: "entries nd = zip (node_keys nd) (node_rows nd)" using w(4) by (cases nd) simp
  have srt: "sorted_wrt index_less (node_keys nd)" using ord w(1) by (simp add: es index_order.ordered_def)
  consider "j < ?i" | "j = ?i" | "?i < j" by linarith
  then show False
  proof cases
    case 1
    then show False using key_pos_before [OF 1] j(2) irr by simp
  next
    case 2
    then show False using p(3) j irr by simp
  next
    case 3
    then have "index_less (node_keys nd ! ?i) key" using sorted_wrt_nth_less [OF srt 3 j(1)] j(2) by simp
    then show False using key_pos_at [of "node_keys nd" key] 3 j(1) by simp
  qed
qed

lemma collect_equal_ok:
  assumes "wf_node m low d nd" and "index_order.ordered ts (entries nd)" and "index_dom ts key"
  shows "collect_equal nd key = Inr (lookup_rows (entries nd) key)"
  using assms
proof (induction d arbitrary: low nd)
  case 0
  note w = wf_node_parts [OF 0(1)]
  show ?case
  proof (cases "key_hit (node_keys nd) (key_pos (node_keys nd) key) key")
    case True
    show ?thesis by (rule collect_equal_hit [OF 0 True])
  next
    case False
    have "key \<notin> set (node_keys nd)" by (rule leaf_key_absent [OF 0 False])
    moreover have "entries nd = zip (node_keys nd) (node_rows nd)" using w(4) by (cases nd) simp
    ultimately have "lookup_rows (entries nd) key = []"
      using w(1) by (simp add: lookup_rows_def map_of_eq_None_iff set_zip_leftD split: option.splits)
        (metis map_of_SomeD set_zip_leftD)
    then show ?thesis using False w(4) by (simp add: collect_equal.simps [of nd] Let_def)
  qed
next
  case (Suc d)
  note w = wf_node_parts [OF Suc.prems(1)]
  let ?i = "key_pos (node_keys nd) key"
  show ?case
  proof (cases "key_hit (node_keys nd) ?i key")
    case True
    show ?thesis by (rule collect_equal_hit [OF Suc.prems True])
  next
    case False
    note p = key_pos_around [OF Suc.prems False]
    note e = entries_at [OF Suc.prems(1) p(1)] and r = around_child [OF Suc.prems(1) p(1) Suc.prems(2,3) p(2,3)]
    have "index_order.ordered ts (entries (node_children nd ! ?i))"
      using Suc.prems(2) unfolding e by (simp add: index_order.ordered_append)
    then have "collect_equal (node_children nd ! ?i) key = Inr (lookup_rows (entries (node_children nd ! ?i)) key)"
      using Suc.IH [OF w(7) [OF refl p(1)]] Suc.prems(3) by blast
    moreover have "lookup_rows (entries nd) key = lookup_rows (entries (node_children nd ! ?i)) key"
      unfolding e by (rule index_order.lookup_mid [OF Suc.prems(3) Suc.prems(2) [unfolded e] r])
    ultimately show ?thesis using False w(4,6) p(1) by (simp add: collect_equal.simps [of nd] Let_def)
  qed
qed

section \<open>Ordered scans\<close>

lemma rows_of_simps [simp]:
  "rows_of P [] = []" "rows_of P (e # es) = (if P (fst e) then snd e @ rows_of P es else rows_of P es)"
  "rows_of P (xs @ ys) = rows_of P xs @ rows_of P ys"
  by (simp_all add: rows_of_def)

lemma rows_of_none: "(\<And>e. e \<in> set es \<Longrightarrow> \<not> P (fst e)) \<Longrightarrow> rows_of P es = []"
  by (simp add: rows_of_def filter_empty_conv)

text \<open>A stop test is sound for a filter when no key behind a stopping key passes the filter.\<close>

lemma stop_rest:
  assumes "stops ts pass stop" and "index_order.ordered ts ((k, r) # es)" and "stop k"
  shows "rows_of pass es = []"
proof (rule rows_of_none)
  fix e assume "e \<in> set es"
  then have "index_less k (fst e)" "index_dom ts (fst e)" "index_dom ts k"
    using assms(2) index_order.ordered_dom [of ts es "fst e" "snd e"] by (auto simp: index_order.ordered_Cons)
  then show "\<not> pass (fst e)" using assms(1,3) unfolding stops_def by blast
qed

lemma collect_loop_leaf:
  assumes st: "stops ts pass stop"
  shows "length rs = length ks \<Longrightarrow> index_order.ordered ts (zip ks rs) \<Longrightarrow>
    collect_loop True pass stop bk ks rs cs = Inr (rows_of pass (zip ks rs))"
proof (induction ks arbitrary: rs cs)
  case (Cons k ks)
  obtain r rs' where rs: "rs = r # rs'" using Cons.prems(1) by (cases rs) auto
  have tail: "index_order.ordered ts (zip ks rs')" using Cons.prems(2) rs by (simp add: index_order.ordered_Cons)
  have "\<not> pass k \<Longrightarrow> stop k \<Longrightarrow> rows_of pass (zip ks rs') = []"
    using stop_rest [OF st, of k r "zip ks rs'"] Cons.prems(2) rs by simp
  then show ?case using Cons.IH [of rs' "tl cs"] Cons.prems(1) tail rs by simp
qed simp

lemma collect_loop_inner:
  assumes st: "stops ts pass stop"
  shows "length rs = length ks \<Longrightarrow> length cs = Suc (length ks) \<Longrightarrow>
    index_order.ordered ts (weave (map entries cs) (zip ks rs)) \<Longrightarrow>
    (\<And>c. c \<in> set cs \<Longrightarrow> F c = Inr (rows_of pass (entries c))) \<Longrightarrow>
    collect_loop False pass stop (last_child (map F cs)) ks rs (map F cs) =
      Inr (rows_of pass (weave (map entries cs) (zip ks rs)))"
proof (induction ks arbitrary: rs cs)
  case Nil
  then obtain c where "cs = [c]" by (cases cs) auto
  then show ?case using Nil by (simp add: last_child_def)
next
  case (Cons k ks)
  obtain r rs' where rs: "rs = r # rs'" using Cons.prems(1) by (cases rs) auto
  obtain c cs' where cs: "cs = c # cs'" using Cons.prems(2) by (cases cs) auto
  have cs': "cs' \<noteq> []" "length cs' = Suc (length ks)" using Cons.prems(2) cs by auto
  have lastc: "last_child (map F cs) = last_child (map F cs')" using cs cs'(1) by (simp add: last_child_def)
  let ?tail = "weave (map entries cs') (zip ks rs')"
  have ord: "index_order.ordered ts ((k, r) # ?tail)" using Cons.prems(3) rs cs by (simp add: index_order.ordered_append)
  have IH: "collect_loop False pass stop (last_child (map F cs')) ks rs' (map F cs') = Inr (rows_of pass ?tail)"
    using Cons.IH [of rs' cs'] Cons.prems(1,4) ord rs cs cs'(2) by (simp add: index_order.ordered_Cons)
  have "F c = Inr (rows_of pass (entries c))" using Cons.prems(4) cs by simp
  moreover have "stop k \<Longrightarrow> rows_of pass ?tail = []" using stop_rest [OF st ord] .
  ultimately show ?case using IH lastc rs cs by simp
qed

lemma collect_node_ok:
  assumes "wf_node m low d nd" and "index_order.ordered ts (entries nd)" and "stops ts pass stop"
  shows "collect_node pass stop nd = Inr (rows_of pass (entries nd))"
  using assms
proof (induction d arbitrary: low nd)
  case 0
  then show ?case
    using collect_loop_leaf [OF 0(3)] by (cases nd) auto
next
  case (Suc d)
  obtain lf ks rs cs where nd: "nd = Node lf ks rs cs" by (cases nd)
  have w: "\<not> lf" "length rs = length ks" "length cs = Suc (length ks)" "list_all (wf_node m m d) cs" using Suc.prems(1) nd by simp_all
  have ord: "index_order.ordered ts (weave (map entries cs) (zip ks rs))" using Suc.prems(2) nd w(1) by simp
  have "collect_node pass stop c = Inr (rows_of pass (entries c))" if "c \<in> set cs" for c
  proof -
    obtain j where j: "j < length cs" "cs ! j = c" using \<open>c \<in> set cs\<close> by (auto simp: in_set_conv_nth)
    have "index_order.ordered ts (entries c)"
      using Suc.prems(2) entries_at [OF Suc.prems(1), of j] j w(3) nd by (simp add: index_order.ordered_append)
    then show ?thesis using Suc.IH [of m c] w(4) that Suc.prems(3) by (simp add: list_all_iff)
  qed
  then show ?case using collect_loop_inner [OF Suc.prems(3) w(2,3) ord, of "collect_node pass stop"] nd w(1) by simp
qed

lemma stops_range: "(\<And>u. upper = Some u \<Longrightarrow> index_dom ts u) \<Longrightarrow> stops ts (in_range lower li upper ui) (past_upper upper)"
  unfolding stops_def
proof (intro allI impI)
  fix k k' assume d: "\<And>u. upper = Some u \<Longrightarrow> index_dom ts u" "index_dom ts k" "index_dom ts k'" and
    past: "past_upper upper k" and less: "index_less k k'"
  obtain u where u: "upper = Some u" "index_less u k" using past by (auto simp: past_upper_def split: option.splits)
  have "index_less u k'" using index_order.less_trans [OF d(1) [OF u(1)] d(2,3) u(2) less] .
  moreover have "\<not> index_less k' u" using index_order.less_asym [OF d(1) [OF u(1)] d(3)] calculation by blast
  ultimately show "\<not> in_range lower li upper ui k'" using u(1) by (simp add: in_range_def passes_upper_def)
qed

lemma past_prefix_grows:
  "index_dom ts k \<Longrightarrow> index_dom ts k' \<Longrightarrow> index_dom (take (length p) ts) p \<Longrightarrow> prefix_exceeded p k \<Longrightarrow> index_less k k' \<Longrightarrow>
     \<not> starts_with k' p"
proof (induction ts arbitrary: k k' p)
  case (Cons t ts)
  obtain v k1 where k: "k = v # k1" "exact_of t v" "index_dom ts k1" by (rule index_dom_ConsE [OF Cons.prems(1)])
  obtain v' k2 where k': "k' = v' # k2" "exact_of t v'" "index_dom ts k2" by (rule index_dom_ConsE [OF Cons.prems(2)])
  obtain a p' where p: "p = a # p'" using Cons.prems(4) by (cases p) auto
  have a: "exact_of t a" "index_dom (take (length p') ts) p'" using Cons.prems(3) p by simp_all
  have "value_less a v \<or> a = v \<and> prefix_exceeded p' k1"
    using Cons.prems(4) value_order.less_total [OF a(1) k(2)] p k(1) by (auto split: if_splits)
  moreover have "value_less v v' \<or> v = v' \<and> index_less k1 k2"
    using Cons.prems(5) index_less_Cons [OF k(2) k'(2)] k(1) k'(1) by (simp del: index_less.simps)
  ultimately have "value_less a v' \<or> a = v' \<and> prefix_exceeded p' k1 \<and> index_less k1 k2"
    using value_order.less_trans [OF a(1) k(2) k'(2)] by blast
  then show ?case
    using Cons.IH [OF k(3) k'(3) a(2)] value_eq_exact [OF k'(2) a(1)] value_order.less_irrefl [OF a(1)] p k'(1) by auto
qed simp

lemma stops_prefix: "index_dom (take (length p) ts) p \<Longrightarrow> stops ts (\<lambda>k. starts_with k p) (past_prefix p)"
  unfolding stops_def past_prefix_def using past_prefix_grows by blast

text \<open>The lookups on an index.\<close>

lemma find_equal_ok:
  assumes "wf_index m ts idx" and "indexable ts key"
  shows "find_equal idx key = Inr (lookup_rows (index_entries idx) key)"
  using assms collect_equal_ok
  by (auto simp: find_equal_def wf_index_ordered root_ok_def index_entries_def indexable_def lookup_rows_def split: option.splits)

lemma find_range_ok:
  assumes "wf_index m ts idx" and "\<And>u. upper = Some u \<Longrightarrow> index_dom ts u"
  shows "find_range idx lower li upper ui = Inr (rows_of (in_range lower li upper ui) (index_entries idx))"
proof (cases idx)
  case (Some nd)
  then obtain d low where "wf_node m low d nd" "index_order.ordered ts (entries nd)"
    using assms(1) by (auto simp: wf_index_ordered root_ok_def)
  from collect_node_ok [OF this stops_range [OF assms(2)]] show ?thesis
    using Some by (simp add: find_range_def collect_range_def index_entries_def)
qed (simp add: find_range_def index_entries_def)

lemma find_prefix_ok:
  assumes "wf_index m ts idx" and "indexable (take (length p) ts) p"
  shows "find_prefix idx p = Inr (rows_of (\<lambda>k. starts_with k p) (index_entries idx))"
proof (cases idx)
  case (Some nd)
  then obtain d low where "wf_node m low d nd" "index_order.ordered ts (entries nd)"
    using assms(1) by (auto simp: wf_index_ordered root_ok_def)
  from collect_node_ok [OF this stops_prefix] show ?thesis
    using Some assms(2) by (simp add: find_prefix_def collect_prefix_def index_entries_def indexable_def)
qed (simp add: find_prefix_def index_entries_def)

section \<open>Removal below a node\<close>

lemma drop_row_append [simp]: "drop_row k r (xs @ ys) = drop_row k r xs @ drop_row k r ys"
  by (simp add: drop_row_def)

lemma drop_row_Cons: "drop_row k r (e # es) = drop_row k r [e] @ drop_row k r es"
  by (simp add: drop_row_def)

lemma drop_row_other: "(\<And>e. e \<in> set es \<Longrightarrow> fst e \<noteq> k) \<Longrightarrow> drop_row k r es = es"
proof (induction es)
  case (Cons e es)
  then have "drop_row k r es = es" "fst e \<noteq> k" by simp_all
  then show ?case by (simp add: drop_row_def split_beta)
qed (simp add: drop_row_def)

lemma drop_row_single: "drop_row k r [(k, rs)] = (let rs' = filter (\<lambda>x. x \<noteq> r) rs in if rs' = [] then [] else [(k, rs')])"
  by (simp add: drop_row_def)

lemma drop_row_hit:
  assumes "index_order.ordered ts (xs @ (k, rs) # ys)"
  shows "drop_row k r (xs @ (k, rs) # ys) = xs @ drop_row k r [(k, rs)] @ ys"
proof -
  have "distinct (map fst (xs @ (k, rs) # ys))" by (rule index_order.ordered_distinct [OF assms])
  then have "drop_row k r xs = xs" "drop_row k r ys = ys" by (auto intro!: drop_row_other)
  then show ?thesis by (simp add: drop_row_Cons [of k r "(k, rs)" ys])
qed

lemma remove_hit_keeps:
  assumes wf: "wf_node 0 low d nd" and ord: "index_order.ordered ts (entries nd)" and key: "index_dom ts key"
    and hit: "key_hit (node_keys nd) (key_pos (node_keys nd) key) key"
    and left: "filter (\<lambda>r. r \<noteq> row) (node_rows nd ! key_pos (node_keys nd) key) \<noteq> []"
  shows "removes_ok key row low d nd"
proof -
  let ?i = "key_pos (node_keys nd) key"
  let ?rs = "filter (\<lambda>r. r \<noteq> row) (node_rows nd ! ?i)"
  let ?nd = "Node (node_leaf nd) (node_keys nd) ((node_rows nd)[?i := ?rs]) (node_children nd)"
  note h = key_hit_eq [OF wf ord key hit] and w = wf_node_parts [OF wf]
  obtain xs ys where e: "entries nd = xs @ (key, node_rows nd ! ?i) # ys" "entries ?nd = xs @ (key, ?rs) # ys"
    using entries_hit [OF wf h(1)] h(2) by metis
  have "entries ?nd = drop_row key row (entries nd)"
    unfolding e using drop_row_hit [OF ord [unfolded e]] left by (simp add: drop_row_single Let_def)
  moreover have "wf_node 0 low d ?nd" using wf by (cases nd; cases d) simp_all
  moreover have "remove_from_node nd key row = Inr (True, ?nd)"
    using hit left h(1) w(1) by (simp add: remove_from_node.simps [of nd] Let_def vec_at_def)
  ultimately show ?thesis by (auto simp: removes_ok_def)
qed

lemma remove_leaf_last:
  assumes wf: "wf_node 0 low 0 nd" and ord: "index_order.ordered ts (entries nd)" and key: "index_dom ts key"
    and hit: "key_hit (node_keys nd) (key_pos (node_keys nd) key) key"
    and left: "filter (\<lambda>r. r \<noteq> row) (node_rows nd ! key_pos (node_keys nd) key) = []"
  shows "removes_ok key row 0 0 nd"
proof -
  obtain lf ks rs cs where nd: "nd = Node lf ks rs cs" by (cases nd)
  let ?i = "key_pos ks key"
  have h: "?i < length ks" "ks ! ?i = key" using key_hit_eq [OF wf ord key hit] nd by simp_all
  have len: "length rs = length ks" "lf" "cs = []" "length ks \<le> kMaxKeys" using wf nd by simp_all
  let ?ks = "take ?i ks @ drop (Suc ?i) ks" and ?rs = "take ?i rs @ drop (Suc ?i) rs"
  have e: "entries nd = zip (take ?i ks) (take ?i rs) @ (key, rs ! ?i) # zip (drop (Suc ?i) ks) (drop (Suc ?i) rs)"
    using take_zip_nth [of ?i ks rs] h len nd by simp
  have "entries (Node lf ?ks ?rs cs) = drop_row key row (entries nd)"
    unfolding e using drop_row_hit [OF ord [unfolded e]] left nd h(1) len by (simp add: drop_row_single Let_def)
  moreover have "wf_node 0 0 0 (Node lf ?ks ?rs cs)" using len h(1) by simp
  moreover have "remove_from_node nd key row = Inr (True, Node lf ?ks ?rs cs)"
    using hit left h(1) len nd by (simp add: remove_from_node.simps [of "Node True ks rs []"] Let_def vec_at_def vec_erase_def)
  ultimately show ?thesis unfolding removes_ok_def by blast
qed

lemma right_above:
  assumes ord: "index_order.ordered ts (xs @ zs @ ys)" and hd: "ys \<noteq> [] \<longrightarrow> index_less key (fst (hd ys))" and key: "index_dom ts key"
  shows "\<forall>y \<in> set ys. index_less key (fst y)"
proof
  fix y assume y: "y \<in> set ys"
  then obtain a as where ys: "ys = a # as" by (cases ys) auto
  have d: "index_dom ts (fst a)" "index_order.ordered ts as" "\<forall>z \<in> set as. index_less (fst a) (fst z)"
    using ord unfolding ys by (simp_all add: index_order.ordered_append index_order.ordered_Cons)
  show "index_less key (fst y)"
  proof (cases "y = a")
    case False
    then have "y \<in> set as" using y ys by simp
    then have "index_dom ts (fst y)" "index_less (fst a) (fst y)" using d index_order.ordered_dom [of ts as "fst y" "snd y"] by auto
    then show ?thesis using index_order.less_trans [OF key d(1)] hd ys by simp
  qed (use hd ys in simp)
qed

lemma remove_from_node_ok:
  assumes "wf_node 0 low d nd" and "index_order.ordered ts (entries nd)" and "index_dom ts key"
    and "\<not> removes_separator nd key row"
  shows "removes_ok key row (if d = 0 then 0 else low) d nd"
  using assms
proof (induction d arbitrary: low nd)
  case 0
  note w = wf_node_parts [OF 0(1)]
  have wf0: "wf_node 0 0 0 nd" using wf_node_low [OF 0(1)] by simp
  show ?case
  proof (cases "key_hit (node_keys nd) (key_pos (node_keys nd) key) key")
    case True
    then show ?thesis using remove_hit_keeps [OF wf0 0(2,3) True, of row] remove_leaf_last [OF 0(1-3) True, of row] by auto
  next
    case False
    have "entries nd = zip (node_keys nd) (node_rows nd)" using w(4) by (cases nd) simp
    then have "drop_row key row (entries nd) = entries nd"
      using leaf_key_absent [OF 0(1-3) False] by (auto intro!: drop_row_other dest: set_zip_leftD)
    then show ?thesis using False w(4) wf0 by (auto simp: removes_ok_def remove_from_node.simps [of nd] Let_def)
  qed
next
  case (Suc d)
  note wf = Suc.prems(1) and ord = Suc.prems(2) and key = Suc.prems(3) and w = wf_node_parts [OF Suc.prems(1)]
  let ?i = "key_pos (node_keys nd) key" let ?c = "node_children nd ! key_pos (node_keys nd) key"
  show ?case
  proof (cases "key_hit (node_keys nd) ?i key")
    case True
    then show ?thesis
      using remove_hit_keeps [OF wf ord key True, of row] Suc.prems(4) w(4) by (simp add: removes_separator.simps [of nd] Let_def)
  next
    case False
    note p = key_pos_around [OF wf ord key False]
    note e = entries_at [OF wf p(1)] and r = around_child [OF wf p(1) ord key p(2,3)]
    have inner: "\<not> node_leaf nd" "\<not> length (node_children nd) \<le> ?i" using w(4,6) p(1) by simp_all
    have ordc: "index_order.ordered ts (entries ?c)" using ord unfolding e by (simp add: index_order.ordered_append)
    have "\<not> removes_separator ?c key row" using Suc.prems(4) False inner by (simp add: removes_separator.simps [of nd] Let_def)
    from Suc.IH [OF w(7) [OF refl p(1)] ordc key this] obtain b c where
      c: "remove_from_node ?c key row = Inr (b, c)" "wf_node 0 0 d c" "entries c = drop_row key row (entries ?c)"
      by (auto simp: removes_ok_def)
    have "drop_row key row (left_of nd ?i) = left_of nd ?i" using r(1) index_order.less_irrefl [OF key] by (intro drop_row_other) auto
    moreover have "drop_row key row (right_of nd ?i) = right_of nd ?i"
      using right_above [OF ord [unfolded e] r(2) key] index_order.less_irrefl [OF key] by (intro drop_row_other) auto
    ultimately have "entries (set_child nd ?i c) = drop_row key row (entries nd)"
      unfolding entries_set_child [OF wf p(1)] e c(3) by simp
    moreover have "wf_node 0 low (Suc d) (set_child nd ?i c)" by (rule wf_set_child [OF wf c(2)])
    moreover have "remove_from_node nd key row = Inr (b, set_child nd ?i c)"
      using False inner c(1) by (simp add: remove_from_node.simps [of nd] Let_def)
    ultimately show ?thesis unfolding removes_ok_def by auto
  qed
qed

section \<open>Removal and repeated insertion\<close>

lemma lookup_drop_row:
  "distinct (map fst es) \<Longrightarrow>
     lookup_rows (drop_row key row es) k = (if k = key then filter (\<lambda>r. r \<noteq> row) (lookup_rows es k) else lookup_rows es k)"
proof (induction es)
  case (Cons e es)
  obtain k' rs where e: "e = (k', rs)" by (cases e)
  have "k' = key \<Longrightarrow> lookup_rows es key = []" 
    using Cons.prems e by (auto simp: lookup_rows_def split: option.splits dest!: map_of_SomeD) force
  then show ?case using Cons e by (auto simp: drop_row_def lookup_rows_def Let_def)
qed (simp add: drop_row_def lookup_rows_def)

lemma ordered_drop_row: "index_order.ordered ts es \<Longrightarrow> index_order.ordered ts (drop_row key row es)"
proof (induction es)
  case (Cons e es)
  obtain k' rs where e: "e = (k', rs)" by (cases e)
  have sub: "fst ` set (drop_row key row es) \<subseteq> fst ` set es" by (auto simp: drop_row_def Let_def split: if_splits) force+
  have "\<forall>y \<in> set (drop_row key row es). index_less k' (fst y)" using sub Cons.prems e by (fastforce simp: index_order.ordered_Cons)
  then show ?case using Cons e by (auto simp: drop_row_Cons [of key row "(k', rs)" es] index_order.ordered_Cons drop_row_def [of key row "[(k', rs)]"] Let_def)
qed (simp add: drop_row_def)

lemma btree_remove_ok:
  assumes wf: "wf_index 0 ts idx" and key: "indexable ts key"
    and safe: "\<And>nd. idx = Some nd \<Longrightarrow> \<not> removes_separator nd key row"
  shows "\<exists>idx'. btree_remove key row idx = Inr idx' \<and> wf_index 0 ts idx' \<and>
    index_entries idx' = drop_row key row (index_entries idx)"
proof (cases idx)
  case None
  then show ?thesis by (simp add: btree_remove_def wf_index_ordered index_entries_def drop_row_def)
next
  case (Some nd)
  obtain d low where n: "wf_node 0 low d nd" "low = (if d = 0 then 0 else 1)" "index_order.ordered ts (entries nd)"
    using wf Some by (auto simp: wf_index_ordered root_ok_def)
  obtain b nd' where r: "remove_from_node nd key row = Inr (b, nd')" "wf_node 0 low d nd'"
      "entries nd' = drop_row key row (entries nd)"
    using remove_from_node_ok [OF n(1,3) _ safe [OF Some]] key n(2) by (auto simp: removes_ok_def indexable_def split: if_splits)
  note w = wf_node_parts [OF r(2)]
  have stay: "\<not> (node_keys nd' = [] \<and> \<not> node_leaf nd' \<and> length (node_children nd') = 1)"
    using w(2,4) n(2) by auto
  have "index_order.ordered ts (entries nd')" using ordered_drop_row [OF n(3)] r(3) by simp
  moreover have "node_keys nd' = [] \<and> node_leaf nd' \<Longrightarrow> entries nd' = []" by (cases nd') simp
  ultimately show ?thesis
    using Some key stay r(1,3) root_okI [OF r(2) n(2)]
    by (auto simp: btree_remove_def indexable_def wf_index_ordered index_entries_def Let_def)
qed

lemma btree_insert_all_ok:
  assumes "wf_index m ts idx" and "m \<le> 15" and "\<And>k r. (k, r) \<in> set kvs \<Longrightarrow> indexable ts k"
  shows "\<exists>idx'. btree_insert_all kvs idx = Inr idx' \<and> wf_index m ts idx' \<and>
    index_entries idx' = fold (\<lambda>(k, r). upsert index_less k r) kvs (index_entries idx)"
  using assms
proof (induction kvs arbitrary: idx)
  case (Cons kv kvs)
  obtain k r where kv: "kv = (k, r)" by (cases kv)
  obtain idx1 where i: "btree_insert k r idx = Inr idx1" "wf_index m ts idx1"
      "index_entries idx1 = upsert index_less k r (index_entries idx)"
    using btree_insert_ok [OF Cons.prems(1) _ Cons.prems(2), of k r] Cons.prems(3) kv by auto
  then show ?case using Cons.IH [OF i(2) Cons.prems(2)] Cons.prems(3) kv by (auto simp: btree_insert_all_def)
qed (simp add: btree_insert_all_def)

lemma indexable_int: "indexable [INT_T] [IntV n]"
  by (simp add: indexable_def index_dom_def exact_of_def has_null_def)

lemma sample_built: "btree_insert_all (int_rows 33) None = Inr (Some sample_root)"
  by code_simp

lemma wf_sample_root: "wf_index 15 [INT_T] (Some sample_root)"
proof -
  have "wf_index 15 [INT_T] None" by (simp add: wf_index_ordered)
  from btree_insert_all_ok [OF this, of "int_rows 33"] show ?thesis
    using indexable_int sample_built by (auto simp: int_rows_def)
qed

section \<open>Height and properties\<close>

lemma length_weave: "length cs = Suc (length es) \<Longrightarrow> length (weave cs es) = sum_list (map length cs) + length es"
proof (induction cs es rule: weave.induct)
  case (2 c cs)
  then show ?case by simp
qed simp_all

lemma sum_list_ge: "(\<And>x. x \<in> set xs \<Longrightarrow> b \<le> f x) \<Longrightarrow> b * length xs \<le> sum_list (map f xs)" for b :: nat
  by (induction xs) (auto simp: add_mono)

lemma wf_entries_ge: "wf_node 15 low d nd \<Longrightarrow> (low + 1) * 16 ^ d \<le> length (entries nd) + 1"
proof (induction d arbitrary: low nd)
  case 0
  then show ?case by (cases nd) auto
next
  case (Suc d)
  obtain lf ks rs cs where nd: "nd = Node lf ks rs cs" by (cases nd)
  have w: "\<not> lf" "length cs = Suc (length ks)" "length rs = length ks" "low \<le> length ks" "list_all (wf_node 15 15 d) cs"
    using Suc.prems nd by simp_all
  have each: "16 ^ Suc d - 1 \<le> length (entries c)" if "c \<in> set cs" for c
    using Suc.IH [of 15 c] w(5) that by (auto simp: list_all_iff)
  have "(16 ^ Suc d - 1) * length cs \<le> sum_list (map (\<lambda>c. length (entries c)) cs)" by (rule sum_list_ge) (rule each)
  then have "(16 ^ Suc d - 1) * Suc (length ks) + Suc (length ks) \<le> length (entries nd) + 1"
    using nd w by (simp add: length_weave comp_def)
  moreover have "(16 ^ Suc d - 1) * Suc (length ks) + Suc (length ks) = 16 ^ Suc d * Suc (length ks)"
    by (metis (no_types) add.commute mult_Suc Suc_pred' zero_less_power zero_less_numeral)
  moreover have "(low + 1) * 16 ^ Suc d \<le> 16 ^ Suc d * Suc (length ks)" using w(4) by (simp add: mult.commute)
  ultimately show ?case by linarith
qed

lemma in_dropE:
  assumes "c \<in> set (drop n xs)"
  obtains l where "n + l < length xs" "c = xs ! (n + l)"
proof -
  from assms obtain l where "l < length xs - n" "drop n xs ! l = c" by (auto simp: in_set_conv_nth)
  then show thesis using that[of l] by auto
qed

lemma key_pos_unique:
  assumes "p \<le> length ks" "\<And>l. l < p \<Longrightarrow> index_less (ks ! l) k" "p < length ks \<Longrightarrow> \<not> index_less (ks ! p) k"
  shows "key_pos ks k = p"
proof (rule ccontr)
  assume "key_pos ks k \<noteq> p"
  then consider "key_pos ks k < p" | "p < key_pos ks k" by linarith
  then show False
  proof cases
    case 1
    then show False using key_pos_at[of ks k] assms(1,2) by simp
  next
    case 2
    then show False using key_pos_before[OF 2] key_pos_le[of ks k] assms(3) by simp
  qed
qed

lemma child_key_bounds:
  assumes wf: "wf_node m low (Suc d) nd" and ord: "index_order.ordered ts (entries nd)"
    and j: "j \<le> length (node_keys nd)" and k: "k \<in> fst ` set (entries (node_children nd ! j))"
  shows "index_dom ts k" "\<And>l. l < j \<Longrightarrow> index_less (node_keys nd ! l) k"
    "j < length (node_keys nd) \<Longrightarrow> index_less k (node_keys nd ! j)"
    "\<And>l e. l < j \<Longrightarrow> e \<in> set (entries (node_children nd ! l)) \<Longrightarrow> index_less (fst e) k"
    "k \<in> fst ` set (entries nd)"
proof -
  note w = wf_node_parts[OF wf] and e = entries_at[OF wf j]
  let ?cs = "map entries (node_children nd)" let ?es = "zip (node_keys nd) (node_rows nd)"
  obtain rs where kr: "(k, rs) \<in> set (entries (node_children nd ! j))" using k by auto
  note o = ord[unfolded e index_order.ordered_append]
  have left: "index_less (fst x) k" if "x \<in> set (left_of nd j)" for x using o that kr by force
  have right: "index_less k (fst x)" if "x \<in> set (right_of nd j)" for x using o that kr by force
  show "index_dom ts k" using o kr index_order.ordered_dom by blast
  show "k \<in> fst ` set (entries nd)" unfolding e using kr by force
  have lset: "set (left_of nd j) = (\<Union>c \<in> set (take j ?cs). set c) \<union> set (take j ?es)"
    unfolding left_of_def using w(1,6) j by (intro set_weave_pre) simp
  show "index_less (node_keys nd ! l) k" if "l < j" for l
  proof -
    have "?es ! l \<in> set (take j ?es)" using that j w(1) by (auto simp: in_set_conv_nth)
    then have "index_less (fst (?es ! l)) k" using left lset by blast
    then show ?thesis using that j w(1) by simp
  qed
  show "index_less (fst e) k" if "l < j" "e \<in> set (entries (node_children nd ! l))" for l e
  proof -
    have "entries (node_children nd ! l) \<in> set (take j ?cs)"
      using that(1) j w(6)[OF refl] by (auto simp: in_set_conv_nth)
    then show ?thesis using left lset that(2) by blast
  qed
  show "index_less k (node_keys nd ! j)" if "j < length (node_keys nd)"
    using right[of "(node_keys nd ! j, node_rows nd ! j)"] that w(1) by (simp add: right_of_def weave_post_def)
qed

lemma descends_to:
  assumes wf: "wf_node m low (Suc d) nd" and ord: "index_order.ordered ts (entries nd)"
    and j: "j \<le> length (node_keys nd)" and k: "k \<in> fst ` set (entries (node_children nd ! j))"
  shows "key_pos (node_keys nd) k = j" "\<not> key_hit (node_keys nd) j k"
proof -
  note b = child_key_bounds[OF wf ord j k]
  have asym: "\<not> index_less (node_keys nd ! j) k \<and> node_keys nd ! j \<noteq> k" if "j < length (node_keys nd)"
    using b(3)[OF that] node_keys_dom[OF wf ord that] b(1) index_order.less_trans index_order.less_irrefl by blast
  show "key_pos (node_keys nd) k = j" by (rule key_pos_unique[OF j]) (use b(2) asym in auto)
  show "\<not> key_hit (node_keys nd) j k"
    using asym index_order.eq_iff[OF node_keys_dom[OF wf ord] b(1)] by (auto simp: key_hit_def)
qed

lemma erased_misses:
  assumes wf: "wf_node m low (Suc d) nd" and ord: "index_order.ordered ts (entries nd)"
    and ij: "i < j" and j: "j \<le> length (node_keys nd)" and k: "k \<in> fst ` set (entries (node_children nd ! j))"
  defines "ks \<equiv> take i (node_keys nd) @ drop (Suc i) (node_keys nd)"
  shows "collect_equal (Node False ks rs (node_children nd)) k = Inr []"
proof -
  note b = child_key_bounds[OF wf ord j k] and w = wf_node_parts[OF wf]
  have nth: "ks ! l = node_keys nd ! (if l < i then l else Suc l)" if "l < length ks" for l
    using that ij j by (auto simp: ks_def nth_append)
  have len: "length ks = length (node_keys nd) - 1" using ij j by (simp add: ks_def)
  have asym: "\<not> index_less (node_keys nd ! j) k \<and> node_keys nd ! j \<noteq> k" if "j < length (node_keys nd)"
    using b(3)[OF that] node_keys_dom[OF wf ord that] b(1) index_order.less_trans index_order.less_irrefl by blast
  have pos: "key_pos ks k = j - 1"
  proof (rule key_pos_unique)
    show "j - 1 \<le> length ks" using len j by simp
    show "index_less (ks ! l) k" if "l < j - 1" for l using that nth[of l] len j b(2) by simp
    show "\<not> index_less (ks ! (j - 1)) k" if "j - 1 < length ks"
    proof -
      have "ks ! (j - 1) = node_keys nd ! j" "j < length (node_keys nd)" using nth[OF that] that len ij by auto
      then show ?thesis using asym by simp
    qed
  qed
  have miss: "\<not> key_hit ks (j - 1) k"
  proof
    assume hit: "key_hit ks (j - 1) k"
    then have l: "j - 1 < length ks" "j < length (node_keys nd)" using len by (auto simp: key_hit_def)
    have "ks ! (j - 1) = node_keys nd ! j" using nth[OF l(1)] ij by auto
    then show False
      using hit asym[OF l(2)] index_order.eq_iff[OF node_keys_dom[OF wf ord l(2)] b(1)] by (simp add: key_hit_def)
  qed
  let ?c = "node_children nd ! (j - 1)"
  have j': "j - 1 \<le> length (node_keys nd)" "j - 1 < j" using j ij by simp_all
  have "index_order.ordered ts (entries ?c)"
    using ord unfolding entries_at[OF wf j'(1)] by (simp add: index_order.ordered_append)
  with collect_equal_ok[OF w(7)[OF refl j'(1)] _ b(1)]
  have "collect_equal ?c k = Inr (lookup_rows (entries ?c) k)" by blast
  moreover have "k \<notin> fst ` set (entries ?c)" using b(4)[OF j'(2)] index_order.less_irrefl[OF b(1)] by auto
  then have "lookup_rows (entries ?c) k = []"
    by (auto simp: lookup_rows_def split: option.splits dest!: map_of_SomeD) force
  ultimately show ?thesis
    using pos miss w(6)[OF refl] j' by (simp add: collect_equal.simps[of "Node _ _ _ _"] Let_def)
qed

lemma beyond_separator_keys:
  assumes "wf_node m low d nd" "index_order.ordered ts (entries nd)" "index_dom ts key" "k \<in> set (beyond_separator nd key)"
  shows "k \<in> fst ` set (entries nd) \<and> index_less key k"
  using assms
proof (induction d arbitrary: low nd)
  case 0
  then show ?case
    using wf_node_parts(4,5)[OF 0(1)] by (simp add: beyond_separator.simps[of nd] Let_def split: if_splits)
next
  case (Suc d)
  note wf = Suc.prems(1) and ord = Suc.prems(2) and key = Suc.prems(3) and w = wf_node_parts[OF Suc.prems(1)]
  let ?i = "key_pos (node_keys nd) key" let ?c = "node_children nd ! key_pos (node_keys nd) key"
  show ?case
  proof (cases "key_hit (node_keys nd) ?i key")
    case True
    note h = key_hit_eq[OF wf ord key True]
    from Suc.prems(4) True obtain c where c: "c \<in> set (drop (Suc ?i) (node_children nd))" "k \<in> fst ` set (entries c)"
      by (auto simp: beyond_separator.simps[of nd] Let_def)
    then obtain l where l: "Suc ?i + l < length (node_children nd)" "k \<in> fst ` set (entries (node_children nd ! (Suc ?i + l)))"
      by (metis in_dropE)
    then have "Suc ?i + l \<le> length (node_keys nd)" using w(6)[OF refl] by simp
    from child_key_bounds(2)[OF wf ord this l(2), of ?i] child_key_bounds(5)[OF wf ord this l(2)] h(2) show ?thesis by simp
  next
    case False
    note p = key_pos_around[OF wf ord key False]
    have inner: "\<not> node_leaf nd" "\<not> length (node_children nd) \<le> ?i" using w(4,6) p(1) by simp_all
    have ordc: "index_order.ordered ts (entries ?c)"
      using ord unfolding entries_at[OF wf p(1)] by (simp add: index_order.ordered_append)
    have "k \<in> set (beyond_separator ?c key)"
      using Suc.prems(4) False inner by (simp add: beyond_separator.simps[of nd] Let_def)
    from Suc.IH[OF w(7)[OF refl p(1)] ordc key this] child_key_bounds(5)[OF wf ord p(1)] show ?thesis by blast
  qed
qed

lemma beyond_separator_many:
  assumes "wf_node 15 low d nd" "index_order.ordered ts (entries nd)" "index_dom ts key" "removes_separator nd key row"
  shows "15 \<le> length (beyond_separator nd key)"
  using assms
proof (induction d arbitrary: low nd)
  case 0
  then show ?case using wf_node_parts(4)[OF 0(1)] by (simp add: removes_separator.simps[of nd] Let_def split: if_splits)
next
  case (Suc d)
  note wf = Suc.prems(1) and ord = Suc.prems(2) and key = Suc.prems(3) and w = wf_node_parts[OF Suc.prems(1)]
  let ?i = "key_pos (node_keys nd) key" let ?c = "node_children nd ! key_pos (node_keys nd) key"
  show ?case
  proof (cases "key_hit (node_keys nd) ?i key")
    case True
    note h = key_hit_eq[OF wf ord key True]
    have i: "Suc ?i < length (node_children nd)" "Suc ?i \<le> length (node_keys nd)" using h(1) w(6)[OF refl] by simp_all
    have "(16::nat) \<le> 16 * 16 ^ d" by simp
    also have "\<dots> \<le> length (entries (node_children nd ! Suc ?i)) + 1" using wf_entries_ge[OF w(7)[OF refl i(2)]] by simp
    finally have "15 \<le> length (entries (node_children nd ! Suc ?i))" by simp
    then show ?thesis
      using True Cons_nth_drop_Suc[OF i(1), symmetric] by (simp add: beyond_separator.simps[of nd] Let_def)
  next
    case False
    note p = key_pos_around[OF wf ord key False]
    have inner: "\<not> node_leaf nd" "\<not> length (node_children nd) \<le> ?i" using w(4,6) p(1) by simp_all
    have ordc: "index_order.ordered ts (entries ?c)"
      using ord unfolding entries_at[OF wf p(1)] by (simp add: index_order.ordered_append)
    have sep: "removes_separator ?c key row" using Suc.prems(4) False inner by (simp add: removes_separator.simps[of nd] Let_def)
    from Suc.IH[OF w(7)[OF refl p(1)] ordc key sep] False inner show ?thesis
      by (simp add: beyond_separator.simps[of nd] Let_def)
  qed
qed

lemma remove_separator_loses:
  assumes "wf_node m low d nd" "index_order.ordered ts (entries nd)" "index_dom ts key" "removes_separator nd key row"
  shows "\<exists>b nd'. remove_from_node nd key row = Inr (b, nd') \<and> \<not> node_leaf nd' \<and>
    length (node_children nd') = length (node_children nd) \<and>
    (\<forall>k \<in> set (beyond_separator nd key). collect_equal nd' k = Inr [])"
  using assms
proof (induction d arbitrary: low nd)
  case 0
  then show ?case using wf_node_parts(4)[OF 0(1)] by (simp add: removes_separator.simps[of nd] Let_def split: if_splits)
next
  case (Suc d)
  note wf = Suc.prems(1) and ord = Suc.prems(2) and key = Suc.prems(3) and w = wf_node_parts[OF Suc.prems(1)]
  let ?i = "key_pos (node_keys nd) key" let ?c = "node_children nd ! key_pos (node_keys nd) key"
  show ?case
  proof (cases "key_hit (node_keys nd) ?i key")
    case True
    note h = key_hit_eq[OF wf ord key True]
    let ?nd = "Node False (take ?i (node_keys nd) @ drop (Suc ?i) (node_keys nd))
      (take ?i (node_rows nd) @ drop (Suc ?i) (node_rows nd)) (node_children nd)"
    have "remove_from_node nd key row = Inr (True, ?nd)"
      using Suc.prems(4) True h(1) w(1,4)
      by (simp add: remove_from_node.simps[of nd] removes_separator.simps[of nd] Let_def vec_at_def vec_erase_def)
    moreover have "collect_equal ?nd k = Inr []" if "k \<in> set (beyond_separator nd key)" for k
    proof -
      from that True obtain c where c: "c \<in> set (drop (Suc ?i) (node_children nd))" "k \<in> fst ` set (entries c)"
        by (auto simp: beyond_separator.simps[of nd] Let_def)
      then obtain l where l: "Suc ?i + l < length (node_children nd)" "c = node_children nd ! (Suc ?i + l)"
        by (metis in_dropE)
      have "?i < Suc ?i + l" "Suc ?i + l \<le> length (node_keys nd)" using l(1) w(6)[OF refl] by simp_all
      from erased_misses[OF wf ord this] c(2) l(2) show ?thesis by simp
    qed
    ultimately show ?thesis by auto
  next
    case False
    note p = key_pos_around[OF wf ord key False]
    have inner: "\<not> node_leaf nd" "\<not> length (node_children nd) \<le> ?i" using w(4,6) p(1) by simp_all
    have ordc: "index_order.ordered ts (entries ?c)"
      using ord unfolding entries_at[OF wf p(1)] by (simp add: index_order.ordered_append)
    have sep: "removes_separator ?c key row" using Suc.prems(4) False inner by (simp add: removes_separator.simps[of nd] Let_def)
    from Suc.IH[OF w(7)[OF refl p(1)] ordc key sep] obtain b c where
      c: "remove_from_node ?c key row = Inr (b, c)" "\<forall>k \<in> set (beyond_separator ?c key). collect_equal c k = Inr []"
      by auto
    have beyond: "beyond_separator nd key = beyond_separator ?c key"
      using False inner by (simp add: beyond_separator.simps[of nd] Let_def)
    have "collect_equal (set_child nd ?i c) k = Inr []" if "k \<in> set (beyond_separator ?c key)" for k
    proof -
      have "k \<in> fst ` set (entries ?c)" using beyond_separator_keys[OF w(7)[OF refl p(1)] ordc key that] by blast
      from descends_to[OF wf ord p(1) this] c(2) that inner show ?thesis
        by (subst collect_equal.simps) (simp add: set_child_def Let_def)
    qed
    with c(1) False inner show ?thesis
      unfolding beyond by (simp add: remove_from_node.simps[of nd] Let_def) (simp add: set_child_def)
  qed
qed

lemma upsert_all_keys:
  assumes "\<forall>(k, r) \<in> set kvs. index_dom ts k" "index_order.ordered ts es"
  shows "index_order.ordered ts (fold (\<lambda>(k, r). upsert index_less k r) kvs es) \<and>
    fst ` set (fold (\<lambda>(k, r). upsert index_less k r) kvs es) = fst ` set kvs \<union> fst ` set es"
  using assms
proof (induction kvs arbitrary: es)
  case (Cons kv kvs)
  obtain k r where kv: "kv = (k, r)" by (cases kv)
  have k: "index_dom ts k" using Cons.prems(1) kv by simp
  note u = index_order.ordered_upsert[OF k Cons.prems(2)] index_order.keys_upsert[OF k Cons.prems(2)]
  have "\<forall>(k, r) \<in> set kvs. index_dom ts k" using Cons.prems(1) by auto
  from Cons.IH[OF this u(1)] u(2) show ?case by (simp add: kv)
qed simp

lemma wf_leaf_depths: "wf_node m low d nd \<Longrightarrow> set (leaf_depths nd) = {d}"
proof (induction d arbitrary: low nd)
  case 0
  then show ?case by (cases nd) simp
next
  case (Suc d)
  obtain lf ks rs cs where nd: "nd = Node lf ks rs cs" by (cases nd)
  with Suc.prems have "\<forall>c \<in> set cs. set (leaf_depths c) = {d}" "cs \<noteq> []" "\<not> lf"
    using Suc.IH by (auto simp: list_all_iff)
  then show ?case by (auto simp: nd)
qed

text \<open>C3: inserting an indexable key into a well-formed index never fails, keeps every node within the
  degree bounds, and changes the sorted list of entries exactly as appending the row to the entry of the key
  does.\<close>

theorem btree_insert_refines:
  assumes "wf_index 15 ts idx" and "indexable ts key"
  shows "\<exists>idx'. btree_insert key row idx = Inr idx' \<and> wf_index 15 ts idx' \<and>
    index_entries idx' = upsert index_less key row (index_entries idx)"
  by (rule btree_insert_ok [OF assms]) simp

lemma wf_sample: "wf_index m [INT_T] (Some (int_leaf 1 3))"
proof -
  have "root_ok m (int_leaf 1 3)" by (rule root_okI [of m 0 0]) (simp_all add: int_leaf_def degree_consts)
  moreover have "index_order.ordered [INT_T] (entries (int_leaf 1 3))"
    by (simp add: int_leaf_def index_order.ordered_def index_dom_def exact_of_def numeral_nat upt_rec)
  ultimately show ?thesis by (simp add: wf_index_ordered)
qed

theorem btree_insert_refines_witness:
  "\<exists>idx'. btree_insert [IntV 3] 9 (Some (int_leaf 1 3)) = Inr idx' \<and> wf_index 15 [INT_T] idx' \<and>
    index_entries idx' = upsert index_less [IntV 3] 9 (index_entries (Some (int_leaf 1 3)))"
  by (rule btree_insert_refines [OF wf_sample indexable_int])

text \<open>C7: on a well-formed index the point lookup returns the rows of the key, and the range and prefix scans
  return, in key order, exactly the rows of the keys inside the range or with the prefix.\<close>

theorem btree_lookups_complete:
  assumes "wf_index m ts idx"
  shows "(indexable ts key \<longrightarrow> find_equal idx key = Inr (lookup_rows (index_entries idx) key)) \<and>
    ((\<forall>u. upper = Some u \<longrightarrow> index_dom ts u) \<longrightarrow>
       find_range idx lower li upper ui = Inr (rows_of (in_range lower li upper ui) (index_entries idx))) \<and>
    (indexable (take (length p) ts) p \<longrightarrow>
       find_prefix idx p = Inr (rows_of (\<lambda>k. starts_with k p) (index_entries idx)))"
  using find_equal_ok [OF assms, of key] find_range_ok [OF assms, of upper lower li ui] find_prefix_ok [OF assms, of p]
  by blast

theorem btree_lookups_complete_witness:
  "find_equal (Some (int_leaf 1 3)) [IntV 2] = Inr [2] \<and>
   find_range (Some (int_leaf 1 3)) (Some [IntV 1]) False (Some [IntV 2]) True = Inr [2] \<and>
   find_prefix (Some (int_leaf 1 3)) [IntV 1] = Inr [1]"
proof -
  let ?es = "index_entries (Some (int_leaf 1 3))"
  have "lookup_rows ?es [IntV 2] = [2]" "rows_of (in_range (Some [IntV 1]) False (Some [IntV 2]) True) ?es = [2]"
    "rows_of (\<lambda>k. starts_with k [IntV 1]) ?es = [1]" by code_simp+
  then show ?thesis
    using btree_lookups_complete [OF wf_sample [of 0], of "[IntV 2]" "Some [IntV 2]" "Some [IntV 1]" False True "[IntV 1]"]
      indexable_int by (simp add: indexable_def)
qed

text \<open>C22: removing a row keeps the index well formed and drops exactly that row, and the entry with its last
  row, provided the key does not leave an inner node with it.\<close>

theorem btree_remove_refines:
  assumes "wf_index 0 ts (Some nd)" and "indexable ts key" and "\<not> removes_separator nd key row"
  shows "\<exists>idx'. btree_remove key row (Some nd) = Inr idx' \<and> wf_index 0 ts idx' \<and>
    index_entries idx' = drop_row key row (entries nd) \<and>
    (\<forall>k. lookup_rows (index_entries idx') k =
       (if k = key then filter (\<lambda>r. r \<noteq> row) (lookup_rows (entries nd) k) else lookup_rows (entries nd) k))"
proof -
  have "distinct (map fst (entries nd))" using assms(1) index_order.ordered_distinct by (auto simp: wf_index_ordered)
  then show ?thesis
    using btree_remove_ok [OF assms(1,2), of row] assms(3) lookup_drop_row [of "entries nd" key row]
    by (auto simp: index_entries_def)
qed

theorem btree_remove_refines_witness:
  "\<exists>idx'. btree_remove [IntV 2] 2 (Some (int_leaf 1 3)) = Inr idx' \<and> wf_index 0 [INT_T] idx' \<and>
    index_entries idx' = [([IntV 1], [1])]"
proof -
  have "\<not> removes_separator (int_leaf 1 3) [IntV 2] 2" by code_simp
  moreover have "drop_row [IntV 2] 2 (entries (int_leaf 1 3)) = [([IntV 1], [1])]" by code_simp
  ultimately show ?thesis
    using btree_remove_refines [OF wf_sample [of 0], OF indexable_int, of 2 2] by auto
qed

text \<open>C36: whenever removing a row takes the last row of a key that sits in an inner node, other keys are lost.
  The separator leaves the node but its children stay, so every key in a subtree to the right of it, at least fifteen
  of them, is no longer found: a later lookup descends one child too far to the left.\<close>

theorem btree_remove_loses_rows:
  assumes "wf_index 15 ts (Some nd)" "indexable ts key" "removes_separator nd key row"
  shows "\<exists>idx'. btree_remove key row (Some nd) = Inr idx' \<and> 15 \<le> length (beyond_separator nd key) \<and>
    (\<forall>k \<in> set (beyond_separator nd key).
       k \<noteq> key \<and> k \<in> fst ` set (entries nd) \<and> find_equal idx' k = Inr [])"
proof -
  obtain d low where n: "wf_node 15 low d nd" "index_order.ordered ts (entries nd)" and low: "low = (if d = 0 then 0 else 1)"
    using assms(1) by (auto simp: wf_index_ordered root_ok_def)
  have key: "index_dom ts key" "\<not> has_null key" "key \<noteq> []" using assms(2) by (simp_all add: indexable_def)
  from remove_separator_loses[OF n key(1) assms(3)] obtain b nd' where
    r: "remove_from_node nd key row = Inr (b, nd')" "\<not> node_leaf nd'"
      "length (node_children nd') = length (node_children nd)"
      "\<forall>k \<in> set (beyond_separator nd key). collect_equal nd' k = Inr []" by auto
  have "length (node_children nd) \<noteq> 1" using wf_node_parts(2,5,6)[OF n(1)] low by (cases d) auto
  then have "btree_remove key row (Some nd) = Inr (Some nd')" using r key by (simp add: btree_remove_def)
  then show ?thesis
    using r(4) beyond_separator_keys[OF n key(1)] beyond_separator_many[OF n key(1) assms(3)]
      index_order.less_irrefl[OF key(1)]
    by (auto simp: find_equal_def)
qed

theorem btree_remove_loses_rows_witness:
  "\<exists>idx'. btree_remove [IntV 16] 16 (Some sample_root) = Inr idx' \<and> find_equal (Some sample_root) [IntV 20] = Inr [20] \<and>
     find_equal idx' [IntV 20] = Inr []"
proof -
  have "removes_separator sample_root [IntV 16] 16" by code_simp
  moreover have "[IntV 20] \<in> set (beyond_separator sample_root [IntV 16])" by code_simp
  moreover have "find_equal (Some sample_root) [IntV 20] = Inr [20]" by code_simp
  ultimately show ?thesis using btree_remove_loses_rows[OF wf_sample_root indexable_int] by blast
qed

text \<open>C29: an index built by insertions is balanced and shallow. However the keys are ordered, inserting them one
  by one succeeds, every leaf is at the same depth d, and 2 * kMinDegree ^ d is at most the number of distinct keys
  plus one, so a descent reads a logarithmic number of nodes.\<close>

theorem btree_height_bound:
  assumes "kvs \<noteq> []" "\<forall>(k, r) \<in> set kvs. indexable ts k"
  shows "\<exists>nd d. btree_insert_all kvs None = Inr (Some nd) \<and> set (leaf_depths nd) = {d} \<and>
    2 * kMinDegree ^ d \<le> card (fst ` set kvs) + 1"
proof -
  have none: "wf_index 15 ts None" by (simp add: wf_index_ordered)
  obtain idx where idx: "btree_insert_all kvs None = Inr idx" "wf_index 15 ts idx"
      "index_entries idx = fold (\<lambda>(k, r). upsert index_less k r) kvs []"
    using btree_insert_all_ok[OF none, of kvs] assms(2) by (auto simp: index_entries_def)
  have "\<forall>(k, r) \<in> set kvs. index_dom ts k" using assms(2) by (auto simp: indexable_def)
  moreover have "index_order.ordered ts ([] :: (index_key \<times> nat list) list)" by (simp add: index_order.ordered_def)
  ultimately have "index_order.ordered ts (index_entries idx) \<and> fst ` set (index_entries idx) = fst ` set kvs"
    unfolding idx(3) using upsert_all_keys[of kvs ts "[]"] by simp
  then
  have keys: "index_order.ordered ts (index_entries idx)" "fst ` set (index_entries idx) = fst ` set kvs"
    by simp_all
  have card: "card (fst ` set kvs) = length (index_entries idx)"
    using distinct_card[OF index_order.ordered_distinct[OF keys(1)]] keys(2) by simp
  have "index_entries idx \<noteq> []" using keys(2) assms(1) by auto
  then obtain nd where nd: "idx = Some nd" "entries nd \<noteq> []" by (cases idx) (auto simp: index_entries_def)
  obtain d where d: "wf_node 15 (if d = 0 then 0 else 1) d nd" using idx(2) nd(1) by (auto simp: wf_index_ordered root_ok_def)
  have "2 * 16 ^ d \<le> length (entries nd) + 1"
    using wf_entries_ge[OF d] nd(2) by (cases "d = 0") (auto simp: Suc_le_eq)
  with idx(1) nd(1) card wf_leaf_depths[OF d] show ?thesis by (auto simp: index_entries_def degree_consts)
qed

theorem btree_height_bound_witness:
  "\<exists>nd d. btree_insert_all (int_rows 33) None = Inr (Some nd) \<and> set (leaf_depths nd) = {d} \<and>
    2 * kMinDegree ^ d \<le> card (fst ` set (int_rows 33)) + 1"
  by (rule btree_height_bound[where ts = "[INT_T]"]) (auto simp: int_rows_def indexable_int)

end
