(* ===== verification/Syntax_Trees.thy ===== *)
theory Syntax_Trees
  imports Rows
begin

text \<open>
  The expression trees of \<^verbatim>\<open>include/parser/ast.h\<close> and their printing in \<^verbatim>\<open>src/parser/ast.cc\<close>. The class
  hierarchy is one datatype, with one constructor per class.
\<close>

section \<open>Syntax trees\<close>

datatype binary_op =
    EQ_OP | NE_OP | LT_OP | LE_OP | GT_OP | GE_OP | AND_OP | OR_OP
  | PLUS_OP | MINUS_OP | MUL_OP | DIV_OP | MOD_OP

datatype unary_op = NOT_OP | NEG_OP

text \<open>The \<^verbatim>\<open>PARTITION BY\<close> and \<^verbatim>\<open>ORDER BY\<close> lists of a window; the flag is \<^verbatim>\<open>ascending\<close>.\<close>

datatype 'e window_spec = WindowSpec "'e list" "('e \<times> bool) list"

text \<open>
  \<open>'q\<close> is the type of the nested SELECT statements. The two constructors of \<^verbatim>\<open>InExpression\<close> are
  kept apart: the subquery form carries an expression, which the parser makes a subquery.
\<close>

datatype 'q expression =
    LiteralExpression sql_value
  | IdentifierExpression string
  | ColumnRefExpression string string
  | ParameterExpression nat
  | BinaryOpExpression "'q expression" binary_op "'q expression"
  | UnaryOpExpression unary_op "'q expression"
  | FunctionCallExpression string "'q expression list" "'q expression window_spec option"
  | CastExpression "'q expression" data_type
  | CaseExpression "('q expression \<times> 'q expression) list" "'q expression option"
  | InExpression "'q expression" "'q expression" bool
  | InListExpression "'q expression" "'q expression list" bool
  | ExistsExpression 'q bool
  | SubqueryExpression 'q

section \<open>Printing\<close>

fun binary_op_text :: "binary_op \<Rightarrow> string" where
  "binary_op_text EQ_OP = ''=''"
| "binary_op_text NE_OP = ''!=''"
| "binary_op_text LT_OP = ''<''"
| "binary_op_text LE_OP = ''<=''"
| "binary_op_text GT_OP = ''>''"
| "binary_op_text GE_OP = ''>=''"
| "binary_op_text AND_OP = ''AND''"
| "binary_op_text OR_OP = ''OR''"
| "binary_op_text PLUS_OP = ''+''"
| "binary_op_text MINUS_OP = ''-''"
| "binary_op_text MUL_OP = ''*''"
| "binary_op_text DIV_OP = ''/''"
| "binary_op_text MOD_OP = ''%''"

fun separated :: "string list \<Rightarrow> string" where
  "separated [] = ''''"
| "separated [s] = s"
| "separated (s # t # ss) = s @ '', '' @ separated (t # ss)"

definition window_spec_to_string :: "string window_spec \<Rightarrow> string" where
  "window_spec_to_string w =
     (case w of WindowSpec partition_by order_by \<Rightarrow>
        ''('' @
        (if partition_by \<noteq> [] then ''PARTITION BY '' @ separated partition_by else '''') @
        (if order_by \<noteq> []
         then (if partition_by \<noteq> [] then '' '' else '''') @ ''ORDER BY '' @
           separated (map (\<lambda>(e, asc). e @ (if asc then '' ASC'' else '' DESC'')) order_by)
         else '''') @
        '')'')"

definition column_ref_to_string :: "string \<Rightarrow> string \<Rightarrow> string" where
  "column_ref_to_string table_name column_name =
     (if table_name = '''' then column_name else table_name @ ''.'' @ column_name)"

text \<open>\<open>sel\<close> prints a nested SELECT.\<close>

primrec expression_to_string :: "('q \<Rightarrow> string) \<Rightarrow> 'q expression \<Rightarrow> string" where
  "expression_to_string sel (LiteralExpression v) = value_to_string v"
| "expression_to_string sel (IdentifierExpression name) = name"
| "expression_to_string sel (ColumnRefExpression t c) = column_ref_to_string t c"
| "expression_to_string sel (ParameterExpression i) = ''?''"
| "expression_to_string sel (BinaryOpExpression l bop r) =
     ''('' @ expression_to_string sel l @ '' '' @ binary_op_text bop @ '' '' @
     expression_to_string sel r @ '')''"
| "expression_to_string sel (UnaryOpExpression uop e) =
     ''('' @ (if uop = NOT_OP then ''NOT'' else ''-'') @ '' '' @ expression_to_string sel e @ '')''"
| "expression_to_string sel (FunctionCallExpression name args w) =
     name @ ''('' @ separated (map (expression_to_string sel) args) @ '')'' @
     (case map_option (map_window_spec (expression_to_string sel)) w of
        None \<Rightarrow> '''' | Some spec \<Rightarrow> '' OVER '' @ window_spec_to_string spec)"
| "expression_to_string sel (CastExpression e t) =
     ''CAST('' @ expression_to_string sel e @ '' AS '' @ data_type_to_string t @ '')''"
| "expression_to_string sel (CaseExpression pairs els) =
     ''CASE'' @
     concat (map (\<lambda>(w, t). '' WHEN '' @ w @ '' THEN '' @ t)
       (map (map_prod (expression_to_string sel) (expression_to_string sel)) pairs)) @
     (case map_option (expression_to_string sel) els of None \<Rightarrow> '''' | Some e \<Rightarrow> '' ELSE '' @ e) @
     '' END''"
| "expression_to_string sel (InExpression l q neg) =
     expression_to_string sel l @ (if neg then '' NOT IN ('' else '' IN ('') @
     expression_to_string sel q @ '')''"
| "expression_to_string sel (InListExpression l vs neg) =
     expression_to_string sel l @ (if neg then '' NOT IN ('' else '' IN ('') @
     separated (map (expression_to_string sel) vs) @ '')''"
| "expression_to_string sel (ExistsExpression q neg) =
     (if neg then ''NOT EXISTS ('' else ''EXISTS ('') @ sel q @ '')''"
| "expression_to_string sel (SubqueryExpression q) = ''('' @ sel q @ '')''"

section \<open>SELECT statements\<close>

text \<open>
  A join is its type, table, alias and condition. Limit and offset are the \<^verbatim>\<open>int\<close> fields, with
  \<open>-1\<close> for no limit.
\<close>

datatype select_statement = SelectStatement
  (select_columns: "(select_statement expression \<times> string) list")
  (from_table: string)
  (from_alias: string)
  (where_condition: "select_statement expression option")
  (group_by_columns: "select_statement expression list")
  (having_condition: "select_statement expression option")
  (order_by_columns: "(select_statement expression \<times> bool) list")
  (joins: "(string \<times> string \<times> string \<times> select_statement expression option) list")
  (is_distinct: bool)
  (get_limit: int)
  (get_offset: int)

definition print_select_column :: "string \<times> string \<Rightarrow> string" where
  "print_select_column c = (case c of (e, alias) \<Rightarrow> e @ (if alias \<noteq> '''' then '' AS '' @ alias else ''''))"

definition print_join :: "string \<times> string \<times> string \<times> string option \<Rightarrow> string" where
  "print_join j =
     (case j of (type, tname, alias, condition) \<Rightarrow>
        (if type = ''CROSS'' then '' CROSS JOIN '' @ tname
         else if type = ''FULL'' then '' FULL JOIN '' @ tname
         else '' '' @ type @ '' JOIN '' @ tname) @
        (if alias \<noteq> tname then '' '' @ alias else '''') @
        (case condition of None \<Rightarrow> '''' | Some c \<Rightarrow> '' ON '' @ c))"

definition print_ordered :: "string \<times> bool \<Rightarrow> string" where
  "print_ordered c = (case c of (e, asc) \<Rightarrow> e @ (if asc then '' ASC'' else '' DESC''))"

primrec select_to_string :: "select_statement \<Rightarrow> string" where
  "select_to_string (SelectStatement cols tbl alias whr grp hav ord jns dst lmt off) =
     (let show_expr = (\<lambda>e. expression_to_string id e) in
      ''SELECT '' @ (if dst then ''DISTINCT '' else '''') @
      separated (map print_select_column
        (map (map_prod show_expr id) (map (map_prod (map_expression select_to_string) id) cols))) @
      (if tbl \<noteq> '''' then '' FROM '' @ tbl @ (if alias \<noteq> tbl then '' '' @ alias else '''') else '''') @
      concat (map print_join
        (map (\<lambda>(a, b, c, e). (a, b, c, map_option show_expr e))
          (map (map_prod id (map_prod id (map_prod id (map_option (map_expression select_to_string))))) jns))) @
      (case map_option (map_expression select_to_string) whr of
         None \<Rightarrow> '''' | Some c \<Rightarrow> '' WHERE '' @ show_expr c) @
      (if grp \<noteq> [] then '' GROUP BY '' @ separated (map show_expr (map (map_expression select_to_string) grp))
       else '''') @
      (case map_option (map_expression select_to_string) hav of
         None \<Rightarrow> '''' | Some c \<Rightarrow> '' HAVING '' @ show_expr c) @
      (if ord \<noteq> []
       then '' ORDER BY '' @ separated (map print_ordered
         (map (map_prod show_expr id) (map (map_prod (map_expression select_to_string) id) ord)))
       else '''') @
      (if 0 \<le> lmt then '' LIMIT '' @ int_to_text lmt else '''') @
      (if 0 < off then '' OFFSET '' @ int_to_text off else ''''))"

definition show_expression :: "select_statement expression \<Rightarrow> string" where
  "show_expression e = expression_to_string select_to_string e"

end
