(* ===== verification/Evaluator.thy ===== *)
theory Evaluator
  imports Syntax_Trees "HOL-Library.Signed_Division"
begin

text \<open>
  Evaluation of expressions: the correlation frames of \<^verbatim>\<open>src/core/correlation_context.cc\<close>, the bind parameters of
  \<^verbatim>\<open>src/core/bind_context.cc\<close>, the built-in functions of \<^verbatim>\<open>src/executor/scalar_function.cc\<close> and the evaluator of
  \<^verbatim>\<open>src/executor/select_expression_evaluator.cc\<close>, whose three entry points compute a value, a WHERE condition
  and a CHECK condition. Subqueries are callbacks, as in the code: any computation on the evaluator's state.
\<close>

section \<open>Correlated columns\<close>

record column_binding =
  bind_alias :: string
  physical_table :: string
  column_name :: string

record correlation_frame =
  by_column :: "string \<rightharpoonup> sql_value"
  by_qualified :: "string \<rightharpoonup> sql_value"

definition add_binding :: "correlation_frame \<Rightarrow> column_binding \<times> sql_value \<Rightarrow> correlation_frame" where
  "add_binding f bv =
     (case bv of (b, v) \<Rightarrow>
       let f1 = f\<lparr>by_column := (by_column f)(column_name b \<mapsto> v)\<rparr>;
           f2 = (if bind_alias b \<noteq> ''''
                 then f1\<lparr>by_qualified := (by_qualified f1)(bind_alias b @ ''.'' @ column_name b \<mapsto> v)\<rparr>
                 else f1)
       in if physical_table b \<noteq> ''''
          then f2\<lparr>by_qualified := (by_qualified f2)(physical_table b @ ''.'' @ column_name b \<mapsto> v)\<rparr>
          else f2)"

text \<open>The innermost frame comes first.\<close>

definition pushFrame :: "column_binding list \<Rightarrow> row \<Rightarrow> correlation_frame list \<Rightarrow> correlation_frame list" where
  "pushFrame bindings r frames =
     foldl add_binding \<lparr>by_column = Map.empty, by_qualified = Map.empty\<rparr>
       (zip bindings (row_values r)) # frames"

definition popFrame :: "correlation_frame list \<Rightarrow> correlation_frame list" where
  "popFrame frames = (case frames of [] \<Rightarrow> [] | _ # rest \<Rightarrow> rest)"

fun lookup_frames :: "string \<Rightarrow> string \<Rightarrow> correlation_frame list \<Rightarrow> sql_value option" where
  "lookup_frames t c [] = None"
| "lookup_frames t c (f # frames) =
     (case (if t \<noteq> '''' then by_qualified f (t @ ''.'' @ c) else by_column f c) of
        Some v \<Rightarrow> Some v
      | None \<Rightarrow> lookup_frames t c frames)"

section \<open>Bind parameters\<close>

definition bind_get_value :: "sql_value list \<Rightarrow> nat \<Rightarrow> sql_value result" where
  "bind_get_value vs i =
     (if length vs \<le> i then Inl (InvalidOperationException ''Bind parameter index out of range'')
      else Inr (vs ! i))"

text \<open>The text of an exception, with the prefix its constructor adds.\<close>

fun what :: "db_error \<Rightarrow> string" where
  "what (ParseException m) = ''Parse Error: '' @ m"
| "what (ConstraintException m) = ''Constraint Error: '' @ m"
| "what (TypeException m) = ''Type Error: '' @ m"
| "what (NotFoundException m) = ''Not Found: '' @ m"
| "what (InvalidOperationException m) = ''Invalid Operation: '' @ m"
| "what (StorageException m) = ''Storage Error: '' @ m"
| "what (DeadlockException m) = ''Deadlock Error: '' @ m"
| "what (OutOfRange m) = m"
| "what (InvalidArgument m) = m"
| "what (FilesystemError m) = m"
| "what UndefinedBehaviour = ''''"
| "what Halted = ''''"

section \<open>Scalar functions\<close>

datatype scalar_function =
    UpperFunction | LowerFunction | LengthFunction | CoalesceFunction | NullIfFunction
  | SubstringFunction string | CurrentDateFunction

fun function_name :: "scalar_function \<Rightarrow> string" where
  "function_name UpperFunction = ''upper''"
| "function_name LowerFunction = ''lower''"
| "function_name LengthFunction = ''length''"
| "function_name CoalesceFunction = ''coalesce''"
| "function_name NullIfFunction = ''nullif''"
| "function_name (SubstringFunction name) = name"
| "function_name CurrentDateFunction = ''current_date''"

fun min_arity :: "scalar_function \<Rightarrow> nat" where
  "min_arity NullIfFunction = 2"
| "min_arity (SubstringFunction _) = 2"
| "min_arity CurrentDateFunction = 0"
| "min_arity _ = 1"

fun max_arity :: "scalar_function \<Rightarrow> nat" where
  "max_arity CoalesceFunction = 64"
| "max_arity NullIfFunction = 2"
| "max_arity (SubstringFunction _) = 3"
| "max_arity CurrentDateFunction = 0"
| "max_arity _ = 1"

definition upper_function :: "sql_value list \<Rightarrow> sql_value" where
  "upper_function args =
     (if is_null (args ! 0) then NullV else StringV (map to_upper (as_string (args ! 0))))"

definition lower_function :: "sql_value list \<Rightarrow> sql_value" where
  "lower_function args =
     (if is_null (args ! 0) then NullV else StringV (map to_lower (as_string (args ! 0))))"

definition length_function :: "sql_value list \<Rightarrow> sql_value" where
  "length_function args =
     (if is_null (args ! 0) then NullV else IntV (of_nat (length (as_string (args ! 0)))))"

fun coalesce_function :: "sql_value list \<Rightarrow> sql_value" where
  "coalesce_function [] = NullV"
| "coalesce_function (arg # args) = (if \<not> is_null arg then arg else coalesce_function args)"

definition nullif_function :: "sql_value list \<Rightarrow> sql_value" where
  "nullif_function args = (if value_eq (args ! 0) (args ! 1) then NullV else args ! 0)"

text \<open>The second component is the message written through \<^verbatim>\<open>error_msg\<close>, if any.\<close>

definition substring_function :: "sql_value list \<Rightarrow> sql_value \<times> string option" where
  "substring_function args =
     (if is_null (args ! 0) \<or> is_null (args ! 1) then (NullV, None)
      else case args ! 1 of
        IntV start0 \<Rightarrow>
          let source = as_string (args ! 0);
              start = (if sint start0 < 1 then 1 else sint start0);
              start_index = nat (start - 1)
          in if length source \<le> start_index then (StringV [], None)
             else if length args = 2 then (StringV (drop start_index source), None)
             else if is_null (args ! 2) then (NullV, None)
             else (case args ! 2 of
                 IntV length0 \<Rightarrow>
                   let len = (if sint length0 < 0 then 0 else sint length0)
                   in (StringV (take (nat len) (drop start_index source)), None)
               | _ \<Rightarrow> (NullV, Some ''SUBSTRING length must be INT''))
      | _ \<Rightarrow> (NullV, Some ''SUBSTRING start must be INT''))"

text \<open>\<open>today\<close> is the local date the system clock gives, as \<^verbatim>\<open>put_time\<close> formats it.\<close>

fun run_scalar :: "string \<Rightarrow> scalar_function \<Rightarrow> sql_value list \<Rightarrow> sql_value \<times> string option" where
  "run_scalar today UpperFunction args = (upper_function args, None)"
| "run_scalar today LowerFunction args = (lower_function args, None)"
| "run_scalar today LengthFunction args = (length_function args, None)"
| "run_scalar today CoalesceFunction args = (coalesce_function args, None)"
| "run_scalar today NullIfFunction args = (nullif_function args, None)"
| "run_scalar today (SubstringFunction _) args = substring_function args"
| "run_scalar today CurrentDateFunction args = (StringV today, None)"

definition register_defaults :: "(string \<times> scalar_function) list" where
  "register_defaults =
     map (\<lambda>f. (map to_lower (function_name f), f))
       [UpperFunction, LowerFunction, LengthFunction, CoalesceFunction, NullIfFunction,
        SubstringFunction ''substring'', SubstringFunction ''substr'', CurrentDateFunction]"

definition find_function :: "string \<Rightarrow> scalar_function option" where
  "find_function name = map_of register_defaults (map to_lower name)"

definition check_arity :: "scalar_function \<Rightarrow> nat \<Rightarrow> bool" where
  "check_arity f argc = (\<not> (argc < min_arity f \<or> max_arity f < argc))"

definition registry_evaluate :: "string \<Rightarrow> string \<Rightarrow> sql_value list \<Rightarrow> sql_value \<times> string option" where
  "registry_evaluate today name args =
     (case find_function name of
        None \<Rightarrow> (NullV, Some (''Unknown function: '' @ name))
      | Some f \<Rightarrow>
          if \<not> check_arity f (length args)
          then (NullV, Some (''Wrong number of arguments for function '' @ function_name f))
          else run_scalar today f args)"

section \<open>User functions\<close>

record 'q function_definition =
  fn_name :: string
  fn_params :: "(string \<times> data_type) list"
  fn_return_type :: data_type
  fn_body :: "'q expression"

text \<open>The catalog's \<^verbatim>\<open>std::map\<close>, in its iteration order.\<close>

type_synonym 'q catalog = "(string \<times> 'q function_definition) list"

definition same_ignoring_case :: "string \<Rightarrow> string \<Rightarrow> bool" where
  "same_ignoring_case a b = (length a = length b \<and> list_all2 (\<lambda>x y. to_lower x = to_lower y) a b)"

definition getFunction :: "'q catalog \<Rightarrow> string \<Rightarrow> 'q function_definition option" where
  "getFunction functions name =
     (case map_of functions name of
        Some d \<Rightarrow> Some d
      | None \<Rightarrow> map_option snd (find (\<lambda>(stored, d). same_ignoring_case stored name) functions))"

section \<open>The evaluator\<close>

text \<open>
  What an evaluation can change: the frames of the correlation context, the string \<^verbatim>\<open>error_msg\<close>
  points to (\<open>None\<close> for a null pointer) and, through the subquery callbacks, the database. Each
  survives an exception.
\<close>

record 's eval_state =
  frames :: "correlation_frame list"
  error_msg :: "string option"
  database :: 's

record ('q, 's) evaluator =
  bindings :: "column_binding list"
  scalar_subquery_fn :: "('q \<Rightarrow> ('s eval_state, sql_value) proc) option"
  in_subquery_fn :: "(sql_value \<Rightarrow> 'q \<Rightarrow> bool \<Rightarrow> ('s eval_state, bool) proc) option"
  exists_subquery_fn :: "('q \<Rightarrow> ('s eval_state, bool) proc) option"
  correlation :: bool
  bind_context :: "sql_value list option"
  routine_catalog :: "'q catalog option"
  local_variables :: "string \<rightharpoonup> sql_value"
  clock_date :: string

definition make_evaluator :: "string \<Rightarrow> column_binding list \<Rightarrow> ('q, 's) evaluator" where
  "make_evaluator today bs =
     \<lparr>bindings = bs, scalar_subquery_fn = None, in_subquery_fn = None, exists_subquery_fn = None,
      correlation = False, bind_context = None, routine_catalog = None,
      local_variables = Map.empty, clock_date = today\<rparr>"

definition set_error :: "string \<Rightarrow> ('s eval_state, unit) proc" where
  "set_error m = modifyM (\<lambda>s. s\<lparr>error_msg := map_option (\<lambda>_. m) (error_msg s)\<rparr>)"

text \<open>Running a computation with another \<^verbatim>\<open>error_msg\<close> argument.\<close>

definition with_message :: "string option \<Rightarrow> ('s eval_state, 'a) proc \<Rightarrow> ('s eval_state, 'a) proc" where
  "with_message m p s =
     (case p (s\<lparr>error_msg := m\<rparr>) of (x, t) \<Rightarrow> (x, t\<lparr>error_msg := error_msg s\<rparr>))"

text \<open>A callback between \<^verbatim>\<open>pushFrame\<close> and \<^verbatim>\<open>popFrame\<close>: an exception skips the second.\<close>

definition in_frame ::
    "('q, 's) evaluator \<Rightarrow> row \<Rightarrow> ('s eval_state, 'a) proc \<Rightarrow> ('s eval_state, 'a) proc" where
  "in_frame ev r p =
     (if correlation ev
      then bindM (modifyM (\<lambda>s. s\<lparr>frames := pushFrame (bindings ev) r (frames s)\<rparr>)) (\<lambda>_.
           bindM p (\<lambda>x.
           bindM (modifyM (\<lambda>s. s\<lparr>frames := popFrame (frames s)\<rparr>)) (\<lambda>_. ret x)))
      else p)"

definition lookup_correlated ::
    "('q, 's) evaluator \<Rightarrow> string \<Rightarrow> string \<Rightarrow> correlation_frame list \<Rightarrow> sql_value option" where
  "lookup_correlated ev t c fs = (if \<not> correlation ev then None else lookup_frames t c fs)"

definition binding_matches :: "string \<Rightarrow> string \<Rightarrow> column_binding \<Rightarrow> bool" where
  "binding_matches prefix col e =
     (if prefix \<noteq> ''''
      then (bind_alias e = prefix \<or> physical_table e = prefix) \<and> column_name e = col \<or>
           column_name e = prefix @ ''.'' @ col
      else column_name e = col)"

definition resolve_column_index ::
    "('q, 's) evaluator \<Rightarrow> string \<Rightarrow> string \<Rightarrow> string + nat" where
  "resolve_column_index ev prefix col =
     (let matches = filter (\<lambda>i. binding_matches prefix col (bindings ev ! i)) [0..<length (bindings ev)]
      in if matches = [] then Inl (''Unknown column '' @ [CHR 0x27] @ column_ref_to_string prefix col @ [CHR 0x27])
         else if 1 < length matches \<and> prefix = ''''
         then Inl (''Ambiguous column '' @ [CHR 0x27] @ col @ [CHR 0x27])
         else Inr (matches ! 0))"

definition qualified_header :: "('q, 's) evaluator \<Rightarrow> nat \<Rightarrow> string result" where
  "qualified_header ev i =
     (if length (bindings ev) \<le> i then Inl (OutOfRange ''vector::_M_range_check'')
      else let b = bindings ev ! i in
        Inr (if bind_alias b = '''' then column_name b else bind_alias b @ ''.'' @ column_name b))"

definition evaluate_column_ref ::
    "('q, 's) evaluator \<Rightarrow> row \<Rightarrow> string \<Rightarrow> string \<Rightarrow> ('s eval_state, sql_value) proc" where
  "evaluate_column_ref ev r t c =
     (case (if t = '''' then local_variables ev c else None) of
        Some v \<Rightarrow> ret v
      | None \<Rightarrow>
        (case resolve_column_index ev t c of
           Inl err \<Rightarrow>
             bindM (readM frames) (\<lambda>fs.
             case lookup_correlated ev t c fs of
               Some v \<Rightarrow> ret v
             | None \<Rightarrow> bindM (set_error err) (\<lambda>_. ret NullV))
         | Inr idx \<Rightarrow>
             if idx < get_column_count r then liftR (get_value r idx) else ret NullV))"

text \<open>Signed remainder, undefined for a zero divisor and for the overflowing quotient.\<close>

definition binary_value :: "binary_op \<Rightarrow> sql_value \<Rightarrow> sql_value \<Rightarrow> sql_value result" where
  "binary_value bop left right =
     (case bop of
        PLUS_OP \<Rightarrow> value_add left right
      | MINUS_OP \<Rightarrow> value_sub left right
      | MUL_OP \<Rightarrow> value_mul left right
      | DIV_OP \<Rightarrow> value_div left right
      | MOD_OP \<Rightarrow>
          (case (left, right) of
             (IntV a, IntV b) \<Rightarrow>
               if b = 0 \<or> \<not> in_i64 (sint a sdiv sint b) then Inl UndefinedBehaviour
               else Inr (IntV (of_int (sint a smod sint b)))
           | _ \<Rightarrow> Inr NullV)
      | _ \<Rightarrow> Inr NullV)"

definition unary_value :: "unary_op \<Rightarrow> sql_value \<Rightarrow> sql_value result" where
  "unary_value uop inner =
     (if is_null inner then Inr NullV
      else case uop of
        NOT_OP \<Rightarrow> bindR (as_bool inner) (\<lambda>b. Inr (BoolV (\<not> b)))
      | NEG_OP \<Rightarrow>
          (case inner of
             IntV i \<Rightarrow> checked_int (- sint i)
           | FloatV d \<Rightarrow> Inr (FloatV (d_flip d))
           | _ \<Rightarrow> Inr NullV))"

text \<open>SQL three-valued IN: \<open>None\<close> is UNKNOWN.\<close>

fun in_list_scan :: "sql_value \<Rightarrow> bool \<Rightarrow> sql_value list \<Rightarrow> bool option" where
  "in_list_scan left saw_null [] = (if saw_null then None else Some False)"
| "in_list_scan left saw_null (c # cs) =
     (if is_null c then in_list_scan left True cs
      else if value_eq c left then Some True
      else in_list_scan left saw_null cs)"

definition match_in_list :: "sql_value \<Rightarrow> sql_value list \<Rightarrow> bool option" where
  "match_in_list left vs = (if is_null left then None else in_list_scan left False vs)"

definition in_list_result :: "sql_value \<Rightarrow> sql_value list \<Rightarrow> bool \<Rightarrow> bool" where
  "in_list_result left vs neg =
     (case match_in_list left vs of None \<Rightarrow> False | Some matched \<Rightarrow> if neg then \<not> matched else matched)"

definition in_subquery_result ::
    "('q, 's) evaluator \<Rightarrow> row \<Rightarrow> sql_value \<Rightarrow> 'q expression \<Rightarrow> bool \<Rightarrow> ('s eval_state, bool) proc" where
  "in_subquery_result ev r left sub neg =
     (case (sub, in_subquery_fn ev) of
        (SubqueryExpression q, Some f) \<Rightarrow> in_frame ev r (with_message (Some '''') (f left q neg))
      | _ \<Rightarrow> ret False)"

definition evaluate_exists_predicate ::
    "('q, 's) evaluator \<Rightarrow> row \<Rightarrow> 'q \<Rightarrow> bool \<Rightarrow> ('s eval_state, bool) proc" where
  "evaluate_exists_predicate ev r q neg =
     (case exists_subquery_fn ev of
        None \<Rightarrow> ret False
      | Some f \<Rightarrow>
          bindM (in_frame ev r (with_message (Some '''') (f q))) (\<lambda>b. ret (if neg then \<not> b else b)))"

text \<open>
  \<open>depth\<close> bounds the nesting of user-function calls, which the C++ stack bounds: a deeper call
  overflows it.
\<close>

definition udf_evaluator ::
    "('q, 's) evaluator \<Rightarrow> 'q function_definition \<Rightarrow> sql_value list \<Rightarrow> ('q, 's) evaluator" where
  "udf_evaluator ev udf vs =
     (make_evaluator (clock_date ev) [])
       \<lparr>routine_catalog := routine_catalog ev,
        local_variables :=
          foldl (\<lambda>m (p, v). m(fst p \<mapsto> v)) Map.empty (zip (fn_params udf) vs)\<rparr>"

definition find_udf :: "('q, 's) evaluator \<Rightarrow> string \<Rightarrow> 'q function_definition option" where
  "find_udf ev name =
     (case routine_catalog ev of
        None \<Rightarrow> None
      | Some cat \<Rightarrow>
          (case getFunction cat (map to_lower name) of
             Some d \<Rightarrow> Some d
           | None \<Rightarrow> getFunction cat name))"

definition is_aggregate_text :: "string \<Rightarrow> bool" where
  "is_aggregate_text name =
     (name = ''count'' \<or> name = ''sum'' \<or> name = ''avg'' \<or> name = ''min'' \<or> name = ''max'')"

definition fail_with :: "string \<Rightarrow> ('s eval_state, sql_value) proc" where
  "fail_with m = bindM (set_error m) (\<lambda>_. ret NullV)"

definition call_scalar ::
    "('q, 's) evaluator \<Rightarrow> string \<Rightarrow> sql_value list \<Rightarrow> ('s eval_state, sql_value) proc" where
  "call_scalar ev name vs =
     (case registry_evaluate (clock_date ev) name vs of
        (v, None) \<Rightarrow> ret v
      | (v, Some m) \<Rightarrow> bindM (set_error m) (\<lambda>_. ret v))"

fun evaluate_expression ::
    "nat \<Rightarrow> ('q, 's) evaluator \<Rightarrow> row \<Rightarrow> 'q expression \<Rightarrow> ('s eval_state, sql_value) proc"
and evaluate_arguments ::
    "nat \<Rightarrow> ('q, 's) evaluator \<Rightarrow> row \<Rightarrow> 'q expression list \<Rightarrow> ('s eval_state, sql_value list option) proc"
and evaluate_values ::
    "nat \<Rightarrow> ('q, 's) evaluator \<Rightarrow> row \<Rightarrow> 'q expression list \<Rightarrow> ('s eval_state, sql_value list) proc" where
  "evaluate_expression depth ev r (LiteralExpression v) = ret v"
| "evaluate_expression depth ev r (SubqueryExpression q) =
     (case scalar_subquery_fn ev of
        None \<Rightarrow> fail_with ''Subquery evaluation not available''
      | Some f \<Rightarrow> in_frame ev r (f q))"
| "evaluate_expression depth ev r (InExpression l sub neg) =
     bindM (with_message None (evaluate_expression depth ev r l)) (\<lambda>left.
     bindM (in_subquery_result ev r left sub neg) (\<lambda>b. ret (BoolV b)))"
| "evaluate_expression depth ev r (InListExpression l es neg) =
     bindM (with_message None (evaluate_expression depth ev r l)) (\<lambda>left.
     bindM (evaluate_values depth ev r es) (\<lambda>vs. ret (BoolV (in_list_result left vs neg))))"
| "evaluate_expression depth ev r (ExistsExpression q neg) =
     bindM (evaluate_exists_predicate ev r q neg) (\<lambda>b. ret (BoolV b))"
| "evaluate_expression depth ev r (ParameterExpression i) =
     (case bind_context ev of
        None \<Rightarrow> fail_with ''Bind parameter used without EXECUTE args''
      | Some vs \<Rightarrow> (case bind_get_value vs i of Inr v \<Rightarrow> ret v | Inl e \<Rightarrow> fail_with (what e)))"
| "evaluate_expression depth ev r (ColumnRefExpression t c) = evaluate_column_ref ev r t c"
| "evaluate_expression depth ev r (IdentifierExpression name) = evaluate_column_ref ev r '''' name"
| "evaluate_expression depth ev r (BinaryOpExpression a bop b) =
     bindM (evaluate_expression depth ev r a) (\<lambda>left.
     bindM (evaluate_expression depth ev r b) (\<lambda>right. liftR (binary_value bop left right)))"
| "evaluate_expression depth ev r (UnaryOpExpression uop e) =
     bindM (evaluate_expression depth ev r e) (\<lambda>inner. liftR (unary_value uop inner))"
| "evaluate_expression depth ev r (CastExpression e t) =
     bindM (evaluate_expression depth ev r e) (\<lambda>inner.
     if is_null inner then ret NullV
     else case string_to_value (value_to_string inner) t of
       Inr v \<Rightarrow> ret v
     | Inl ex \<Rightarrow> fail_with (what ex))"
| "evaluate_expression depth ev r (FunctionCallExpression name args w) =
     (if w \<noteq> None then ret NullV
      else if is_aggregate_text (map to_lower name)
      then fail_with ''Aggregate functions require GROUP BY or grouping context''
      else bindM (evaluate_arguments depth ev r args) (\<lambda>ovs.
        case ovs of
          None \<Rightarrow> ret NullV
        | Some vs \<Rightarrow>
            if find_function (map to_lower name) \<noteq> None then call_scalar ev (map to_lower name) vs
            else (case find_udf ev name of
                None \<Rightarrow> fail_with (''Unknown function: '' @ map to_lower name)
              | Some udf \<Rightarrow>
                  if length vs \<noteq> length (fn_params udf)
                  then fail_with (''Wrong number of arguments for function '' @ fn_name udf)
                  else (case depth of
                      0 \<Rightarrow> throw UndefinedBehaviour
                    | Suc d \<Rightarrow>
                        evaluate_expression d (udf_evaluator ev udf vs) (make_row []) (fn_body udf)))))"
| "evaluate_expression depth ev r (CaseExpression pairs els) = ret NullV"
| "evaluate_arguments depth ev r [] = ret (Some [])"
| "evaluate_arguments depth ev r (e # es) =
     bindM (evaluate_expression depth ev r e) (\<lambda>v.
     bindM (readM error_msg) (\<lambda>m.
     if m \<noteq> None \<and> the m \<noteq> '''' then ret None
     else bindM (evaluate_arguments depth ev r es) (\<lambda>ovs. ret (map_option ((#) v) ovs))))"
| "evaluate_values depth ev r [] = ret []"
| "evaluate_values depth ev r (e # es) =
     bindM (with_message None (evaluate_expression depth ev r e)) (\<lambda>v.
     bindM (evaluate_values depth ev r es) (\<lambda>vs. ret (v # vs)))"

definition evaluate_dml_assignment_rhs ::
    "nat \<Rightarrow> ('q, 's) evaluator \<Rightarrow> row \<Rightarrow> 'q expression \<Rightarrow> ('s eval_state, sql_value) proc" where
  "evaluate_dml_assignment_rhs depth ev r e = with_message None (evaluate_expression depth ev r e)"

section \<open>Conditions\<close>

fun evaluate_in_predicate ::
    "nat \<Rightarrow> ('q, 's) evaluator \<Rightarrow> row \<Rightarrow> 'q expression \<Rightarrow> ('s eval_state, bool) proc" where
  "evaluate_in_predicate depth ev r (InExpression l sub neg) =
     bindM (with_message None (evaluate_expression depth ev r l)) (\<lambda>left.
     in_subquery_result ev r left sub neg)"
| "evaluate_in_predicate depth ev r (InListExpression l es neg) =
     bindM (with_message None (evaluate_expression depth ev r l)) (\<lambda>left.
     bindM (evaluate_values depth ev r es) (\<lambda>vs. ret (in_list_result left vs neg)))"
| "evaluate_in_predicate depth ev r _ = ret False"

definition compare_values :: "binary_op \<Rightarrow> sql_value \<Rightarrow> sql_value \<Rightarrow> bool" where
  "compare_values bop left right =
     (case bop of
        EQ_OP \<Rightarrow> value_eq left right
      | NE_OP \<Rightarrow> \<not> value_eq left right
      | LT_OP \<Rightarrow> value_less left right
      | LE_OP \<Rightarrow> value_le left right
      | GT_OP \<Rightarrow> value_gt left right
      | GE_OP \<Rightarrow> value_ge left right
      | _ \<Rightarrow> True)"

fun evaluate_condition ::
    "nat \<Rightarrow> ('q, 's) evaluator \<Rightarrow> row \<Rightarrow> 'q expression \<Rightarrow> ('s eval_state, bool) proc" where
  "evaluate_condition depth ev r (InExpression l sub neg) =
     evaluate_in_predicate depth ev r (InExpression l sub neg)"
| "evaluate_condition depth ev r (InListExpression l es neg) =
     evaluate_in_predicate depth ev r (InListExpression l es neg)"
| "evaluate_condition depth ev r (ExistsExpression q neg) = evaluate_exists_predicate ev r q neg"
| "evaluate_condition depth ev r (BinaryOpExpression a bop b) =
     bindM (with_message None (evaluate_expression depth ev r a)) (\<lambda>left.
     bindM (with_message None (evaluate_expression depth ev r b)) (\<lambda>right.
     case bop of
       AND_OP \<Rightarrow> bindM (evaluate_condition depth ev r a) (\<lambda>x.
         if x then evaluate_condition depth ev r b else ret False)
     | OR_OP \<Rightarrow> bindM (evaluate_condition depth ev r a) (\<lambda>x.
         if x then ret True else evaluate_condition depth ev r b)
     | _ \<Rightarrow> ret (compare_values bop left right)))"
| "evaluate_condition depth ev r (UnaryOpExpression NOT_OP e) =
     bindM (evaluate_condition depth ev r e) (\<lambda>x. ret (\<not> x))"
| "evaluate_condition depth ev r _ = ret True"

definition evaluate_where ::
    "nat \<Rightarrow> ('q, 's) evaluator \<Rightarrow> row \<Rightarrow> 'q expression option \<Rightarrow> ('s eval_state, bool) proc" where
  "evaluate_where depth ev r c =
     (case c of None \<Rightarrow> ret True | Some e \<Rightarrow> evaluate_condition depth ev r e)"

datatype tri_bool = TriFalse | TriTrue | TriUnknown

definition check_compare :: "binary_op \<Rightarrow> sql_value \<Rightarrow> sql_value \<Rightarrow> tri_bool" where
  "check_compare bop left right =
     (let verdict = (\<lambda>b. if b then TriTrue else TriFalse) in
      case bop of
        EQ_OP \<Rightarrow> verdict (value_eq left right)
      | NE_OP \<Rightarrow> verdict (\<not> value_eq left right)
      | LT_OP \<Rightarrow> verdict (value_less left right)
      | LE_OP \<Rightarrow> verdict (value_le left right)
      | GT_OP \<Rightarrow> verdict (value_gt left right)
      | GE_OP \<Rightarrow> verdict (value_ge left right)
      | _ \<Rightarrow> TriTrue)"

fun evaluate_check_tri ::
    "nat \<Rightarrow> ('q, 's) evaluator \<Rightarrow> row \<Rightarrow> 'q expression \<Rightarrow> ('s eval_state, tri_bool) proc" where
  "evaluate_check_tri depth ev r (BinaryOpExpression a bop b) =
     (if bop = AND_OP then
        bindM (evaluate_check_tri depth ev r a) (\<lambda>left.
        if left = TriFalse then ret TriFalse
        else bindM (evaluate_check_tri depth ev r b) (\<lambda>right.
          ret (if right = TriFalse then TriFalse
               else if left = TriUnknown \<or> right = TriUnknown then TriUnknown else TriTrue)))
      else if bop = OR_OP then
        bindM (evaluate_check_tri depth ev r a) (\<lambda>left.
        if left = TriTrue then ret TriTrue
        else bindM (evaluate_check_tri depth ev r b) (\<lambda>right.
          ret (if right = TriTrue then TriTrue
               else if left = TriUnknown \<or> right = TriUnknown then TriUnknown else TriFalse)))
      else
        bindM (with_message None (evaluate_expression depth ev r a)) (\<lambda>left.
        bindM (with_message None (evaluate_expression depth ev r b)) (\<lambda>right.
        ret (if is_null left \<or> is_null right then TriUnknown else check_compare bop left right))))"
| "evaluate_check_tri depth ev r (UnaryOpExpression NOT_OP e) =
     bindM (evaluate_check_tri depth ev r e) (\<lambda>inner.
     ret (if inner = TriUnknown then TriUnknown
          else if inner = TriTrue then TriFalse else TriTrue))"
| "evaluate_check_tri depth ev r (InExpression l sub neg) =
     bindM (evaluate_in_predicate depth ev r (InExpression l sub neg)) (\<lambda>x.
     ret (if x then TriTrue else TriFalse))"
| "evaluate_check_tri depth ev r (InListExpression l es neg) =
     bindM (evaluate_in_predicate depth ev r (InListExpression l es neg)) (\<lambda>x.
     ret (if x then TriTrue else TriFalse))"
| "evaluate_check_tri depth ev r _ = ret TriTrue"

definition evaluate_check_condition ::
    "nat \<Rightarrow> ('q, 's) evaluator \<Rightarrow> row \<Rightarrow> 'q expression option \<Rightarrow> ('s eval_state, bool) proc" where
  "evaluate_check_condition depth ev r c =
     (case c of
        None \<Rightarrow> ret True
      | Some e \<Rightarrow> bindM (evaluate_check_tri depth ev r e) (\<lambda>x. ret (x \<noteq> TriFalse)))"

section \<open>Validation of column references\<close>

fun first_error :: "string option list \<Rightarrow> string option" where
  "first_error [] = None"
| "first_error (Some e # es) = Some e"
| "first_error (None # es) = first_error es"

primrec validate_inner :: "('q, 's) evaluator \<Rightarrow> correlation_frame list \<Rightarrow> 'q expression \<Rightarrow> string option" where
  "validate_inner ev fs (ColumnRefExpression t c) =
     (case resolve_column_index ev t c of
        Inr _ \<Rightarrow> None
      | Inl err \<Rightarrow> if lookup_correlated ev t c fs \<noteq> None then None else Some err)"
| "validate_inner ev fs (BinaryOpExpression a bop b) =
     first_error [validate_inner ev fs a, validate_inner ev fs b]"
| "validate_inner ev fs (UnaryOpExpression uop e) = validate_inner ev fs e"
| "validate_inner ev fs (InExpression l sub neg) = validate_inner ev fs l"
| "validate_inner ev fs (InListExpression l es neg) =
     first_error (validate_inner ev fs l # map (validate_inner ev fs) es)"
| "validate_inner ev fs (ExistsExpression q neg) = None"
| "validate_inner ev fs (FunctionCallExpression name args w) =
     first_error (map (validate_inner ev fs) args)"
| "validate_inner ev fs (CastExpression e t) = validate_inner ev fs e"
| "validate_inner ev fs (CaseExpression pairs els) =
     first_error
       (concat (map (\<lambda>(w, t). [w, t])
          (map (map_prod (validate_inner ev fs) (validate_inner ev fs)) pairs)) @
        [case map_option (validate_inner ev fs) els of None \<Rightarrow> None | Some e \<Rightarrow> e])"
| "validate_inner ev fs (LiteralExpression v) = None"
| "validate_inner ev fs (IdentifierExpression name) = None"
| "validate_inner ev fs (ParameterExpression i) = None"
| "validate_inner ev fs (SubqueryExpression q) = None"

section \<open>Reference semantics of conditions\<close>

fun is_comparison :: "binary_op \<Rightarrow> bool" where
  "is_comparison bop = (bop \<in> {EQ_OP, NE_OP, LT_OP, LE_OP, GT_OP, GE_OP})"

text \<open>Conditions built from comparisons and IN lists with AND, OR and NOT.\<close>

fun is_predicate :: "'q expression \<Rightarrow> bool" where
  "is_predicate (BinaryOpExpression a bop b) =
     (if bop = AND_OP \<or> bop = OR_OP then is_predicate a \<and> is_predicate b else is_comparison bop)"
| "is_predicate (UnaryOpExpression uop e) = (uop = NOT_OP \<and> is_predicate e)"
| "is_predicate (InListExpression l es neg) = True"
| "is_predicate _ = False"

fun compared :: "'q expression \<Rightarrow> 'q expression set" where
  "compared (BinaryOpExpression a bop b) =
     (if bop = AND_OP \<or> bop = OR_OP then compared a \<union> compared b else {a, b})"
| "compared (UnaryOpExpression uop e) = compared e"
| "compared _ = {}"

fun listed :: "'q expression \<Rightarrow> 'q expression set" where
  "listed (BinaryOpExpression a bop b) =
     (if bop = AND_OP \<or> bop = OR_OP then listed a \<union> listed b else {})"
| "listed (UnaryOpExpression uop e) = listed e"
| "listed (InListExpression l es neg) = insert l (set es)"
| "listed _ = {}"

text \<open>Kleene's three-valued connectives.\<close>

fun tri_not :: "tri_bool \<Rightarrow> tri_bool" where
  "tri_not TriTrue = TriFalse"
| "tri_not TriFalse = TriTrue"
| "tri_not TriUnknown = TriUnknown"

fun tri_and :: "tri_bool \<Rightarrow> tri_bool \<Rightarrow> tri_bool" where
  "tri_and TriTrue b = b"
| "tri_and TriFalse b = TriFalse"
| "tri_and TriUnknown b = (if b = TriFalse then TriFalse else TriUnknown)"

definition tri_or :: "tri_bool \<Rightarrow> tri_bool \<Rightarrow> tri_bool" where
  "tri_or a b = tri_not (tri_and (tri_not a) (tri_not b))"

definition tri_of :: "bool option \<Rightarrow> tri_bool" where
  "tri_of b = (case b of None \<Rightarrow> TriUnknown | Some x \<Rightarrow> if x then TriTrue else TriFalse)"

fun kleene :: "('q expression \<Rightarrow> sql_value) \<Rightarrow> 'q expression \<Rightarrow> tri_bool" where
  "kleene val (BinaryOpExpression a bop b) =
     (if bop = AND_OP then tri_and (kleene val a) (kleene val b)
      else if bop = OR_OP then tri_or (kleene val a) (kleene val b)
      else if is_null (val a) \<or> is_null (val b) then TriUnknown
      else tri_of (Some (compare_values bop (val a) (val b))))"
| "kleene val (UnaryOpExpression uop e) = tri_not (kleene val e)"
| "kleene val (InListExpression l es neg) =
     (let m = tri_of (match_in_list (val l) (map val es)) in if neg then tri_not m else m)"
| "kleene val _ = TriTrue"

text \<open>What the CHECK evaluator computes, as a function of the values of the operands: the connectives of Kleene, a
  comparison with NULL unknown, but an IN test that is unknown counted as FALSE, negated or not, and every other
  expression as TRUE.\<close>

fun check_value :: "('q expression \<Rightarrow> sql_value) \<Rightarrow> 'q expression \<Rightarrow> tri_bool" where
  "check_value val (BinaryOpExpression a bop b) =
     (if bop = AND_OP then tri_and (check_value val a) (check_value val b)
      else if bop = OR_OP then tri_or (check_value val a) (check_value val b)
      else if is_null (val a) \<or> is_null (val b) then TriUnknown
      else tri_of (Some (compare_values bop (val a) (val b))))"
| "check_value val (UnaryOpExpression uop e) = (if uop = NOT_OP then tri_not (check_value val e) else TriTrue)"
| "check_value val (InListExpression l es neg) =
     (case match_in_list (val l) (map val es) of
        None \<Rightarrow> TriFalse
      | Some m \<Rightarrow> tri_of (Some (if neg then \<not> m else m)))"
| "check_value val _ = TriTrue"

fun in_subquery_free :: "'q expression \<Rightarrow> bool" where
  "in_subquery_free (BinaryOpExpression a bop b) =
     (if bop = AND_OP \<or> bop = OR_OP then in_subquery_free a \<and> in_subquery_free b else True)"
| "in_subquery_free (UnaryOpExpression uop e) = (uop = NOT_OP \<longrightarrow> in_subquery_free e)"
| "in_subquery_free (InExpression l sub neg) = False"
| "in_subquery_free (InListExpression l es neg) = True"
| "in_subquery_free _ = True"

text \<open>An operand that evaluates in a state to a value and changes nothing.\<close>

definition evaluates_to ::
    "nat \<Rightarrow> ('q, 's) evaluator \<Rightarrow> row \<Rightarrow> 's eval_state \<Rightarrow> 'q expression \<Rightarrow> sql_value \<Rightarrow> bool" where
  "evaluates_to depth ev r s e v \<longleftrightarrow>
     evaluate_expression depth ev r e (s\<lparr>error_msg := None\<rparr>) = (Inr v, s\<lparr>error_msg := None\<rparr>)"

section \<open>Static types\<close>

fun is_numeric_type :: "data_type \<Rightarrow> bool" where
  "is_numeric_type t = (t = INT_T \<or> t = FLOAT_T)"

fun is_text_type :: "data_type \<Rightarrow> bool" where
  "is_text_type t = (t = STRING_T \<or> t = DATE_T \<or> t = UUID_T)"

definition arith_type :: "data_type \<Rightarrow> data_type \<Rightarrow> data_type option" where
  "arith_type a b =
     (if a = INT_T \<and> b = INT_T then Some INT_T
      else if is_numeric_type a \<and> is_numeric_type b then Some FLOAT_T else None)"

definition infer_binary :: "binary_op \<Rightarrow> data_type \<Rightarrow> data_type \<Rightarrow> data_type option" where
  "infer_binary bop a b =
     (case bop of
        PLUS_OP \<Rightarrow> if is_text_type a \<or> is_text_type b then Some STRING_T else arith_type a b
      | MINUS_OP \<Rightarrow> arith_type a b
      | MUL_OP \<Rightarrow> arith_type a b
      | DIV_OP \<Rightarrow> if is_numeric_type a \<and> is_numeric_type b then Some FLOAT_T else None
      | MOD_OP \<Rightarrow> if a = INT_T \<and> b = INT_T then Some INT_T else None
      | _ \<Rightarrow> Some BOOLEAN_T)"

definition infer_unary :: "unary_op \<Rightarrow> data_type \<Rightarrow> data_type option" where
  "infer_unary uop a =
     (if uop = NOT_OP then Some BOOLEAN_T else if is_numeric_type a then Some a else None)"

fun infer_scalar :: "scalar_function \<Rightarrow> data_type list \<Rightarrow> data_type option" where
  "infer_scalar LengthFunction ts = Some INT_T"
| "infer_scalar CoalesceFunction ts =
     (if ts \<noteq> [] \<and> list_all (\<lambda>t. t = hd ts) ts then Some (hd ts) else None)"
| "infer_scalar NullIfFunction ts = Some (hd ts)"
| "infer_scalar _ ts = Some STRING_T"

definition infer_call :: "string \<Rightarrow> data_type option list \<Rightarrow> data_type option" where
  "infer_call name ots =
     (if is_aggregate_text (map to_lower name) \<or> None \<in> set ots then None
      else case find_function (map to_lower name) of
        None \<Rightarrow> None
      | Some f \<Rightarrow> if check_arity f (length ots) then infer_scalar f (map the ots) else None)"

definition infer_column ::
    "('q, 's) evaluator \<Rightarrow> data_type list \<Rightarrow> string \<Rightarrow> string \<Rightarrow> data_type option" where
  "infer_column ev ts t c =
     (if t = '''' \<and> local_variables ev c \<noteq> None then None
      else case resolve_column_index ev t c of
        Inl _ \<Rightarrow> None
      | Inr i \<Rightarrow> if i < length ts then Some (ts ! i) else None)"

text \<open>\<open>ts\<close> are the types of the row's columns.\<close>

primrec infer_type ::
    "('q, 's) evaluator \<Rightarrow> data_type list \<Rightarrow> 'q expression \<Rightarrow> data_type option" where
  "infer_type ev ts (LiteralExpression v) = (if is_null v then None else Some (get_type v))"
| "infer_type ev ts (IdentifierExpression name) = infer_column ev ts '''' name"
| "infer_type ev ts (ColumnRefExpression t c) = infer_column ev ts t c"
| "infer_type ev ts (ParameterExpression i) = None"
| "infer_type ev ts (BinaryOpExpression a bop b) =
     (case (infer_type ev ts a, infer_type ev ts b) of
        (Some x, Some y) \<Rightarrow> infer_binary bop x y | _ \<Rightarrow> None)"
| "infer_type ev ts (UnaryOpExpression uop e) =
     (case infer_type ev ts e of None \<Rightarrow> None | Some x \<Rightarrow> infer_unary uop x)"
| "infer_type ev ts (FunctionCallExpression name args w) =
     (if w \<noteq> None then None else infer_call name (map (infer_type ev ts) args))"
| "infer_type ev ts (CastExpression e t) =
     (if infer_type ev ts e = None then None else Some t)"
| "infer_type ev ts (CaseExpression pairs els) = None"
| "infer_type ev ts (InExpression l q neg) = None"
| "infer_type ev ts (InListExpression l es neg) =
     (if infer_type ev ts l = None \<or> None \<in> set (map (infer_type ev ts) es) then None
      else Some BOOLEAN_T)"
| "infer_type ev ts (ExistsExpression q neg) = None"
| "infer_type ev ts (SubqueryExpression q) = None"

fun arithmetic_error :: "db_error \<Rightarrow> bool" where
  "arithmetic_error (TypeException _) = True"
| "arithmetic_error UndefinedBehaviour = True"
| "arithmetic_error _ = False"

text \<open>
  The outcome of a well-behaved evaluation: a value with a property and the frames and the
  database as they were, or an arithmetic error.
\<close>

definition yields ::
    "('a \<Rightarrow> bool) \<Rightarrow> 's eval_state \<Rightarrow> 'a result \<times> 's eval_state \<Rightarrow> bool" where
  "yields P s out =
     (case fst out of
        Inr v \<Rightarrow> P v \<and> frames (snd out) = frames s \<and> database (snd out) = database s
      | Inl ex \<Rightarrow> arithmetic_error ex)"

text \<open>A condition evaluated as an expression, as the operand of AND or OR is, has no value.\<close>

fun truth_or_null :: "sql_value \<Rightarrow> bool" where
  "truth_or_null NullV = True"
| "truth_or_null (BoolV b) = True"
| "truth_or_null _ = False"

text \<open>A computation that leaves the frame stack as it was whenever it returns.\<close>

definition keeps_frames :: "('s eval_state, 'a) proc \<Rightarrow> bool" where
  "keeps_frames p \<longleftrightarrow> (\<forall>s x t. p s = (Inr x, t) \<longrightarrow> frames t = frames s)"

definition callbacks_keep_frames :: "('q, 's) evaluator \<Rightarrow> bool" where
  "callbacks_keep_frames ev \<longleftrightarrow>
     (\<forall>f q. scalar_subquery_fn ev = Some f \<longrightarrow> keeps_frames (f q)) \<and>
     (\<forall>f left q neg. in_subquery_fn ev = Some f \<longrightarrow> keeps_frames (f left q neg)) \<and>
     (\<forall>f q. exists_subquery_fn ev = Some f \<longrightarrow> keeps_frames (f q))"

section \<open>Sample inputs\<close>

text \<open>\<open>guarded_division\<close> is \<^verbatim>\<open>a <> 0 AND 10 / a > 1\<close>.\<close>

definition sample_evaluator :: "string list \<Rightarrow> (unit, unit) evaluator" where
  "sample_evaluator cs =
     make_evaluator ''2024-01-31'' (map (\<lambda>c. \<lparr>bind_alias = ''t'', physical_table = ''t'', column_name = c\<rparr>) cs)"

definition sample_state :: "unit eval_state" where
  "sample_state = \<lparr>frames = [], error_msg = Some '''', database = ()\<rparr>"

definition int_literal :: "int \<Rightarrow> 'q expression" where
  "int_literal i = LiteralExpression (IntV (of_int i))"

definition correlated_evaluator ::
    "string list \<Rightarrow> (unit \<Rightarrow> (unit eval_state, sql_value) proc) \<Rightarrow> (unit, unit) evaluator" where
  "correlated_evaluator cs f = (sample_evaluator cs)\<lparr>correlation := True, scalar_subquery_fn := Some f\<rparr>"

definition guarded_division :: "'q expression" where
  "guarded_division =
     BinaryOpExpression
       (BinaryOpExpression (IdentifierExpression ''a'') NE_OP (int_literal 0)) AND_OP
       (BinaryOpExpression
          (BinaryOpExpression (int_literal 10) DIV_OP (IdentifierExpression ''a'')) GT_OP (int_literal 1))"

section \<open>Evaluation of conditions\<close>

lemma with_message_pure:
  "p (s\<lparr>error_msg := m\<rparr>) = (Inr v, s\<lparr>error_msg := m\<rparr>) \<Longrightarrow> with_message m p s = (Inr v, s)"
  by (simp add: with_message_def)

lemma with_message_evaluates:
  "evaluates_to d ev r s e v \<Longrightarrow> with_message None (evaluate_expression d ev r e) s = (Inr v, s)"
  by (simp add: evaluates_to_def with_message_pure)

lemma evaluates_to_quiet: "evaluates_to d ev r (s\<lparr>error_msg := m\<rparr>) e v = evaluates_to d ev r s e v"
  by (simp add: evaluates_to_def)

lemma evaluate_values_map:
  "\<forall>e \<in> set es. evaluates_to d ev r s e (val e) \<Longrightarrow>
   evaluate_values d ev r es s = (Inr (map val es), s)"
proof (induction es)
  case (Cons e es)
  then have "with_message None (evaluate_expression d ev r e) s = (Inr (val e), s)"
    by (intro with_message_evaluates) simp
  with Cons show ?case by (simp add: bindM_def)
qed simp

lemma in_predicate_value:
  assumes "evaluates_to d ev r s l (val l)" "\<forall>e \<in> set es. evaluates_to d ev r s e (val e)"
  shows "evaluate_in_predicate d ev r (InListExpression l es neg) s =
           (Inr (in_list_result (val l) (map val es) neg), s)"
  using with_message_evaluates[OF assms(1)] evaluate_values_map[OF assms(2)] by (simp add: bindM_def)

lemma evaluate_in_list:
  assumes "evaluates_to d ev r s l (val l)" "\<forall>e \<in> set es. evaluates_to d ev r s e (val e)"
  shows "evaluates_to d ev r s (InListExpression l es neg)
           (BoolV (in_list_result (val l) (map val es) neg))"
  using assms
    with_message_evaluates[of d ev r "s\<lparr>error_msg := None\<rparr>" l "val l"]
    evaluate_values_map[of es d ev r "s\<lparr>error_msg := None\<rparr>" val]
  by (simp add: evaluates_to_def bindM_def)

lemma binary_value_connective [simp]:
  "bop = AND_OP \<or> bop = OR_OP \<or> is_comparison bop \<Longrightarrow> binary_value bop x y = Inr NullV"
  by (cases bop) (simp_all add: binary_value_def)

lemma unary_not_truth:
  "truth_or_null v \<Longrightarrow> \<exists>w. unary_value NOT_OP v = Inr w \<and> truth_or_null w"
  by (cases v) (simp_all add: unary_value_def)

lemma evaluates_to_binary:
  "evaluates_to d ev r s a x \<Longrightarrow> evaluates_to d ev r s b y \<Longrightarrow> binary_value bop x y = Inr z \<Longrightarrow>
   evaluates_to d ev r s (BinaryOpExpression a bop b) z"
  by (simp add: evaluates_to_def bindM_def)

lemma evaluates_to_unary:
  "evaluates_to d ev r s a x \<Longrightarrow> unary_value uop x = Inr z \<Longrightarrow>
   evaluates_to d ev r s (UnaryOpExpression uop a) z"
  by (simp add: evaluates_to_def bindM_def)

lemma predicate_as_expression:
  assumes "is_predicate c" "\<forall>e \<in> compared c \<union> listed c. evaluates_to d ev r s e (val e)"
  shows "\<exists>v. evaluates_to d ev r s c v \<and> truth_or_null v"
  using assms
proof (induction c rule: is_predicate.induct)
  case (1 a bop b)
  show ?case
  proof (cases "bop = AND_OP \<or> bop = OR_OP")
    case True
    with 1 obtain x y where "evaluates_to d ev r s a x" "evaluates_to d ev r s b y"
      by (auto split: if_splits)
    with True show ?thesis
      by (metis binary_value_connective evaluates_to_binary truth_or_null.simps(1))
  next
    case False
    with 1 have "evaluates_to d ev r s a (val a)" "evaluates_to d ev r s b (val b)" "is_comparison bop"
      by (auto split: if_splits)
    then show ?thesis
      by (metis binary_value_connective evaluates_to_binary truth_or_null.simps(1))
  qed
next
  case (2 uop e)
  then show ?case
    using evaluates_to_unary unary_not_truth by (metis compared.simps(2) is_predicate.simps(2) listed.simps(2))
next
  case (3 l es neg)
  then show ?case
    using evaluate_in_list[of d ev r s l val es neg] by auto
qed auto

lemma tri_and_cases:
  "tri_and a b = (if a = TriFalse then TriFalse else if b = TriFalse then TriFalse
     else if a = TriUnknown \<or> b = TriUnknown then TriUnknown else TriTrue)"
  by (cases a; cases b) simp_all

lemma check_compare_eq [simp]:
  "check_compare bop a b = (if compare_values bop a b then TriTrue else TriFalse)"
  by (cases bop) (simp_all add: check_compare_def compare_values_def)

lemma tri_or_cases:
  "tri_or a b = (if a = TriTrue then TriTrue else if b = TriTrue then TriTrue
     else if a = TriUnknown \<or> b = TriUnknown then TriUnknown else TriFalse)"
  by (cases a; cases b) (simp_all add: tri_or_def)

lemma tri_not_cases:
  "tri_not a = (if a = TriUnknown then TriUnknown else if a = TriTrue then TriFalse else TriTrue)"
  by (cases a) simp_all

lemma in_list_scan_no_null:
  "\<forall>c \<in> set cs. \<not> is_null c \<Longrightarrow> in_list_scan left False cs \<noteq> None"
  by (induction cs) auto

lemma in_list_result_tri:
  assumes "\<not> is_null left" "\<forall>c \<in> set cs. \<not> is_null c"
  shows "(if in_list_result left cs neg then TriTrue else TriFalse) =
           (let m = tri_of (match_in_list left cs) in if neg then tri_not m else m)"
  using in_list_scan_no_null[OF assms(2), of left] assms(1)
  by (auto simp: in_list_result_def match_in_list_def tri_of_def)

lemma in_list_check_value:
  "tri_of (Some (in_list_result (val l) (map val es) neg)) = check_value val (InListExpression l es neg)"
  by (simp add: in_list_result_def tri_of_def split: option.splits)

lemma check_tri_value:
  assumes "in_subquery_free c" "\<forall>e \<in> compared c \<union> listed c. evaluates_to d ev r s e (val e)"
  shows "evaluate_check_tri d ev r c s = (Inr (check_value val c), s)"
  using assms
proof (induction c rule: in_subquery_free.induct)
  case (1 a bop b)
  show ?case
  proof (cases "bop = AND_OP \<or> bop = OR_OP")
    case True
    with 1 have "evaluate_check_tri d ev r a s = (Inr (check_value val a), s)"
      "evaluate_check_tri d ev r b s = (Inr (check_value val b), s)"
      by (auto split: if_splits)
    with True show ?thesis
      by (auto simp: bindM_def tri_and_cases tri_or_cases)
  next
    case False
    with 1 have "evaluates_to d ev r s a (val a)" "evaluates_to d ev r s b (val b)"
      by (auto split: if_splits)
    from this[THEN with_message_evaluates] False show ?thesis
      by (simp add: bindM_def tri_of_def)
  qed
next
  case (2 uop e)
  then show ?case by (cases uop) (simp_all add: bindM_def tri_not_cases)
next
  case (4 l es neg)
  then have "evaluate_in_predicate d ev r (InListExpression l es neg) s =
      (Inr (in_list_result (val l) (map val es) neg), s)"
    by (intro in_predicate_value) simp_all
  then show ?case
    using in_list_check_value[of val l es neg]
    by (simp add: bindM_def tri_of_def del: evaluate_in_predicate.simps check_value.simps split: if_splits)
qed auto

lemma check_value_kleene:
  assumes "is_predicate c" "\<forall>e \<in> listed c. \<not> is_null (val e)"
  shows "check_value val c = kleene val c"
  using assms
proof (induction c rule: is_predicate.induct)
  case (3 l es neg)
  then show ?case
    using in_list_result_tri[of "val l" "map val es" neg] in_list_check_value[of val l es neg] by (simp add: tri_of_def split: if_splits)
qed (auto split: if_splits)

lemma predicate_in_subquery_free: "is_predicate c \<Longrightarrow> in_subquery_free c"
  by (induction c rule: is_predicate.induct) (auto split: if_splits)

lemma check_tri_kleene:
  assumes "is_predicate c" "\<forall>e \<in> compared c \<union> listed c. evaluates_to d ev r s e (val e)"
    and "\<forall>e \<in> listed c. \<not> is_null (val e)"
  shows "evaluate_check_tri d ev r c s = (Inr (kleene val c), s)"
  using check_tri_value[OF predicate_in_subquery_free[OF assms(1)] assms(2)] check_value_kleene[OF assms(1,3)] by simp

lemma kleene_determined:
  assumes "is_predicate c" "\<forall>e \<in> compared c \<union> listed c. \<not> is_null (val e)"
  shows "kleene val c \<noteq> TriUnknown"
  using assms
proof (induction c rule: is_predicate.induct)
  case (1 a bop b)
  then show ?case
    by (auto simp: tri_and_cases tri_or_cases tri_of_def split: if_splits)
next
  case (2 uop e)
  then show ?case by (cases "kleene val e") auto
next
  case (3 l es neg)
  then show ?case
    using in_list_result_tri[of "val l" "map val es" neg] by (auto split: if_splits)
qed auto

lemma condition_kleene:
  assumes "is_predicate c" "\<forall>e \<in> compared c \<union> listed c. evaluates_to d ev r s e (val e)"
    and "\<forall>e \<in> compared c \<union> listed c. \<not> is_null (val e)"
  shows "evaluate_condition d ev r c s = (Inr (kleene val c = TriTrue), s)"
  using assms
proof (induction c rule: is_predicate.induct)
  case (1 a bop b)
  show ?case
  proof (cases "bop = AND_OP \<or> bop = OR_OP")
    case True
    with 1 have sub: "evaluate_condition d ev r a s = (Inr (kleene val a = TriTrue), s)"
      "evaluate_condition d ev r b s = (Inr (kleene val b = TriTrue), s)"
      by (auto split: if_splits)
    from True 1 obtain x where x: "evaluates_to d ev r s a x"
      using predicate_as_expression[of a d ev r s val] by (auto split: if_splits)
    from True 1 obtain y where y: "evaluates_to d ev r s b y"
      using predicate_as_expression[of b d ev r s val] by (auto split: if_splits)
    from True 1 have "kleene val a \<noteq> TriUnknown" "kleene val b \<noteq> TriUnknown"
      using kleene_determined[of a val] kleene_determined[of b val] by (auto split: if_splits)
    with True sub x[THEN with_message_evaluates] y[THEN with_message_evaluates] show ?thesis
      by (cases "kleene val a"; cases "kleene val b") (auto simp: bindM_def tri_or_def)
  next
    case False
    with 1 have "evaluates_to d ev r s a (val a)" "evaluates_to d ev r s b (val b)" "is_comparison bop"
      "\<not> is_null (val a)" "\<not> is_null (val b)"
      by (auto split: if_splits)
    with False show ?thesis
      using with_message_evaluates[of d ev r s a "val a"] with_message_evaluates[of d ev r s b "val b"]
      by (cases bop) (simp_all add: bindM_def tri_of_def)
  qed
next
  case (2 uop e)
  then have "kleene val e \<noteq> TriUnknown" using kleene_determined[of e val] by auto
  with 2 show ?case by (cases "kleene val e") (simp_all add: bindM_def)
next
  case (3 l es neg)
  then have "evaluate_in_predicate d ev r (InListExpression l es neg) s =
      (Inr (in_list_result (val l) (map val es) neg), s)"
    by (intro in_predicate_value) simp_all
  with 3 show ?case
    using in_list_result_tri[of "val l" "map val es" neg]
    by (auto simp del: evaluate_in_predicate.simps split: if_splits)
qed auto

section \<open>Static types are respected\<close>

lemma yields_ret [simp]: "yields P s (Inr v, s) = P v"
  by (simp add: yields_def)

lemma yields_Inl [simp]: "yields P s (Inl ex, t) = arithmetic_error ex"
  by (simp add: yields_def)

lemma yields_mono: "yields P s out \<Longrightarrow> (\<And>v. P v \<Longrightarrow> Q v) \<Longrightarrow> yields Q s out"
  by (auto simp: yields_def split: sum.splits)

lemma yields_bindM:
  assumes "yields P s (m s)" "\<And>v t. P v \<Longrightarrow> yields Q t (k v t)"
  shows "yields Q s (bindM m k s)"
proof (cases "m s")
  case (Pair x t)
  show ?thesis
  proof (cases x)
    case (Inl ex)
    with assms(1) Pair show ?thesis by (simp add: bindM_def)
  next
    case (Inr v)
    with assms(1) Pair have "P v" "frames t = frames s" "database t = database s"
      by (simp_all add: yields_def)
    with assms(2)[of v t] Inr Pair show ?thesis
      by (auto simp: bindM_def yields_def split: sum.splits)
  qed
qed

lemma yields_with_message:
  assumes "\<And>t. yields P t (p t)" shows "yields P s (with_message m p s)"
  using assms[of "s\<lparr>error_msg := m\<rparr>"]
  by (auto simp: yields_def with_message_def split: prod.splits sum.splits)

lemma yields_fail [simp]: "yields P s (fail_with m s) = P NullV"
  by (simp add: fail_with_def set_error_def yields_def bindM_def)

lemma yields_values:
  "\<forall>e \<in> set es. \<forall>t. yields (P e) t (evaluate_expression d ev r e t) \<Longrightarrow>
   yields (list_all2 P es) s (evaluate_values d ev r es s)"
proof (induction es arbitrary: s)
  case (Cons e es)
  have "yields (P e) s (with_message None (evaluate_expression d ev r e) s)" for s
    using Cons.prems by (intro yields_with_message) simp
  with Cons show ?case
    by (auto intro!: yields_bindM)
qed simp

lemma yields_arguments:
  "\<forall>e \<in> set es. \<forall>t. yields (P e) t (evaluate_expression d ev r e t) \<Longrightarrow>
   yields (\<lambda>ovs. \<forall>vs. ovs = Some vs \<longrightarrow> list_all2 P es vs) s (evaluate_arguments d ev r es s)"
proof (induction es arbitrary: s)
  case (Cons e es)
  then have IH: "yields (\<lambda>ovs. \<forall>vs. ovs = Some vs \<longrightarrow> list_all2 P es vs) t (evaluate_arguments d ev r es t)" for t
    by simp
  have "yields (P e) t (evaluate_expression d ev r e t)" for t
    using Cons.prems by simp
  then show ?case
    by (auto intro!: yields_bindM[where P = "P e"] yields_bindM[OF IH]
        simp: bindM_def[of "readM error_msg"])
qed simp

lemma yields_same_state:
  "yields P s (out, s) = (case out of Inr v \<Rightarrow> P v | Inl ex \<Rightarrow> arithmetic_error ex)"
  by (simp add: yields_def split: sum.splits)

lemma of_type_checked_int: "case checked_int i of Inr v \<Rightarrow> of_type INT_T v | Inl ex \<Rightarrow> arithmetic_error ex"
  by (simp add: checked_int_def)

lemma arith_typed:
  assumes "of_type x v" "of_type y w" "arith_type x y = Some t"
  shows "case value_sub v w of Inr u \<Rightarrow> of_type t u | Inl ex \<Rightarrow> arithmetic_error ex"
    and "case value_mul v w of Inr u \<Rightarrow> of_type t u | Inl ex \<Rightarrow> arithmetic_error ex"
  using assms of_type_checked_int
  by (cases v; cases w; auto simp: value_sub_def value_mul_def arith_type_def split: if_splits)+

lemma add_typed:
  assumes "of_type x v" "of_type y w" "infer_binary PLUS_OP x y = Some t"
  shows "case value_add v w of Inr u \<Rightarrow> of_type t u | Inl ex \<Rightarrow> arithmetic_error ex"
  using assms of_type_checked_int
  by (cases v; cases w; auto simp: value_add_def infer_binary_def arith_type_def split: if_splits)

lemma div_typed:
  assumes "of_type x v" "of_type y w" "infer_binary DIV_OP x y = Some t"
  shows "case value_div v w of Inr u \<Rightarrow> of_type t u | Inl ex \<Rightarrow> arithmetic_error ex"
  using assms
  by (cases v; cases w; auto simp: value_div_def infer_binary_def Let_def split: if_splits)

lemma binary_typed:
  assumes "of_type x v" "of_type y w" "infer_binary bop x y = Some t"
  shows "case binary_value bop v w of Inr u \<Rightarrow> of_type t u | Inl ex \<Rightarrow> arithmetic_error ex"
proof (cases bop)
  case PLUS_OP
  with add_typed[of x v y w t] assms show ?thesis by (simp add: binary_value_def)
next
  case DIV_OP
  with div_typed[of x v y w t] assms show ?thesis by (simp add: binary_value_def)
next
  case MINUS_OP
  with arith_typed[of x v y w t] assms show ?thesis by (simp add: binary_value_def infer_binary_def)
next
  case MUL_OP
  with arith_typed[of x v y w t] assms show ?thesis by (simp add: binary_value_def infer_binary_def)
next
  case MOD_OP
  with assms show ?thesis
    by (cases v; cases w) (auto simp: binary_value_def infer_binary_def split: if_splits)
qed (use assms in \<open>simp_all add: binary_value_def infer_binary_def\<close>)

lemma unary_typed:
  assumes "of_type x v" "infer_unary uop x = Some t"
  shows "case unary_value uop v of Inr u \<Rightarrow> of_type t u | Inl ex \<Rightarrow> arithmetic_error ex"
  using assms of_type_checked_int
  by (cases v; cases uop; auto simp: unary_value_def infer_unary_def split: if_splits)

lemma of_type_NullV [simp]: "of_type t NullV"
  by simp

lemma of_type_get_type: "of_type (get_type v) v"
  by (cases v) simp_all

lemma string_to_value_typed: "string_to_value str t = Inr v \<Longrightarrow> of_type t v"
  by (auto simp: string_to_value_def Let_def bindR_eq_Inr split: if_splits data_type.splits)

lemma coalesce_typed: "list_all (of_type t) vs \<Longrightarrow> of_type t (coalesce_function vs)"
  by (induction vs) auto

lemma substring_typed: "of_type STRING_T (fst (substring_function vs))"
  by (auto simp: substring_function_def Let_def split: sql_value.splits)

lemma scalar_typed:
  assumes "list_all2 of_type ts vs" "check_arity f (length vs)" "infer_scalar f ts = Some t"
  shows "of_type t (fst (run_scalar today f vs))"
proof (cases f)
  case CoalesceFunction
  with assms have t: "list_all (\<lambda>x. x = t) ts"
    by (auto split: if_splits)
  have "list_all (of_type t) vs"
    unfolding list_all_length
  proof (intro allI impI)
    fix i assume "i < length vs"
    with assms(1) t show "of_type t (vs ! i)"
      by (auto simp: list_all2_conv_all_nth list_all_length)
  qed
  with CoalesceFunction show ?thesis by (simp add: coalesce_typed)
next
  case NullIfFunction
  with assms have "vs \<noteq> []" by (auto simp: check_arity_def)
  with assms NullIfFunction show ?thesis
    by (cases vs; cases ts) (auto simp: nullif_function_def)
qed (use assms substring_typed in
      \<open>auto simp: upper_function_def lower_function_def length_function_def\<close>)

lemma call_scalar_typed:
  assumes "list_all2 of_type ts vs" "find_function name = Some f" "check_arity f (length vs)"
    and "infer_scalar f ts = Some t"
  shows "yields (of_type t) s (call_scalar ev name vs s)"
  using scalar_typed[OF assms(1,3,4), of "clock_date ev"] assms(2,3)
  by (auto simp: call_scalar_def registry_evaluate_def set_error_def bindM_def yields_def
      split: prod.splits option.splits)

lemma resolve_in_range: "resolve_column_index ev t c = Inr i \<Longrightarrow> i < length (bindings ev)"
proof -
  assume *: "resolve_column_index ev t c = Inr i"
  let ?m = "filter (\<lambda>i. binding_matches t c (bindings ev ! i)) [0..<length (bindings ev)]"
  from * have "?m \<noteq> []" "i = ?m ! 0"
    by (auto simp: resolve_column_index_def Let_def split: if_splits)
  then have "i \<in> set ?m" by (metis length_greater_0_conv nth_mem)
  then show ?thesis by simp
qed

lemma column_typed:
  assumes "infer_column ev ts t c = Some ty" "list_all2 of_type ts (row_values r)"
  shows "yields (of_type ty) s (evaluate_column_ref ev r t c s)"
  using assms
  by (auto simp: infer_column_def evaluate_column_ref_def get_value_def get_column_count_def
      list_all2_conv_all_nth split: if_splits sum.splits option.splits)

lemma call_typed:
  assumes "infer_call name ots = Some t" "\<forall>vs. ovs = Some vs \<longrightarrow> list_all2 (\<lambda>ot v. of_type (the ot) v) ots vs"
  shows "yields (of_type t) s ((case ovs of None \<Rightarrow> ret NullV
          | Some vs \<Rightarrow> if find_function (map to_lower name) \<noteq> None then call_scalar ev (map to_lower name) vs
              else other vs) s)"
proof (cases ovs)
  case (Some vs)
  with assms(2) have vs: "list_all2 of_type (map the ots) vs" by (simp add: list.rel_map)
  from assms(1) obtain f where f: "find_function (map to_lower name) = Some f" "check_arity f (length ots)"
    "infer_scalar f (map the ots) = Some t"
    by (auto simp: infer_call_def split: if_splits option.splits)
  from list_all2_lengthD[OF vs] f(2) have "check_arity f (length vs)" by simp
  from call_scalar_typed[OF vs f(1) this f(3)] Some f(1) show ?thesis by simp
qed simp

lemma infer_type_sound:
  assumes "list_all2 of_type ts (row_values r)"
  shows "infer_type ev ts e = Some t \<Longrightarrow> yields (of_type t) s (evaluate_expression d ev r e s)"
proof (induction e arbitrary: t s)
  case (LiteralExpression v)
  then show ?case by (auto simp: of_type_get_type split: if_splits)
next
  case (BinaryOpExpression a bop b)
  then obtain x y where xy: "infer_type ev ts a = Some x" "infer_type ev ts b = Some y"
    "infer_binary bop x y = Some t"
    by (auto split: option.splits)
  show ?case
    using BinaryOpExpression.IH(1)[OF xy(1)] BinaryOpExpression.IH(2)[OF xy(2)] xy(3)
    by (auto intro!: yields_bindM binary_typed simp: yields_same_state)
next
  case (UnaryOpExpression uop e)
  then obtain x where x: "infer_type ev ts e = Some x" "infer_unary uop x = Some t"
    by (auto split: option.splits)
  show ?case using UnaryOpExpression.IH[OF x(1)] x(2)
    by (auto intro!: yields_bindM unary_typed simp: yields_same_state)
next
  case (CastExpression e ty)
  then obtain x where x: "infer_type ev ts e = Some x" "t = ty" by (auto split: if_splits)
  show ?case using CastExpression.IH[OF x(1)] x(2) string_to_value_typed
    by (auto intro!: yields_bindM split: sum.splits)
next
  case (InListExpression l es neg)
  then have t: "t = BOOLEAN_T" and some: "\<forall>e \<in> insert l (set es). infer_type ev ts e \<noteq> None"
    by (auto split: if_splits simp: image_iff) (metis option.exhaust)
  have sub: "yields (\<lambda>_. True) s (evaluate_expression d ev r e s)" if "e \<in> insert l (set es)" for e s
    using that some InListExpression.IH by (blast intro: yields_mono)
  have "yields (\<lambda>_. True) s (evaluate_values d ev r es s)" for s
    using yields_values[of es "\<lambda>_ _. True" d ev r s] sub by (auto intro: yields_mono)
  moreover have "yields (\<lambda>_. True) s (with_message None (evaluate_expression d ev r l) s)" for s
    using sub by (intro yields_with_message) simp
  ultimately show ?case
    unfolding t by (auto intro!: yields_bindM)
next
  case (FunctionCallExpression name args w)
  then have w: "w = None" and call: "infer_call name (map (infer_type ev ts) args) = Some t"
    by (auto split: if_splits)
  then have some: "\<forall>e \<in> set args. infer_type ev ts e \<noteq> None"
    and agg: "\<not> is_aggregate_text (map to_lower name)"
    by (auto simp: infer_call_def image_iff split: if_splits) (metis option.exhaust)
  have "\<forall>e \<in> set args. \<forall>u. yields (of_type (the (infer_type ev ts e))) u (evaluate_expression d ev r e u)"
    using some FunctionCallExpression.IH(1) by auto
  from yields_arguments[OF this] show ?case
    using w agg
    by (auto intro!: yields_bindM call_typed[OF call] simp: list.rel_map simp del: not_None_eq)
qed (use column_typed[OF _ assms] in \<open>simp_all\<close>)

section \<open>The frame stack\<close>

lemma keeps_frames_ret [intro!]: "keeps_frames (ret x)"
  by (simp add: keeps_frames_def)

lemma keeps_frames_throw [intro!]: "keeps_frames (throw e)"
  by (simp add: keeps_frames_def)

lemma keeps_frames_liftR [intro!]: "keeps_frames (liftR x)"
  by (simp add: keeps_frames_def)

lemma keeps_frames_readM [intro!]: "keeps_frames (readM f)"
  by (simp add: keeps_frames_def)

lemma keeps_frames_bindM [intro!]:
  assumes "keeps_frames m" "\<And>x. keeps_frames (k x)" shows "keeps_frames (bindM m k)"
  unfolding keeps_frames_def
proof (intro allI impI)
  fix s x t assume "bindM m k s = (Inr x, t)"
  then obtain y u where "m s = (Inr y, u)" "k y u = (Inr x, t)" by (auto simp: bindM_eq_Inr)
  with assms show "frames t = frames s" unfolding keeps_frames_def by metis
qed

lemma keeps_frames_with_message [intro!]:
  assumes "keeps_frames p" shows "keeps_frames (with_message m p)"
  unfolding keeps_frames_def
proof (intro allI impI)
  fix s x t assume "with_message m p s = (Inr x, t)"
  then obtain u where "p (s\<lparr>error_msg := m\<rparr>) = (Inr x, u)" "t = u\<lparr>error_msg := error_msg s\<rparr>"
    by (auto simp: with_message_def split: prod.splits)
  with assms show "frames t = frames s" unfolding keeps_frames_def by fastforce
qed

lemma keeps_frames_set_error [intro!]: "keeps_frames (set_error m)"
  by (auto simp: keeps_frames_def set_error_def)

lemma keeps_frames_fail [intro!]: "keeps_frames (fail_with m)"
  unfolding fail_with_def by (intro keeps_frames_bindM keeps_frames_set_error keeps_frames_ret)

lemma keeps_frames_in_frame [intro!]:
  assumes "keeps_frames p" shows "keeps_frames (in_frame ev r p)"
proof -
  have "frames t = frames s" if "in_frame ev r p s = (Inr x, t)" "correlation ev" for s x t
  proof -
    from that obtain u where u: "p (s\<lparr>frames := pushFrame (bindings ev) r (frames s)\<rparr>) = (Inr x, u)"
      "t = u\<lparr>frames := popFrame (frames u)\<rparr>"
      by (auto simp: in_frame_def bindM_eq_Inr)
    from assms[unfolded keeps_frames_def, rule_format, OF u(1)]
    have "frames u = pushFrame (bindings ev) r (frames s)" by simp
    with u(2) show ?thesis by (simp add: pushFrame_def popFrame_def)
  qed
  moreover have "in_frame ev r p = p" if "\<not> correlation ev"
    using that by (simp add: in_frame_def)
  ultimately show ?thesis
    using assms unfolding keeps_frames_def by (cases "correlation ev") simp_all
qed

lemma keeps_frames_column: "keeps_frames (evaluate_column_ref ev r t c)"
  by (auto simp: evaluate_column_ref_def split: option.splits sum.splits)

lemma keeps_frames_call_scalar: "keeps_frames (call_scalar ev name vs)"
  by (auto simp: call_scalar_def split: prod.splits option.splits)

lemma keeps_frames_in_subquery:
  "callbacks_keep_frames ev \<Longrightarrow> keeps_frames (in_subquery_result ev r left sub neg)"
  by (auto simp: in_subquery_result_def callbacks_keep_frames_def split: expression.splits option.splits)

lemma keeps_frames_exists:
  "callbacks_keep_frames ev \<Longrightarrow> keeps_frames (evaluate_exists_predicate ev r q neg)"
  by (auto simp: evaluate_exists_predicate_def callbacks_keep_frames_def split: option.splits)

lemma callbacks_udf [simp]: "callbacks_keep_frames (udf_evaluator ev udf vs)"
  by (simp add: callbacks_keep_frames_def udf_evaluator_def make_evaluator_def)

lemma evaluation_keeps_frames:
  fixes ev :: "('q, 's) evaluator"
  shows "callbacks_keep_frames ev \<Longrightarrow> keeps_frames (evaluate_expression d ev r e)"
    and "callbacks_keep_frames ev \<Longrightarrow> keeps_frames (evaluate_arguments d ev r es)"
    and "callbacks_keep_frames ev \<Longrightarrow> keeps_frames (evaluate_values d ev r es)"
proof (induction d ev r e and d ev r es and d ev r es
    rule: evaluate_expression_evaluate_arguments_evaluate_values.induct)
  case (2 depth ev r q)
  then show ?case
    by (auto simp: callbacks_keep_frames_def split: option.splits)
next
  case (12 depth ev r name args w)
  show ?case
  proof (cases "w \<noteq> None \<or> is_aggregate_text (map to_lower name)")
    case True
    then show ?thesis by auto
  next
    case False
    then have "keeps_frames (evaluate_arguments depth ev r args)"
      using 12 by simp
    moreover have "keeps_frames (evaluate_expression n (udf_evaluator ev udf vs) (make_row []) (fn_body udf))"
      if "find_function (map to_lower name) = None" "find_udf ev name = Some udf"
        "length vs = length (fn_params udf)" "depth = Suc n" for udf vs n
      using 12(2)[of udf vs n] that False by simp
    ultimately show ?thesis
      using False
      by (auto intro!: keeps_frames_bindM keeps_frames_call_scalar split: option.split nat.split simp del: not_None_eq)
  qed
next
  case (3 depth ev r l sub neg)
  then show ?case by (auto intro: keeps_frames_in_subquery)
next
  case (5 depth ev r q neg)
  then show ?case by (auto intro: keeps_frames_exists)
next
  case (6 depth ev r i)
  then show ?case by (auto split: option.split sum.split)
next
  case (11 depth ev r e t)
  then show ?case by (auto split: sum.split)
next
  case (15 depth ev r e es)
  then have "keeps_frames (evaluate_arguments depth ev r es)" by blast
  with 15 show ?case by (auto intro!: keeps_frames_bindM simp del: not_None_eq)
qed (auto intro: keeps_frames_column)

lemma in_predicate_keeps_frames:
  "callbacks_keep_frames ev \<Longrightarrow> keeps_frames (evaluate_in_predicate d ev r e)"
  by (cases "(d, ev, r, e)" rule: evaluate_in_predicate.cases)
    (auto intro!: keeps_frames_bindM keeps_frames_with_message evaluation_keeps_frames keeps_frames_in_subquery)

lemma condition_keeps_frames:
  "callbacks_keep_frames ev \<Longrightarrow> keeps_frames (evaluate_condition d ev r c)"
proof (induction d ev r c rule: evaluate_condition.induct)
  case (4 depth ev r a bop b)
  have op: "keeps_frames (evaluate_expression depth ev r e)" for e
    using 4(5) by (rule evaluation_keeps_frames)
  consider "bop = AND_OP" | "bop = OR_OP" | "bop \<noteq> AND_OP" "bop \<noteq> OR_OP" by blast
  then show ?case
  proof cases
    case 1
    with 4 have "keeps_frames (evaluate_condition depth ev r a)" "keeps_frames (evaluate_condition depth ev r b)"
      by blast+
    with 1 op show ?thesis by (auto intro!: keeps_frames_bindM)
  next
    case 2
    with 4 have "keeps_frames (evaluate_condition depth ev r a)" "keeps_frames (evaluate_condition depth ev r b)"
      by blast+
    with 2 op show ?thesis by (auto intro!: keeps_frames_bindM)
  next
    case 3
    with op show ?thesis by (cases bop) (auto intro!: keeps_frames_bindM)
  qed
qed (auto simp del: evaluate_in_predicate.simps intro: keeps_frames_exists in_predicate_keeps_frames)

lemma divide_by_zero: "value_div (IntV a) (IntV 0) = Inl (TypeException ''Division by zero'')"
proof -
  have zero: "d_abs (i64_to_double 0) = 0"
    by (simp add: i64_to_double_def d_of_int_def d_round_def bit_length.simps round_half_even_def
        d_with_sign_def d_abs_def)
  have eps: "d_exponent d_epsilon = 993"
    by (simp add: d_exponent_def d_epsilon_def)
  have pos: "0 < d_magnitude d_epsilon"
    unfolding d_magnitude_def eps by simp
  have sign: "\<not> d_neg d_epsilon"
    by (simp add: d_neg_def d_epsilon_def bit_numeral_word_iff)
  have null: "d_magnitude 0 = 0" "\<not> d_is_nan 0"
    by (simp_all add: d_magnitude_def d_is_nan_def d_exponent_def d_fraction_def)
  have "d_lt 0 d_epsilon"
    using pos sign null eps by (simp add: d_lt_def d_key_def d_is_nan_def)
  then show ?thesis by (simp add: value_div_def zero)
qed

lemmas sample_defs = sample_evaluator_def correlated_evaluator_def make_evaluator_def sample_state_def
  int_literal_def make_row_def

lemmas column_defs = evaluates_to_def evaluate_column_ref_def resolve_column_index_def binding_matches_def
  get_value_def get_column_count_def lookup_correlated_def

section \<open>Properties\<close>

text \<open>C11: Static types are respected. If an expression over the columns of a row has a type (literals,
  columns, arithmetic, CAST, IN lists and built-in functions) and every column holds a value of its
  type or NULL, evaluation gives a value of that type or NULL and leaves the correlation frames and
  the database alone, or throws a type error, or is the undefined integer overflow or remainder.
\<close>

theorem expression_types_respected:
  assumes "list_all2 of_type ts (row_values r)" "infer_type ev ts e = Some t"
  shows "case evaluate_expression d ev r e s of
           (Inr v, s') \<Rightarrow> of_type t v \<and> frames s' = frames s \<and> database s' = database s
         | (Inl ex, s') \<Rightarrow> arithmetic_error ex"
  using infer_type_sound[OF assms, of s d]
  by (cases "evaluate_expression d ev r e s"; cases "fst (evaluate_expression d ev r e s)")
    (auto simp: yields_def)

theorem expression_types_respected_witness:
  "case evaluate_expression 0 (sample_evaluator [''a'', ''b''])
      (make_row [IntV 3, StringV ''xyz''])
      (BinaryOpExpression (ColumnRefExpression '''' ''a'') PLUS_OP
         (FunctionCallExpression ''LENGTH'' [ColumnRefExpression ''t'' ''b''] None)) sample_state of
     (Inr v, s') \<Rightarrow> of_type INT_T v \<and> frames s' = frames sample_state \<and> database s' = database sample_state
   | (Inl ex, s') \<Rightarrow> arithmetic_error ex"
proof (rule expression_types_respected[where ts = "[INT_T, STRING_T]"])
  show "list_all2 of_type [INT_T, STRING_T] (row_values (make_row [IntV 3, StringV ''xyz'']))"
    by (simp add: make_row_def)
qed code_simp



text \<open>C14: WHERE and CHECK agree away from NULL: when no operand of such a condition is NULL, the WHERE
  evaluator and the CHECK evaluator, two separate pieces of code, return the same truth value, that of the
  condition, without touching the state.
\<close>

theorem where_check_equivalent:
  assumes "is_predicate c" "\<forall>e \<in> compared c \<union> listed c. evaluates_to d ev r s e (val e)"
    and "\<forall>e \<in> compared c \<union> listed c. \<not> is_null (val e)"
  shows "evaluate_where d ev r (Some c) s = (Inr (kleene val c = TriTrue), s) \<and>
         evaluate_check_condition d ev r (Some c) s = evaluate_where d ev r (Some c) s"
  using condition_kleene[OF assms] check_tri_kleene[OF assms(1,2)] kleene_determined[OF assms(1,3)] assms(3)
  by (cases "kleene val c") (auto simp: evaluate_check_condition_def evaluate_where_def bindM_def)

theorem where_check_equivalent_witness:
  "evaluate_check_condition 0 (sample_evaluator [''a'']) (make_row [IntV 7])
     (Some (InListExpression (IdentifierExpression ''a'') [int_literal 3, int_literal 7] True)) sample_state =
   evaluate_where 0 (sample_evaluator [''a'']) (make_row [IntV 7])
     (Some (InListExpression (IdentifierExpression ''a'') [int_literal 3, int_literal 7] True)) sample_state"
  using where_check_equivalent[of
      "InListExpression (IdentifierExpression ''a'') [int_literal 3, int_literal 7] True" 0
      "sample_evaluator [''a'']" "make_row [IntV 7]" sample_state
      "\<lambda>e. if e = IdentifierExpression ''a'' then IntV 7 else if e = int_literal 3 then IntV 3 else IntV 7"]
  by (simp add: column_defs sample_defs)

text \<open>Two places where conditions leave SQL. A WHERE condition evaluates both operands of AND as
  expressions before it looks at the connective, so \<^verbatim>\<open>a <> 0 AND 10 / a > 1\<close> throws on a row with
  \<open>a = 0\<close>, which the CHECK evaluator finds FALSE. And CHECK turns the UNKNOWN of an IN test into
  FALSE: \<^verbatim>\<open>a IN (1)\<close> rejects a NULL that its Kleene value lets pass.
\<close>

theorem condition_divergences:
  "fst (evaluate_where 0 (sample_evaluator [''a'']) (make_row [IntV 0]) (Some guarded_division) sample_state) =
     Inl (TypeException ''Division by zero'') \<and>
   fst (evaluate_check_tri 0 (sample_evaluator [''a'']) (make_row [IntV 0]) guarded_division sample_state) =
     Inr TriFalse \<and>
   fst (evaluate_check_condition 0 (sample_evaluator [''a'']) (make_row [NullV])
     (Some (InListExpression (IdentifierExpression ''a'') [int_literal 1] False)) sample_state) = Inr False \<and>
   kleene (\<lambda>e. if e = IdentifierExpression ''a'' then NullV else IntV 1)
     (InListExpression (IdentifierExpression ''a'') [int_literal 1] False) = TriUnknown"
  by (simp add: guarded_division_def column_defs sample_defs evaluate_where_def evaluate_check_condition_def
      bindM_def with_message_def binary_value_def compare_values_def divide_by_zero in_list_result_def
      match_in_list_def tri_of_def)

text \<open>The correlation stack is balanced: if the subquery callbacks leave the frames as they found them
  whenever they return, so does every evaluation of an expression or a condition that returns.
\<close>

theorem frames_balanced:
  assumes "callbacks_keep_frames ev"
    and "evaluate_expression d ev r e s = (Inr v, t)" "evaluate_condition d ev r c s = (Inr b, u)"
  shows "frames t = frames s \<and> frames u = frames s"
  using evaluation_keeps_frames(1)[OF assms(1), of d r e] condition_keeps_frames[OF assms(1), of d r c] assms(2,3)
  unfolding keeps_frames_def by blast

theorem frames_balanced_witness:
  "frames (snd (evaluate_expression 0 (correlated_evaluator [''a''] (\<lambda>q. ret (IntV 5))) (make_row [IntV 1])
     (SubqueryExpression ()) sample_state)) = frames sample_state"
proof -
  let ?ev = "correlated_evaluator [''a''] (\<lambda>q. ret (IntV 5))"
  have "callbacks_keep_frames ?ev"
    by (auto simp: callbacks_keep_frames_def sample_defs)
  moreover obtain t where t: "evaluate_expression 0 ?ev (make_row [IntV 1]) (SubqueryExpression ()) sample_state =
      (Inr (IntV 5), t)"
    by (simp add: sample_defs in_frame_def bindM_def)
  moreover have "evaluate_condition 0 ?ev (make_row [IntV 1]) (LiteralExpression NullV) sample_state =
      (Inr True, sample_state)"
    by simp
  ultimately have "frames t = frames sample_state \<and> frames sample_state = frames sample_state"
    by (rule frames_balanced)
  with t show ?thesis by simp
qed

text \<open>C38: An exception unbalances it. When a correlated scalar subquery throws, the frame pushed for it
  stays on the stack, which the database owns; a later query that names a column of that row, unknown
  to its own tables, then reads the stale value where an error is due.
\<close>

theorem exception_leaks_frame:
  assumes "correlation ev" "scalar_subquery_fn ev = Some f" "\<And>s. f q s = (Inl ex, s)"
    and "evaluate_expression d ev r (SubqueryExpression q) s = (x, t)"
    and "correlation ev'" "local_variables ev' c = None" "resolve_column_index ev' '''' c = Inl err"
    and "by_column (hd (pushFrame (bindings ev) r [])) c = Some v"
  shows "x = Inl ex \<and> frames t = pushFrame (bindings ev) r (frames s) \<and>
         evaluate_expression d ev' r' (ColumnRefExpression '''' c) t = (Inr v, t)"
proof -
  from assms(1-4) have "x = Inl ex" "t = s\<lparr>frames := pushFrame (bindings ev) r (frames s)\<rparr>"
    by (auto simp: in_frame_def bindM_def)
  with assms(5-8) show ?thesis
    by (simp add: evaluate_column_ref_def bindM_def lookup_correlated_def pushFrame_def)
qed

theorem exception_leaks_frame_witness:
  "evaluate_expression 0 (correlated_evaluator [''b''] (\<lambda>q. ret NullV)) (make_row [])
     (ColumnRefExpression '''' ''a'')
     (snd (evaluate_expression 0 (correlated_evaluator [''a''] (\<lambda>q. throw (TypeException ''Division by zero'')))
        (make_row [IntV 1]) (SubqueryExpression ()) sample_state)) =
   (Inr (IntV 1),
    snd (evaluate_expression 0 (correlated_evaluator [''a''] (\<lambda>q. throw (TypeException ''Division by zero'')))
        (make_row [IntV 1]) (SubqueryExpression ()) sample_state))"
  using exception_leaks_frame[of "correlated_evaluator [''a''] (\<lambda>q. throw (TypeException ''Division by zero''))"
      "\<lambda>q. throw (TypeException ''Division by zero'')" "()" "TypeException ''Division by zero''" 0
      "make_row [IntV 1]" sample_state _ _ "correlated_evaluator [''b''] (\<lambda>q. ret NullV)" "''a''"
      _ "IntV 1" "make_row []", OF _ _ _ prod.collapse[symmetric]]
  by (simp add: column_defs sample_defs pushFrame_def add_binding_def)

end
