(* ===== verification/Operators.thy ===== *)
theory Operators
  imports Sorting Btree Evaluator
begin

text \<open>
  The relational operators on query results: row keys and their hashes (\<^verbatim>\<open>src/executor/row_key.cc\<close>), DISTINCT,
  ORDER BY and LIMIT (\<^verbatim>\<open>distinct_operator.cc\<close>, \<^verbatim>\<open>sort_operator.cc\<close>, \<^verbatim>\<open>limit_offset_operator.cc\<close>), the set operations
  (\<^verbatim>\<open>set_operation_operator.cc\<close>) and the hash join (\<^verbatim>\<open>hash_join_executor.cc\<close>), which \<open>Joins\<close> compares with
  the nested loops.
\<close>

section \<open>Query results\<close>

type_synonym tuple = "sql_value list"

record query_result =
  success :: bool
  message :: string
  column_names :: "string list"
  result_rows :: "tuple list"
  affected_rows :: int

definition empty_result :: query_result where
  "empty_result = \<lparr>success = False, message = [], column_names = [], result_rows = [], affected_rows = 0\<rparr>"

definition success_result :: "string \<Rightarrow> query_result" where
  "success_result msg = empty_result\<lparr>success := True, message := msg\<rparr>"

definition error_result :: "string \<Rightarrow> query_result" where
  "error_result msg = empty_result\<lparr>success := False, message := msg\<rparr>"

section \<open>Rows as keys\<close>

definition isRowEqual :: "tuple \<Rightarrow> tuple \<Rightarrow> bool" where
  "isRowEqual left right = list_all2 value_eq left right"

fun isRowLess :: "tuple \<Rightarrow> tuple \<Rightarrow> bool" where
  "isRowLess (x # xs) (y # ys) = (if \<not> value_eq x y then value_less x y else isRowLess xs ys)"
| "isRowLess xs ys = (length xs < length ys)"

text \<open>The hash functions of the standard library, which it leaves to the implementation.\<close>

record std_hash =
  hash_int :: "i64 \<Rightarrow> u64"
  hash_double :: "double \<Rightarrow> u64"
  hash_string :: "string \<Rightarrow> u64"
  hash_bool :: "bool \<Rightarrow> u64"

fun hashValue :: "std_hash \<Rightarrow> sql_value \<Rightarrow> u64" where
  "hashValue h NullV = 0"
| "hashValue h (IntV i) = hash_int h i"
| "hashValue h (FloatV d) = hash_double h d"
| "hashValue h (StringV s) = hash_string h s"
| "hashValue h (BoolV b) = hash_bool h b"

definition mixHash :: "u64 \<Rightarrow> u64 \<Rightarrow> u64" where
  "mixHash seed v = seed XOR (v + 0x9e3779b97f4a7c15 + push_bit 6 seed + drop_bit 2 seed)"

definition hash_row :: "std_hash \<Rightarrow> tuple \<Rightarrow> u64" where
  "hash_row h key = foldl (\<lambda>seed v. mixHash seed (hashValue h v)) 0 key"

text \<open>Lookup in an \<^verbatim>\<open>unordered_set<RowKey>\<close>: an element with the same hash that compares equal.\<close>

definition set_contains :: "std_hash \<Rightarrow> tuple list \<Rightarrow> tuple \<Rightarrow> bool" where
  "set_contains h seen key = list_ex (\<lambda>k. hash_row h k = hash_row h key \<and> isRowEqual k key) seen"

section \<open>DISTINCT, ORDER BY, LIMIT and OFFSET\<close>

definition distinct_apply :: "select_statement \<Rightarrow> query_result \<Rightarrow> query_result result" where
  "distinct_apply stmt input =
     (if \<not> success input \<or> \<not> is_distinct stmt then Inr input
      else bindR (stable_sort (\<lambda>a b. Inr (isRowLess a b)) (result_rows input)) (\<lambda>sorted.
        let rows = unique_by isRowEqual sorted
        in Inr (input\<lparr>result_rows := rows, affected_rows := int (length rows)\<rparr>)))"

definition evaluator_for_result_columns :: "query_result \<Rightarrow> (select_statement, unit) evaluator" where
  "evaluator_for_result_columns res =
     make_evaluator [] (map (\<lambda>n. \<lparr>bind_alias = [], physical_table = [], column_name = n\<rparr>) (column_names res))"

text \<open>\<^verbatim>\<open>evaluate_expression(row, expr, nullptr)\<close> of an evaluator without subqueries.\<close>

definition result_value ::
    "(select_statement, unit) evaluator \<Rightarrow> tuple \<Rightarrow> select_statement expression \<Rightarrow> sql_value result" where
  "result_value ev r e =
     fst (evaluate_expression 0 ev (make_row r) e \<lparr>frames = [], error_msg = None, database = ()\<rparr>)"

definition compare_order_values :: "sql_value \<Rightarrow> sql_value \<Rightarrow> bool \<Rightarrow> int" where
  "compare_order_values a b ascending =
     (if is_null a \<and> is_null b then 0
      else if is_null a then 1
      else if is_null b then -1
      else if value_eq a b then 0
      else if ascending then (if value_less a b then -1 else 1)
      else (if value_gt a b then -1 else 1))"

fun compare_expression_list ::
    "(tuple \<Rightarrow> 'e \<Rightarrow> sql_value result) \<Rightarrow> tuple \<Rightarrow> tuple \<Rightarrow> ('e \<times> bool) list \<Rightarrow> int result" where
  "compare_expression_list val ra rb [] = Inr 0"
| "compare_expression_list val ra rb ((e, ascending) # es) =
     bindR (val ra e) (\<lambda>va. bindR (val rb e) (\<lambda>vb.
     let cmp = compare_order_values va vb ascending
     in if cmp \<noteq> 0 then Inr cmp else compare_expression_list val ra rb es))"

definition sort_apply :: "select_statement \<Rightarrow> query_result \<Rightarrow> query_result result" where
  "sort_apply stmt input =
     (if \<not> success input \<or> order_by_columns stmt = [] then Inr input
      else let val = result_value (evaluator_for_result_columns input)
        in bindR (stable_sort
             (\<lambda>ra rb. bindR (compare_expression_list val ra rb (order_by_columns stmt)) (\<lambda>cmp. Inr (cmp < 0)))
             (result_rows input)) (\<lambda>rows. Inr (input\<lparr>result_rows := rows\<rparr>)))"

definition limit_offset_apply :: "select_statement \<Rightarrow> query_result \<Rightarrow> query_result" where
  "limit_offset_apply stmt input =
     (if \<not> success input then input
      else let offset = get_offset stmt; limit = get_limit stmt in
        if offset \<le> 0 \<and> limit < 0 then input
        else let rows0 = result_rows input;
                 rows1 = (if 0 < offset
                          then if int (length rows0) \<le> offset then [] else drop (nat offset) rows0
                          else rows0);
                 rows2 = (if limit = 0 then []
                          else if 0 < limit \<and> nat limit < length rows1 then take (nat limit) rows1
                          else rows1)
          in input\<lparr>result_rows := rows2, affected_rows := int (length rows2)\<rparr>)"

section \<open>Set operations\<close>

datatype set_operation_kind = UnionK | IntersectK | ExceptK

definition makeArityError :: "nat \<Rightarrow> nat \<Rightarrow> query_result" where
  "makeArityError l r =
     error_result (''Set operation column count mismatch: left has '' @ int_to_text (int l) @
       '', right has '' @ int_to_text (int r))"

definition makeTypeError :: "nat \<Rightarrow> data_type \<Rightarrow> data_type \<Rightarrow> query_result" where
  "makeTypeError i l r =
     error_result (''Set operation type mismatch at column '' @ int_to_text (int i) @ '': '' @
       data_type_to_string l @ '' vs '' @ data_type_to_string r)"

text \<open>The first rows are compared up to the width of the left one; a shorter right one is overrun.\<close>

fun type_mismatch :: "nat \<Rightarrow> tuple \<Rightarrow> tuple \<Rightarrow> query_result option result" where
  "type_mismatch i [] right = Inr None"
| "type_mismatch i (x # xs) [] = (if is_null x then type_mismatch (Suc i) xs [] else Inl UndefinedBehaviour)"
| "type_mismatch i (x # xs) (y # ys) =
     (if is_null x \<or> is_null y then type_mismatch (Suc i) xs ys
      else if get_type x \<noteq> get_type y then Inr (Some (makeTypeError i (get_type x) (get_type y)))
      else type_mismatch (Suc i) xs ys)"

definition validateColumnTypes :: "query_result \<Rightarrow> query_result \<Rightarrow> query_result option result" where
  "validateColumnTypes left right =
     (case (result_rows left, result_rows right) of
        (l # _, r # _) \<Rightarrow> type_mismatch 0 l r
      | _ \<Rightarrow> Inr None)"

definition buildSuccessResult :: "query_result \<Rightarrow> tuple list \<Rightarrow> query_result" where
  "buildSuccessResult left rows =
     (success_result ''OK'')\<lparr>column_names := column_names left, result_rows := rows,
        affected_rows := int (length rows)\<rparr>"

definition executeUnionAll :: "query_result \<Rightarrow> query_result \<Rightarrow> query_result" where
  "executeUnionAll left right = buildSuccessResult left (result_rows left @ result_rows right)"

text \<open>\<open>seen\<close> is the set of keys, newest first, \<open>rows\<close> the output so far.\<close>

fun append_unique :: "std_hash \<Rightarrow> tuple list \<times> tuple list \<Rightarrow> tuple list \<Rightarrow> tuple list \<times> tuple list" where
  "append_unique h acc [] = acc"
| "append_unique h (seen, rows) (r # rs) =
     (if set_contains h seen r then append_unique h (seen, rows) rs
      else append_unique h (r # seen, rows @ [r]) rs)"

definition executeUnionDistinct :: "std_hash \<Rightarrow> query_result \<Rightarrow> query_result \<Rightarrow> query_result" where
  "executeUnionDistinct h left right =
     buildSuccessResult left
       (snd (append_unique h (append_unique h ([], []) (result_rows left)) (result_rows right)))"

definition executeIntersect :: "std_hash \<Rightarrow> query_result \<Rightarrow> query_result \<Rightarrow> query_result" where
  "executeIntersect h left right =
     (let rightKeys = fst (append_unique h ([], []) (result_rows right)) in
      buildSuccessResult left
        (snd (append_unique h ([], []) (filter (set_contains h rightKeys) (result_rows left)))))"

definition executeExcept :: "std_hash \<Rightarrow> query_result \<Rightarrow> query_result \<Rightarrow> query_result" where
  "executeExcept h left right =
     (let rightKeys = fst (append_unique h ([], []) (result_rows right)) in
      buildSuccessResult left
        (snd (append_unique h ([], []) (filter (\<lambda>r. \<not> set_contains h rightKeys r) (result_rows left)))))"

definition set_operation_execute ::
    "std_hash \<Rightarrow> query_result \<Rightarrow> query_result \<Rightarrow> set_operation_kind \<Rightarrow> bool \<Rightarrow> query_result result" where
  "set_operation_execute h left right kind isAll =
     (if \<not> success left then Inr left
      else if \<not> success right then Inr right
      else if length (column_names left) \<noteq> length (column_names right)
      then Inr (makeArityError (length (column_names left)) (length (column_names right)))
      else bindR (validateColumnTypes left right) (\<lambda>err.
        case err of
          Some e \<Rightarrow> Inr e
        | None \<Rightarrow> Inr (case kind of
            UnionK \<Rightarrow> if isAll then executeUnionAll left right else executeUnionDistinct h left right
          | IntersectK \<Rightarrow> executeIntersect h left right
          | ExceptK \<Rightarrow> executeExcept h left right)))"

section \<open>Hash join\<close>

text \<open>
  The multimap is the list of its entries in insertion order. \<^verbatim>\<open>equal_range\<close> gives the entries
  whose key has the hash of the argument and compares equal to it; their order is the
  container's, the parameter \<open>arrange\<close>.
\<close>

definition buildHashTable :: "tuple list \<Rightarrow> nat \<Rightarrow> (sql_value \<times> tuple) list" where
  "buildHashTable rows key_index =
     map (\<lambda>r. (r ! key_index, r)) (filter (\<lambda>r. \<not> length r \<le> key_index \<and> \<not> is_null (r ! key_index)) rows)"

definition equal_range ::
    "std_hash \<Rightarrow> (tuple list \<Rightarrow> tuple list) \<Rightarrow> (sql_value \<times> tuple) list \<Rightarrow> sql_value \<Rightarrow> tuple list" where
  "equal_range h arrange table key =
     arrange (map snd (filter (\<lambda>(k, r). hashValue h k = hashValue h key \<and> value_eq k key) table))"

definition probeAndEmit ::
    "std_hash \<Rightarrow> (tuple list \<Rightarrow> tuple list) \<Rightarrow> (sql_value \<times> tuple) list \<Rightarrow> tuple list \<Rightarrow> nat \<Rightarrow> bool \<Rightarrow> tuple list" where
  "probeAndEmit h arrange table probe_rows key_index probe_is_left =
     concat (map (\<lambda>p.
       if length p \<le> key_index \<or> is_null (p ! key_index) then []
       else map (\<lambda>b. if probe_is_left then p @ b else b @ p)
         (equal_range h arrange table (p ! key_index))) probe_rows)"

definition executeInnerEqui ::
    "std_hash \<Rightarrow> (tuple list \<Rightarrow> tuple list) \<Rightarrow> tuple list \<Rightarrow> tuple list \<Rightarrow> nat \<Rightarrow> nat \<Rightarrow> bool \<Rightarrow> tuple list" where
  "executeInnerEqui h arrange left_rows right_rows left_key right_key build_on_left =
     (if build_on_left
      then probeAndEmit h arrange (buildHashTable left_rows left_key) right_rows right_key False
      else probeAndEmit h arrange (buildHashTable right_rows right_key) left_rows left_key True)"

section \<open>Reference definitions\<close>

text \<open>The pairs of a left and a right row whose keys are not NULL and compare equal.\<close>

definition join_match :: "nat \<Rightarrow> nat \<Rightarrow> tuple \<Rightarrow> tuple \<Rightarrow> bool" where
  "join_match i j l r =
     (i < length l \<and> j < length r \<and> \<not> is_null (l ! i) \<and> \<not> is_null (r ! j) \<and> value_eq (l ! i) (r ! j))"

definition matching_pairs :: "tuple list \<Rightarrow> tuple list \<Rightarrow> nat \<Rightarrow> nat \<Rightarrow> tuple list" where
  "matching_pairs left_rows right_rows i j =
     concat (map (\<lambda>l. map (\<lambda>r. l @ r) (filter (join_match i j l) right_rows)) left_rows)"

definition key_typed :: "data_type \<Rightarrow> nat \<Rightarrow> tuple list \<Rightarrow> bool" where
  "key_typed t i rows = (\<forall>r \<in> set rows. i < length r \<longrightarrow> exact_of t (r ! i))"

text \<open>Lexicographic comparison under one order per position.\<close>

fun lex_less :: "('p \<Rightarrow> 'v \<Rightarrow> 'v \<Rightarrow> bool) \<Rightarrow> 'p list \<Rightarrow> 'v list \<Rightarrow> 'v list \<Rightarrow> bool" where
  "lex_less R (p # ps) (x # xs) (y # ys) = (R p x y \<or> x = y \<and> lex_less R ps xs ys)"
| "lex_less R _ _ _ = False"

text \<open>NULL last in both directions, other values by their own order.\<close>

definition order_value_less :: "bool \<Rightarrow> sql_value \<Rightarrow> sql_value \<Rightarrow> bool" where
  "order_value_less ascending x y =
     (\<not> is_null x \<and> (is_null y \<or> (if ascending then value_less x y else value_less y x)))"

text \<open>The order of ORDER BY on the lists of key values; a position has a type and a direction.\<close>

definition order_less :: "(data_type \<times> bool) list \<Rightarrow> tuple \<Rightarrow> tuple \<Rightarrow> bool" where
  "order_less ds = lex_less (\<lambda>d. order_value_less (snd d)) ds"

definition order_dom :: "(data_type \<times> bool) list \<Rightarrow> tuple \<Rightarrow> bool" where
  "order_dom ds k = list_all2 (\<lambda>d. exact_of (fst d)) ds k"

text \<open>
  \<open>keyed val order ds key rows\<close>: on every row of \<open>rows\<close> the ORDER BY expressions evaluate to the
  values of \<open>key\<close>, which have the types of \<open>ds\<close> and none of which is a double.
\<close>

definition keyed ::
    "(tuple \<Rightarrow> 'e \<Rightarrow> sql_value result) \<Rightarrow> ('e \<times> bool) list \<Rightarrow> (data_type \<times> bool) list \<Rightarrow> (tuple \<Rightarrow> tuple) \<Rightarrow> tuple \<Rightarrow> bool" where
  "keyed val order ds key r \<longleftrightarrow>
     map snd ds = map snd order \<and> order_dom ds (key r) \<and>
     list_all2 (\<lambda>e v. val r (fst e) = Inr v) order (key r)"

section \<open>The order of rows\<close>

lemma row_less_index: "index_dom ts a \<Longrightarrow> index_dom ts b \<Longrightarrow> isRowLess a b = index_less a b"
proof (induction ts arbitrary: a b)
  case (Cons t ts)
  obtain x a' where a: "a = x # a'" "exact_of t x" "index_dom ts a'" by (rule index_dom_ConsE [OF Cons.prems(1)])
  obtain y b' where b: "b = y # b'" "exact_of t y" "index_dom ts b'" by (rule index_dom_ConsE [OF Cons.prems(2)])
  show ?case
    using Cons.IH[OF a(3) b(3)] value_eq_exact[OF a(2) b(2)] value_order.less_irrefl[OF a(2)]
    unfolding a(1) b(1) index_less_Cons[OF a(2) b(2)] by auto
qed simp

lemma row_eq_index: "isRowEqual a b = index_eq a b"
  by (simp add: isRowEqual_def index_eq_def)

interpretation row_order: key_order "index_dom ts" isRowLess isRowEqual for ts
proof
  show "index_dom ts a \<Longrightarrow> \<not> isRowLess a a" for a
    by (simp add: row_less_index index_less_irrefl)
  show "index_dom ts a \<Longrightarrow> index_dom ts b \<Longrightarrow> index_dom ts c \<Longrightarrow> isRowLess a b \<Longrightarrow> isRowLess b c \<Longrightarrow> isRowLess a c"
    for a b c
    using index_less_trans[of ts a b c] by (simp add: row_less_index)
  show "index_dom ts a \<Longrightarrow> index_dom ts b \<Longrightarrow> isRowLess a b \<or> a = b \<or> isRowLess b a" for a b
    using index_less_total[of ts a b] by (simp add: row_less_index)
  show "index_dom ts a \<Longrightarrow> index_dom ts b \<Longrightarrow> isRowEqual a b = (a = b)" for a b
    using index_eq_iff[of ts a b] by (simp add: row_eq_index)
qed

section \<open>Set operations\<close>

lemma set_contains_iff:
  assumes "\<forall>k \<in> set seen. index_dom ts k" "index_dom ts r"
  shows "set_contains h seen r = (r \<in> set seen)"
  using assms row_order.eq_iff[of ts _ r] by (auto simp: set_contains_def list_ex_iff)

lemma append_unique_spec:
  assumes "\<forall>r \<in> set rs. index_dom ts r" "\<forall>r \<in> set seen. index_dom ts r"
    and "set seen = set rows" "distinct rows"
  shows "case append_unique h (seen, rows) rs of (seen', rows') \<Rightarrow>
     set seen' = set rows' \<and> set rows' = set rows \<union> set rs \<and> distinct rows' \<and> (\<exists>zs. rows' = rows @ zs)"
  using assms
proof (induction rs arbitrary: seen rows)
  case (Cons r rs)
  have m: "set_contains h seen r = (r \<in> set seen)"
    using set_contains_iff Cons.prems by simp
  show ?case
  proof (cases "r \<in> set seen")
    case True
    with m Cons.IH[of seen rows] Cons.prems show ?thesis by auto
  next
    case False
    with m Cons.IH[of "r # seen" "rows @ [r]"] Cons.prems show ?thesis by auto
  qed
qed auto

lemma append_unique_fresh:
  assumes "\<forall>r \<in> set rs. index_dom ts r"
  obtains seen rows where "append_unique h ([], []) rs = (seen, rows)" "set seen = set rs"
    "set rows = set rs" "distinct rows"
  using append_unique_spec[OF assms, of "[]" "[]" h] by (cases "append_unique h ([], []) rs") auto

lemma union_rows:
  assumes "\<forall>r \<in> set (result_rows a). index_dom ts r" "\<forall>r \<in> set (result_rows b). index_dom ts r"
  shows "distinct (result_rows (executeUnionDistinct h a b)) \<and>
    set (result_rows (executeUnionDistinct h a b)) = set (result_rows a) \<union> set (result_rows b)"
proof -
  obtain seen rows where f: "append_unique h ([], []) (result_rows a) = (seen, rows)"
    "set seen = set (result_rows a)" "set rows = set (result_rows a)" "distinct rows"
    using append_unique_fresh[OF assms(1)] by blast
  with append_unique_spec[OF assms(2), of seen rows h] assms(1) show ?thesis
    by (auto simp: executeUnionDistinct_def buildSuccessResult_def split: prod.splits)
qed

lemma unique_of_filter:
  assumes "\<forall>r \<in> set rows. index_dom ts r"
  shows "distinct (snd (append_unique h ([], []) (filter P rows)))"
    and "set (snd (append_unique h ([], []) (filter P rows))) = {r \<in> set rows. P r}"
proof -
  have d: "\<forall>r \<in> set (filter P rows). index_dom ts r" using assms by simp
  obtain seen out where "append_unique h ([], []) (filter P rows) = (seen, out)"
    "set out = set (filter P rows)" "distinct out"
    by (rule append_unique_fresh[OF d])
  then show "distinct (snd (append_unique h ([], []) (filter P rows)))"
    and "set (snd (append_unique h ([], []) (filter P rows))) = {r \<in> set rows. P r}" by simp_all
qed

lemma right_keys:
  assumes "\<forall>r \<in> set rows. index_dom ts r" "index_dom ts r"
  shows "set_contains h (fst (append_unique h ([], []) rows)) r = (r \<in> set rows)"
proof -
  obtain keys out where k: "append_unique h ([], []) rows = (keys, out)" "set keys = set rows"
    by (rule append_unique_fresh[OF assms(1)])
  with set_contains_iff[of keys ts r h] assms show ?thesis by simp
qed

lemma filtered_rows:
  assumes "\<forall>r \<in> set (result_rows a). index_dom ts r" "\<forall>r \<in> set (result_rows b). index_dom ts r"
  shows "distinct (result_rows (executeIntersect h a b)) \<and>
      set (result_rows (executeIntersect h a b)) = set (result_rows a) \<inter> set (result_rows b)"
    and "distinct (result_rows (executeExcept h a b)) \<and>
      set (result_rows (executeExcept h a b)) = set (result_rows a) - set (result_rows b)"
  using unique_of_filter[OF assms(1)] right_keys[OF assms(2)] assms(1)
  by (auto simp: executeIntersect_def executeExcept_def buildSuccessResult_def Let_def)

lemma no_type_mismatch:
  "index_dom ts l \<Longrightarrow> index_dom ts r \<Longrightarrow> type_mismatch i l r = Inr None"
proof (induction ts arbitrary: l r i)
  case (Cons t ts)
  obtain x a where a: "l = x # a" "exact_of t x" "index_dom ts a" by (rule index_dom_ConsE [OF Cons.prems(1)])
  obtain y b where b: "r = y # b" "exact_of t y" "index_dom ts b" by (rule index_dom_ConsE [OF Cons.prems(2)])
  have "is_null x \<or> is_null y \<or> get_type x = get_type y"
    using a(2) b(2) by (cases x; cases y) (auto simp: exact_of_def)
  with Cons a b show ?case by auto
qed simp

section \<open>Hash join\<close>

lemma sum_list_swap:
  fixes f :: "'a \<Rightarrow> 'b \<Rightarrow> 'c::comm_monoid_add"
  shows "sum_list (map (\<lambda>x. sum_list (map (f x) ys)) xs) = sum_list (map (\<lambda>y. sum_list (map (\<lambda>x. f x y) xs)) ys)"
  by (induction xs) (simp_all add: sum_list_addf)

lemma mset_concat_map: "mset (concat (map f xs)) = sum_list (map (\<lambda>x. mset (f x)) xs)"
  by (induction xs) simp_all

lemma mset_filter_map: "mset (map f (filter P xs)) = sum_list (map (\<lambda>x. if P x then {#f x#} else {#}) xs)"
  by (induction xs) simp_all

lemma equal_range_build:
  assumes "key_typed t i rows" "exact_of t key" "\<And>xs. mset (arrange xs) = mset xs"
  shows "mset (equal_range h arrange (buildHashTable rows i) key) =
    mset (filter (\<lambda>r. i < length r \<and> \<not> is_null (r ! i) \<and> value_eq (r ! i) key) rows)"
proof -
  have "value_eq (r ! i) key \<Longrightarrow> hashValue h (r ! i) = hashValue h key" if "r \<in> set rows" "i < length r" for r
    using that assms(1,2) value_eq_exact[of t "r ! i" key] by (auto simp: key_typed_def)
  then have "map snd (filter (\<lambda>(k, r). hashValue h k = hashValue h key \<and> value_eq k key) (buildHashTable rows i)) =
    filter (\<lambda>r. i < length r \<and> \<not> is_null (r ! i) \<and> value_eq (r ! i) key) rows"
    by (auto simp: buildHashTable_def filter_map o_def not_le cong: conj_cong intro!: filter_cong)
  with assms(3) show ?thesis by (simp add: equal_range_def)
qed

lemma mset_map_cong: "mset xs = mset ys \<Longrightarrow> mset (map f xs) = mset (map f ys)"
  by (metis mset_map)

lemma probe_pairs:
  assumes "key_typed t i build" "key_typed t j probe" "\<And>xs. mset (arrange xs) = mset xs"
  shows "mset (probeAndEmit h arrange (buildHashTable build i) probe j probe_is_left) =
    sum_list (map (\<lambda>p. sum_list (map (\<lambda>b.
      if j < length p \<and> i < length b \<and> \<not> is_null (p ! j) \<and> \<not> is_null (b ! i) \<and> value_eq (b ! i) (p ! j)
      then {#if probe_is_left then p @ b else b @ p#} else {#}) build)) probe)"
proof -
  have "mset (if length p \<le> j \<or> is_null (p ! j) then []
      else map (\<lambda>b. if probe_is_left then p @ b else b @ p)
        (equal_range h arrange (buildHashTable build i) (p ! j))) =
    sum_list (map (\<lambda>b.
      if j < length p \<and> i < length b \<and> \<not> is_null (p ! j) \<and> \<not> is_null (b ! i) \<and> value_eq (b ! i) (p ! j)
      then {#if probe_is_left then p @ b else b @ p#} else {#}) build)" if "p \<in> set probe" for p
  proof (cases "length p \<le> j \<or> is_null (p ! j)")
    case True
    then show ?thesis by (auto simp: sum_list_0)
  next
    case False
    with that assms(2) have "exact_of t (p ! j)" by (auto simp: key_typed_def)
    from mset_map_cong[OF equal_range_build[OF assms(1) this assms(3)],
        of "\<lambda>b. if probe_is_left then p @ b else b @ p"] False
    show ?thesis by (simp add: mset_filter_map not_le del: mset_map mset_filter)
  qed
  then show ?thesis
    by (simp add: probeAndEmit_def mset_concat_map cong: map_cong)
qed

lemma value_eq_sym: "exact_of t a \<Longrightarrow> exact_of t b \<Longrightarrow> value_eq a b = value_eq b a"
  using value_eq_exact by metis

lemma hash_join_mset:
  assumes "key_typed t i left_rows" "key_typed t j right_rows" "\<And>xs. mset (arrange xs) = mset xs"
  shows "mset (executeInnerEqui h arrange left_rows right_rows i j build_on_left) =
    mset (matching_pairs left_rows right_rows i j)"
proof -
  let ?pair = "\<lambda>l r. if join_match i j l r then {#l @ r#} else {#}"
  have nested: "mset (matching_pairs left_rows right_rows i j) =
    sum_list (map (\<lambda>l. sum_list (map (?pair l) right_rows)) left_rows)"
    by (simp add: matching_pairs_def mset_concat_map mset_filter_map del: mset_map mset_filter)
  have sym: "value_eq (r ! j) (l ! i) = value_eq (l ! i) (r ! j)"
    if "l \<in> set left_rows" "r \<in> set right_rows" "i < length l" "j < length r" for l r
    using that assms(1,2) value_eq_sym[of t "r ! j" "l ! i"] by (simp add: key_typed_def)
  have right: "mset (executeInnerEqui h arrange left_rows right_rows i j False) =
    sum_list (map (\<lambda>l. sum_list (map (?pair l) right_rows)) left_rows)"
    unfolding executeInnerEqui_def if_False probe_pairs[OF assms(2,1,3)]
    using sym by (auto intro!: arg_cong[where f = sum_list] map_cong simp: join_match_def)
  have left: "mset (executeInnerEqui h arrange left_rows right_rows i j True) =
    sum_list (map (\<lambda>r. sum_list (map (\<lambda>l. ?pair l r) left_rows)) right_rows)"
    unfolding executeInnerEqui_def if_True probe_pairs[OF assms]
    by (auto intro!: arg_cong[where f = sum_list] map_cong simp: join_match_def)
  show ?thesis
    by (cases build_on_left) (simp_all add: nested right left sum_list_swap[of ?pair])
qed

section \<open>ORDER BY\<close>

lemma compare_order_values_less:
  assumes "exact_of t a" "exact_of t b"
  shows "compare_order_values a b asc < 0 \<longleftrightarrow> order_value_less asc a b"
proof -
  have "value_eq a b = (a = b)" "\<not> value_less a a"
    using assms value_eq_exact value_order.less_irrefl by blast+
  moreover have "value_gt a b = value_less b a"
    using assms value_order.not_less_iff[of t b a] value_eq_exact[of t a b] value_order.less_asym[of t a b]
      value_order.less_total[of t a b]
    by (auto simp: value_gt_def value_le_def)
  ultimately show ?thesis
    by (cases "is_null a"; cases "is_null b") (auto simp: order_value_less_def compare_order_values_def)
qed

lemma null_unique: "is_null a \<Longrightarrow> is_null b \<Longrightarrow> a = b"
  by (cases a; cases b) simp_all

interpretation order_value: key_order "exact_of t" "order_value_less asc" value_eq for t asc
proof
  show "exact_of t a \<Longrightarrow> \<not> order_value_less asc a a" for a
    using value_order.less_irrefl[of t a] by (simp add: order_value_less_def)
  show "exact_of t a \<Longrightarrow> exact_of t b \<Longrightarrow> order_value_less asc a b \<or> a = b \<or> order_value_less asc b a" for a b
    using value_order.less_total[of t a b] null_unique[of a b] by (auto simp: order_value_less_def)
  show "exact_of t a \<Longrightarrow> exact_of t b \<Longrightarrow> exact_of t c \<Longrightarrow> order_value_less asc a b \<Longrightarrow> order_value_less asc b c \<Longrightarrow>
    order_value_less asc a c" for a b c
    using value_order.less_trans[of t a b c] value_order.less_trans[of t c b a]
    by (auto simp: order_value_less_def split: if_splits)
qed (rule value_eq_exact)

lemma lex_key_order:
  assumes "\<And>p. key_order (D p) (R p) (E p)"
  shows "key_order (list_all2 D ps) (lex_less R ps) (=)"
proof
  show "list_all2 D ps a \<Longrightarrow> \<not> lex_less R ps a a" for a
  proof (induction ps arbitrary: a)
    case (Cons p ps)
    then obtain x xs where "a = x # xs" "D p x" "list_all2 D ps xs" by (auto simp: list_all2_Cons1)
    with Cons.IH[of xs] key_order.less_irrefl[OF assms, of p x] show ?case by simp
  qed simp
  show "list_all2 D ps a \<Longrightarrow> list_all2 D ps b \<Longrightarrow> lex_less R ps a b \<or> a = b \<or> lex_less R ps b a" for a b
  proof (induction ps arbitrary: a b)
    case (Cons p ps)
    then obtain x xs y ys where "a = x # xs" "b = y # ys" "D p x" "D p y" "list_all2 D ps xs" "list_all2 D ps ys"
      by (auto simp: list_all2_Cons1)
    with Cons.IH[of xs ys] key_order.less_total[OF assms, of p x y] show ?case by simp blast
  qed simp
  show "list_all2 D ps a \<Longrightarrow> list_all2 D ps b \<Longrightarrow> list_all2 D ps c \<Longrightarrow> lex_less R ps a b \<Longrightarrow> lex_less R ps b c \<Longrightarrow>
    lex_less R ps a c" for a b c
  proof (induction ps arbitrary: a b c)
    case (Cons p ps)
    obtain x xs where a: "a = x # xs" "D p x" "list_all2 D ps xs" using Cons.prems(1) by (auto simp: list_all2_Cons1)
    obtain y ys where b: "b = y # ys" "D p y" "list_all2 D ps ys" using Cons.prems(2) by (auto simp: list_all2_Cons1)
    obtain z zs where c: "c = z # zs" "D p z" "list_all2 D ps zs" using Cons.prems(3) by (auto simp: list_all2_Cons1)
    have "R p x y \<or> x = y \<and> lex_less R ps xs ys" "R p y z \<or> y = z \<and> lex_less R ps ys zs"
      using Cons.prems(4,5) by (simp_all add: a(1) b(1) c(1))
    with Cons.IH[OF a(3) b(3) c(3)] key_order.less_trans[OF assms a(2) b(2) c(2)]
    have "R p x z \<or> x = z \<and> lex_less R ps xs zs"
      by blast
    then show ?case by (simp add: a(1) c(1))
  qed simp
qed simp

interpretation order_by: key_order "order_dom ds" "order_less ds" "(=)" for ds
  unfolding order_dom_def order_less_def
  by (rule lex_key_order[where E = "\<lambda>_. value_eq"]) (rule order_value.key_order_axioms)

lemma compare_expression_list_keys:
  assumes "list_all2 (\<lambda>e v. val ra (fst e) = Inr v) order ka" "list_all2 (\<lambda>e v. val rb (fst e) = Inr v) order kb"
    and "order_dom ds ka" "order_dom ds kb" "map snd ds = map snd order"
  shows "\<exists>c. compare_expression_list val ra rb order = Inr c \<and> (c < 0) = order_less ds ka kb"
  using assms
proof (induction order arbitrary: ka kb ds)
  case (Cons o' order)
  obtain e asc where o: "o' = (e, asc)" by fastforce
  from Cons.prems obtain va ka' vb kb' t ds' where k: "ka = va # ka'" "kb = vb # kb'" "ds = (t, asc) # ds'"
    by (auto simp: list_all2_Cons1 o)
  with Cons.prems o have v: "val ra e = Inr va" "val rb e = Inr vb" "exact_of t va" "exact_of t vb"
    by (auto simp: order_dom_def)
  have zero: "compare_order_values va vb asc = 0 \<longleftrightarrow> va = vb"
    using order_value.less_irrefl[OF v(3), of asc] value_eq_exact[OF v(3,4)] null_unique[of va vb]
    by (auto simp: compare_order_values_def split: if_splits)
  from Cons.IH[of ka' kb' ds'] Cons.prems k o obtain c where
    "compare_expression_list val ra rb order = Inr c" "(c < 0) = order_less ds' ka' kb'"
    by (auto simp: order_dom_def)
  then show ?case
    using zero v k o order_value.less_irrefl[OF v(3), of asc] compare_order_values_less[OF v(3,4), of asc]
    by (cases "va = vb") (auto simp: order_less_def Let_def)
qed (auto simp: order_dom_def order_less_def)

text \<open>The rows of a sorted result are the input's, in key order, equal keys in input order.\<close>

lemma sort_apply_ok:
  assumes "success res" "order_by_columns stmt \<noteq> []"
    and "\<forall>r \<in> set (result_rows res).
      keyed (result_value (evaluator_for_result_columns res)) (order_by_columns stmt) ds key r"
  obtains rows where "sort_apply stmt res = Inr (res\<lparr>result_rows := rows\<rparr>)" "mset rows = mset (result_rows res)"
    "sorted_wrt (\<lambda>a b. \<not> order_less ds (key b) (key a)) rows"
    "\<And>k. order_dom ds k \<Longrightarrow> filter (\<lambda>r. key r = k) rows = filter (\<lambda>r. key r = k) (result_rows res)"
proof -
  let ?val = "result_value (evaluator_for_result_columns res)"
  let ?cmp = "\<lambda>ra rb. bindR (compare_expression_list ?val ra rb (order_by_columns stmt)) (\<lambda>c. Inr (c < 0))"
  let ?dom = "\<lambda>r. keyed ?val (order_by_columns stmt) ds key r"
  let ?lt = "\<lambda>a b. order_less ds (key a) (key b)"
  have wo: "weak_order ?dom ?lt"
  proof
    fix a b assume "?dom a" "?dom b" "?lt a b"
    then show "\<not> ?lt b a" unfolding keyed_def using order_by.weak.asym[of ds "key a" "key b"] by simp
  next
    fix a b c assume "?dom a" "?dom b" "?dom c" "\<not> ?lt a b" "\<not> ?lt b c"
    then show "\<not> ?lt a c" unfolding keyed_def using order_by.weak.neg_trans[of ds "key a" "key b" "key c"] by simp
  qed
  have cmp: "?cmp a b = Inr (?lt a b)" if "?dom a" "?dom b" for a b
    using compare_expression_list_keys[of ?val a "order_by_columns stmt" "key a" b "key b" ds] that
    by (auto simp: keyed_def)
  obtain rows where rows: "stable_sort ?cmp (result_rows res) = Inr rows" "mset rows = mset (result_rows res)"
    "weak_order.ascending ?lt rows"
    "\<And>a. ?dom a \<Longrightarrow> filter (weak_order.equivalent ?lt a) rows = filter (weak_order.equivalent ?lt a) (result_rows res)"
    using weak_order.stable_sort_ok[OF wo, where cmp = ?cmp and xs = "result_rows res", OF cmp assms(3)] by blast
  have stable: "filter (\<lambda>r. key r = k) rows = filter (\<lambda>r. key r = k) (result_rows res)" if "order_dom ds k" for k
  proof (cases "\<exists>a \<in> set (result_rows res). key a = k")
    case True
    then obtain a where a: "a \<in> set (result_rows res)" "key a = k" by blast
    have sets: "set rows = set (result_rows res)" using rows(2) by (metis set_mset_mset)
    have "weak_order.equivalent ?lt a r = (key r = k)" if "r \<in> set (result_rows res)" for r
    proof -
      have "order_dom ds (key r)" "order_dom ds (key a)" using assms(3) that a by (auto simp: keyed_def)
      then show ?thesis
        unfolding weak_order.equivalent_def[OF wo] a(2)
        using order_by.less_total[of ds k "key r"] order_by.less_irrefl[of ds k] a(2) by metis
    qed
    with rows(4)[of a] a assms(3) sets show ?thesis
      by (metis (mono_tags, lifting) filter_cong)
  next
    case False
    moreover have "set rows = set (result_rows res)" using rows(2) by (metis set_mset_mset)
    ultimately show ?thesis by (simp add: filter_empty_conv)
  qed
  show ?thesis
  proof
    show "sort_apply stmt res = Inr (res\<lparr>result_rows := rows\<rparr>)"
      using assms(1,2) rows(1) by (simp add: sort_apply_def)
    show "sorted_wrt (\<lambda>a b. \<not> order_less ds (key b) (key a)) rows"
      using rows(3) by (simp add: weak_order.ascending_def[OF wo])
  qed (use rows(2) stable in blast)+
qed

lemma distinct_apply_ok:
  assumes "success res" "is_distinct stmt" "\<forall>r \<in> set (result_rows res). index_dom ts r"
  obtains rows where "distinct_apply stmt res = Inr (res\<lparr>result_rows := rows, affected_rows := int (length rows)\<rparr>)"
    "distinct rows" "set rows = set (result_rows res)" "sorted_wrt isRowLess rows"
proof -
  obtain ys where ys: "stable_sort (\<lambda>a b. Inr (isRowLess a b)) (result_rows res) = Inr ys"
    "mset ys = mset (result_rows res)" "weak_order.ascending isRowLess ys"
    by (rule row_order.weak.stable_sort_ok[of ts "\<lambda>a b. Inr (isRowLess a b)" "result_rows res"])
      (use assms(3) in auto)
  have sets: "set ys = set (result_rows res)" using ys(2) by (metis set_mset_mset)
  with assms(3) have dom: "\<forall>y \<in> set ys. index_dom ts y" by simp
  from row_order.unique_by_ascending[OF dom ys(3)] have u: "sorted_wrt isRowLess (unique_by isRowEqual ys)"
    "set (unique_by isRowEqual ys) = set ys" by simp_all
  show ?thesis
    by (rule that[of "unique_by isRowEqual ys"])
      (use assms ys(1) u sets dom row_order.sorted_wrt_distinct[of "unique_by isRowEqual ys" ts] in
        \<open>simp_all add: distinct_apply_def Let_def\<close>)
qed

lemma limit_offset_rows:
  assumes "success res"
  shows "result_rows (limit_offset_apply stmt res) =
    (if get_limit stmt < 0 then drop (nat (get_offset stmt)) (result_rows res)
     else take (nat (get_limit stmt)) (drop (nat (get_offset stmt)) (result_rows res)))"
  using assms by (auto simp: limit_offset_apply_def Let_def not_less)

section \<open>Properties\<close>

text \<open>C23: The set operations compute the sets they name. On two successful results of the same width whose
  rows have the same column types without doubles, UNION ALL appends, UNION, INTERSECT and EXCEPT return
  without duplicates the union, the intersection and the difference of the rows, with the left headers and
  the right count, whatever the hash functions.\<close>

theorem set_operations_correct:
  assumes "success a" "success b" "length (column_names a) = length (column_names b)"
    and "\<forall>r \<in> set (result_rows a). index_dom ts r" "\<forall>r \<in> set (result_rows b). index_dom ts r"
  shows "\<exists>out. set_operation_execute h a b kind isAll = Inr out \<and> success out \<and>
    column_names out = column_names a \<and> affected_rows out = int (length (result_rows out)) \<and>
    (case kind of
       UnionK \<Rightarrow> if isAll then result_rows out = result_rows a @ result_rows b
         else distinct (result_rows out) \<and> set (result_rows out) = set (result_rows a) \<union> set (result_rows b)
     | IntersectK \<Rightarrow> distinct (result_rows out) \<and> set (result_rows out) = set (result_rows a) \<inter> set (result_rows b)
     | ExceptK \<Rightarrow> distinct (result_rows out) \<and> set (result_rows out) = set (result_rows a) - set (result_rows b))"
proof -
  have "validateColumnTypes a b = Inr None"
    using assms(4,5) no_type_mismatch[of ts]
    by (auto simp: validateColumnTypes_def split: list.splits)
  then show ?thesis
    using assms(1-3) union_rows[OF assms(4,5), of h] filtered_rows[OF assms(4,5), of h]
    by (cases kind)
      (auto simp: set_operation_execute_def executeUnionAll_def executeUnionDistinct_def executeIntersect_def
        executeExcept_def buildSuccessResult_def success_result_def Let_def)
qed

theorem set_operations_correct_witness:
  "\<exists>out. set_operation_execute \<lparr>hash_int = id, hash_double = id, hash_string = (\<lambda>_. 0), hash_bool = (\<lambda>_. 0)\<rparr>
      ((success_result ''OK'')\<lparr>column_names := [''a''], result_rows := [[IntV 1], [IntV 2], [IntV 1]]\<rparr>)
      ((success_result ''OK'')\<lparr>column_names := [''b''], result_rows := [[IntV 2], [NullV]]\<rparr>) ExceptK False = Inr out \<and>
    distinct (result_rows out) \<and> set (result_rows out) = {[IntV 1]}"
proof -
  let ?a = "(success_result ''OK'')\<lparr>column_names := [''a''], result_rows := [[IntV 1], [IntV 2], [IntV 1]]\<rparr>"
  let ?b = "(success_result ''OK'')\<lparr>column_names := [''b''], result_rows := [[IntV 2], [NullV]]\<rparr>"
  have d: "\<forall>r \<in> set (result_rows ?a). index_dom [INT_T] r" "\<forall>r \<in> set (result_rows ?b). index_dom [INT_T] r"
    by (simp_all add: exact_of_def)
  let ?h = "\<lparr>hash_int = id, hash_double = id, hash_string = (\<lambda>_. 0), hash_bool = (\<lambda>_. 0)\<rparr>"
  obtain out where "set_operation_execute ?h ?a ?b ExceptK False = Inr out" "distinct (result_rows out)"
    "set (result_rows out) = set (result_rows ?a) - set (result_rows ?b)"
    using set_operations_correct[OF _ _ _ d, of ?h ExceptK False] by (auto simp: success_result_def)
  moreover have "set (result_rows ?a) - set (result_rows ?b) = {[IntV 1]}" by auto
  ultimately show ?thesis by metis
qed

end
