(* ===== verification/Joins.thy ===== *)
theory Joins
  imports Operators
begin

text \<open>
  The join loops of \<^verbatim>\<open>src/executor/join_select_executor.cc\<close>: one join edge takes the rows built so far, a list of
  tuples of \<open>lw\<close> columns, and the rows of the next table, of \<open>rw\<close> columns, and evaluates the ON condition on every
  concatenation. The inner join of two tables on one equality may run as the hash join of \<open>Operators\<close> instead; the
  plan that decides it is an argument. The variant that reads the right table through an index is not modelled.
\<close>

section \<open>The loops\<close>

definition null_vector :: "nat \<Rightarrow> tuple" where
  "null_vector n = replicate n NullV"

definition on_condition ::
    "nat \<Rightarrow> ('q, 's) evaluator \<Rightarrow> 'q expression option \<Rightarrow> tuple \<Rightarrow> ('s eval_state, bool) proc" where
  "on_condition depth on_eval on_expr comb = evaluate_where depth on_eval (make_row comb) on_expr"

text \<open>The verdicts of one pass of an inner loop, in the order it visits the concatenated rows.\<close>

fun verdicts :: "(tuple \<Rightarrow> ('s, bool) proc) \<Rightarrow> tuple list \<Rightarrow> ('s, bool list) proc" where
  "verdicts on [] = ret []"
| "verdicts on (comb # combs) =
     bindM (on comb) (\<lambda>ok. bindM (verdicts on combs) (\<lambda>oks. ret (ok # oks)))"

definition selected :: "bool list \<Rightarrow> 'a list \<Rightarrow> 'a list" where
  "selected oks xs = map snd (filter fst (zip oks xs))"

fun cross_loop :: "tuple list \<Rightarrow> row list \<Rightarrow> tuple list" where
  "cross_loop [] rhs_rows = []"
| "cross_loop (left_row # current) rhs_rows =
     map (\<lambda>rr. left_row @ row_values rr) rhs_rows @ cross_loop current rhs_rows"

fun inner_loop :: "(tuple \<Rightarrow> ('s, bool) proc) \<Rightarrow> tuple list \<Rightarrow> row list \<Rightarrow> ('s, tuple list) proc" where
  "inner_loop on [] rhs_rows = ret []"
| "inner_loop on (left_row # current) rhs_rows =
     (let combs = map (\<lambda>rr. left_row @ row_values rr) rhs_rows in
      bindM (verdicts on combs) (\<lambda>oks.
      bindM (inner_loop on current rhs_rows) (\<lambda>rest. ret (selected oks combs @ rest))))"

fun left_loop :: "(tuple \<Rightarrow> ('s, bool) proc) \<Rightarrow> nat \<Rightarrow> tuple list \<Rightarrow> row list \<Rightarrow> ('s, tuple list) proc" where
  "left_loop on rw [] rhs_rows = ret []"
| "left_loop on rw (left_row # current) rhs_rows =
     (let combs = map (\<lambda>rr. left_row @ row_values rr) rhs_rows in
      bindM (verdicts on combs) (\<lambda>oks.
      bindM (left_loop on rw current rhs_rows) (\<lambda>rest.
      ret ((if True \<in> set oks then selected oks combs else [left_row @ null_vector rw]) @ rest))))"

fun right_loop :: "(tuple \<Rightarrow> ('s, bool) proc) \<Rightarrow> nat \<Rightarrow> tuple list \<Rightarrow> row list \<Rightarrow> ('s, tuple list) proc" where
  "right_loop on lw current [] = ret []"
| "right_loop on lw current (rr # rhs_rows) =
     (let combs = map (\<lambda>left_row. left_row @ row_values rr) current in
      bindM (verdicts on combs) (\<lambda>oks.
      bindM (right_loop on lw current rhs_rows) (\<lambda>rest.
      ret ((if True \<in> set oks then selected oks combs else [null_vector lw @ row_values rr]) @ rest))))"

text \<open>The first pass of the full join, with the vector \<^verbatim>\<open>rhs_matched\<close>.\<close>

fun full_pass ::
    "(tuple \<Rightarrow> ('s, bool) proc) \<Rightarrow> nat \<Rightarrow> tuple list \<Rightarrow> row list \<Rightarrow> bool list \<Rightarrow> ('s, tuple list \<times> bool list) proc" where
  "full_pass on rw [] rhs_rows rhs_matched = ret ([], rhs_matched)"
| "full_pass on rw (left_row # current) rhs_rows rhs_matched =
     (let combs = map (\<lambda>rr. left_row @ row_values rr) rhs_rows in
      bindM (verdicts on combs) (\<lambda>oks.
      bindM (full_pass on rw current rhs_rows (map2 (\<or>) rhs_matched oks)) (\<lambda>(rest, marks).
      ret ((if True \<in> set oks then selected oks combs else [left_row @ null_vector rw]) @ rest, marks))))"

definition full_loop ::
    "(tuple \<Rightarrow> ('s, bool) proc) \<Rightarrow> nat \<Rightarrow> nat \<Rightarrow> tuple list \<Rightarrow> row list \<Rightarrow> ('s, tuple list) proc" where
  "full_loop on lw rw current rhs_rows =
     bindM (full_pass on rw current rhs_rows (replicate (length rhs_rows) False)) (\<lambda>(next, rhs_matched).
     ret (next @ map (\<lambda>rr. null_vector lw @ row_values rr) (selected (map Not rhs_matched) rhs_rows)))"

text \<open>One join edge. \<open>hash_plan\<close> holds the two key positions and the side to hash when the planner chose a hash
  join.\<close>

definition join_edge ::
    "std_hash \<Rightarrow> (tuple list \<Rightarrow> tuple list) \<Rightarrow> nat \<Rightarrow> ('q, 's) evaluator \<Rightarrow> string \<Rightarrow> 'q expression option \<Rightarrow>
     (nat \<times> nat \<times> bool) option \<Rightarrow> nat \<Rightarrow> nat \<Rightarrow> tuple list \<Rightarrow> row list \<Rightarrow> ('s eval_state, string + tuple list) proc" where
  "join_edge h arrange depth on_eval join_type on_expr hash_plan lw rw current rhs_rows =
     (let on = on_condition depth on_eval on_expr; done = (\<lambda>rows. ret (Inr rows)) in
      if join_type = ''CROSS'' \<or> join_type = ''INNER'' \<and> on_expr = None then done (cross_loop current rhs_rows)
      else if join_type = ''INNER'' then
        (case hash_plan of
           Some (left_key, right_key, build_on_left) \<Rightarrow>
             done (executeInnerEqui h arrange current (map row_values rhs_rows) left_key right_key build_on_left)
         | None \<Rightarrow> bindM (inner_loop on current rhs_rows) done)
      else if join_type = ''LEFT'' then bindM (left_loop on rw current rhs_rows) done
      else if join_type = ''RIGHT'' then bindM (right_loop on lw current rhs_rows) done
      else if join_type = ''FULL'' then bindM (full_loop on lw rw current rhs_rows) done
      else ret (Inl (''Unsupported JOIN kind: '' @ join_type)))"

text \<open>The WHERE filter over the joined rows.\<close>

fun filter_joined :: "nat \<Rightarrow> ('q, 's) evaluator \<Rightarrow> 'q expression option \<Rightarrow> tuple list \<Rightarrow> ('s eval_state, row list) proc" where
  "filter_joined depth full_eval where_expr [] = ret []"
| "filter_joined depth full_eval where_expr (flat # current) =
     bindM (evaluate_where depth full_eval (make_row flat) where_expr) (\<lambda>ok.
     bindM (filter_joined depth full_eval where_expr current) (\<lambda>rest.
     ret (if ok then make_row flat # rest else rest)))"

section \<open>Specification vocabulary\<close>

text \<open>The position a column expression denotes.\<close>

fun column_position :: "('q, 's) evaluator \<Rightarrow> 'q expression \<Rightarrow> nat option" where
  "column_position ev (ColumnRefExpression t c) = (case resolve_column_index ev t c of Inl _ \<Rightarrow> None | Inr i \<Rightarrow> Some i)"
| "column_position ev (IdentifierExpression n) = (case resolve_column_index ev '''' n of Inl _ \<Rightarrow> None | Inr i \<Rightarrow> Some i)"
| "column_position ev _ = None"

definition pairs :: "(tuple \<Rightarrow> tuple \<Rightarrow> bool) \<Rightarrow> tuple list \<Rightarrow> tuple list \<Rightarrow> tuple list" where
  "pairs P ls rs = concat (map (\<lambda>l. map ((@) l) (filter (P l) rs)) ls)"

text \<open>The ON condition decides every pair of a left and a right row and leaves the state alone.\<close>

definition decides :: "(tuple \<Rightarrow> ('s, bool) proc) \<Rightarrow> 's \<Rightarrow> (tuple \<Rightarrow> tuple \<Rightarrow> bool) \<Rightarrow> tuple list \<Rightarrow> row list \<Rightarrow> bool" where
  "decides on s P ls rs = (\<forall>l \<in> set ls. \<forall>rr \<in> set rs. on (l @ row_values rr) s = (Inr (P l (row_values rr)), s))"

text \<open>What an outer loop emits for one row: its matches, or the padded row.\<close>

definition or_padded :: "'a list \<Rightarrow> 'a \<Rightarrow> 'a list" where
  "or_padded out padded = (if out = [] then [padded] else out)"

text \<open>The rows without a partner.\<close>

definition dangling_left :: "(tuple \<Rightarrow> tuple \<Rightarrow> bool) \<Rightarrow> tuple list \<Rightarrow> tuple list \<Rightarrow> tuple list" where
  "dangling_left P ls rs = filter (\<lambda>l. \<not> (\<exists>r \<in> set rs. P l r)) ls"

definition dangling_right :: "(tuple \<Rightarrow> tuple \<Rightarrow> bool) \<Rightarrow> tuple list \<Rightarrow> tuple list \<Rightarrow> tuple list" where
  "dangling_right P ls rs = filter (\<lambda>r. \<not> (\<exists>l \<in> set ls. P l r)) rs"

text \<open>An equality of two columns, written either way round.\<close>

definition equi_on :: "'q expression \<Rightarrow> 'q expression \<Rightarrow> 'q expression \<Rightarrow> bool" where
  "equi_on a b e = (e = BinaryOpExpression a EQ_OP b \<or> e = BinaryOpExpression b EQ_OP a)"

text \<open>A sample join.\<close>

definition sample_hash :: std_hash where
  "sample_hash = \<lparr>hash_int = id, hash_double = id, hash_string = (\<lambda>_. 0), hash_bool = (\<lambda>_. 0)\<rparr>"

definition two_tables :: "(unit, unit) evaluator" where
  "two_tables = make_evaluator ''2024-01-31''
     [\<lparr>bind_alias = ''l'', physical_table = ''l'', column_name = ''a''\<rparr>,
      \<lparr>bind_alias = ''r'', physical_table = ''r'', column_name = ''a''\<rparr>]"

definition sample_on :: "unit expression" where
  "sample_on = BinaryOpExpression (ColumnRefExpression ''r'' ''a'') EQ_OP (ColumnRefExpression ''l'' ''a'')"

section \<open>The loops compute the joins\<close>

lemma verdicts_pure:
  "(\<And>c. c \<in> set combs \<Longrightarrow> on c s = (Inr (Q c), s)) \<Longrightarrow> verdicts on combs s = (Inr (map Q combs), s)"
  by (induction combs) (simp_all add: bindM_def)

lemma selected_map: "selected (map Q xs) (map f xs) = map f (filter Q xs)"
  by (induction xs) (simp_all add: selected_def)

lemma selected_same: "selected (map Q xs) xs = filter Q xs"
  using selected_map[of Q xs id] by simp

lemma decides_Cons [simp]:
  "decides on s P (l # ls) rs \<longleftrightarrow>
     (\<forall>rr \<in> set rs. on (l @ row_values rr) s = (Inr (P l (row_values rr)), s)) \<and> decides on s P ls rs"
  by (auto simp: decides_def)

lemma row_verdicts:
  assumes "\<forall>rr \<in> set rs. on (l @ row_values rr) s = (Inr (P l (row_values rr)), s)"
  shows "verdicts on (map (\<lambda>rr. l @ row_values rr) rs) s = (Inr (map (\<lambda>rr. P l (row_values rr)) rs), s)"
  using assms by (induction rs) (simp_all add: bindM_def)

lemma column_verdicts:
  assumes "decides on s P ls rs" "rr \<in> set rs"
  shows "verdicts on (map (\<lambda>l. l @ row_values rr) ls) s = (Inr (map (\<lambda>l. P l (row_values rr)) ls), s)"
  using assms by (induction ls) (simp_all add: bindM_def)

lemma pairs_Cons: "pairs P (l # ls) rs = map ((@) l) (filter (P l) rs) @ pairs P ls rs"
  by (simp add: pairs_def)

lemma pairs_row:
  "map (\<lambda>rr. l @ row_values rr) (filter (\<lambda>rr. P l (row_values rr)) rs) = map ((@) l) (filter (P l) (map row_values rs))"
  by (simp add: filter_map comp_def)

lemma or_padded_selected:
  "(if True \<in> set (map Q xs) then selected (map Q xs) (map f xs) else [p]) = or_padded (map f (filter Q xs)) p"
  by (auto simp: or_padded_def selected_map filter_empty_conv simp del: set_map) auto

lemma inner_loop_pairs:
  "decides on s P ls rs \<Longrightarrow> inner_loop on ls rs s = (Inr (pairs P ls (map row_values rs)), s)"
proof (induction ls)
  case (Cons l ls)
  then show ?case
    using row_verdicts[of rs on l s P] pairs_row[of l P rs]
    by (simp add: bindM_def selected_map pairs_Cons Let_def)
qed (simp add: pairs_def)

lemma left_loop_rows:
  "decides on s P ls rs \<Longrightarrow> left_loop on rw ls rs s =
     (Inr (concat (map (\<lambda>l. or_padded (map ((@) l) (filter (P l) (map row_values rs))) (l @ null_vector rw)) ls)), s)"
proof (induction ls)
  case (Cons l ls)
  then show ?case
    using row_verdicts[of rs on l s P] pairs_row[of l P rs]
    by (simp add: bindM_def Let_def or_padded_selected del: set_map)
qed simp

lemma right_loop_rows:
  "decides on s P ls rs' \<Longrightarrow> set rs \<subseteq> set rs' \<Longrightarrow> right_loop on lw ls rs s =
     (Inr (concat (map (\<lambda>r. or_padded (map (\<lambda>l. l @ r) (filter (\<lambda>l. P l r) ls)) (null_vector lw @ r))
       (map row_values rs))), s)"
proof (induction rs)
  case (Cons rr rs)
  then show ?case
    using column_verdicts[of on s P ls rs' rr]
    by (simp add: bindM_def Let_def or_padded_selected del: set_map)
qed simp

lemma full_pass_rows:
  "decides on s P ls rs \<Longrightarrow> length marks = length rs \<Longrightarrow> full_pass on rw ls rs marks s =
     (Inr (concat (map (\<lambda>l. or_padded (map ((@) l) (filter (P l) (map row_values rs))) (l @ null_vector rw)) ls),
        map2 (\<or>) marks (map (\<lambda>rr. \<exists>l \<in> set ls. P l (row_values rr)) rs)), s)"
proof (induction ls arbitrary: marks)
  case Nil
  have "map2 (\<or>) marks (map (\<lambda>rr. False) rs) = marks" using Nil by (intro nth_equalityI) simp_all
  with Nil show ?case by simp
next
  case (Cons l ls)
  let ?marks = "map2 (\<or>) marks (map (\<lambda>rr. P l (row_values rr)) rs)"
  have marks: "map2 (\<or>) ?marks (map (\<lambda>rr. \<exists>l \<in> set ls. P l (row_values rr)) rs) =
      map2 (\<or>) marks (map (\<lambda>rr. P l (row_values rr) \<or> (\<exists>l \<in> set ls. P l (row_values rr))) rs)"
    using Cons.prems(2) by (intro nth_equalityI) auto
  have "decides on s P ls rs" "length ?marks = length rs" using Cons.prems by simp_all
  from Cons.IH[OF this] Cons.prems(1) show ?case
    unfolding marks using row_verdicts[of rs on l s P] pairs_row[of l P rs]
    by (simp add: bindM_def Let_def or_padded_selected del: set_map)
qed

lemma full_loop_rows:
  assumes "decides on s P ls rs"
  shows "full_loop on lw rw ls rs s =
     (Inr (concat (map (\<lambda>l. or_padded (map ((@) l) (filter (P l) (map row_values rs))) (l @ null_vector rw)) ls) @
        map (\<lambda>r. null_vector lw @ r) (filter (\<lambda>r. \<not> (\<exists>l \<in> set ls. P l r)) (map row_values rs))), s)"
proof -
  have "map2 (\<or>) (replicate (length rs) False) (map (\<lambda>rr. \<exists>l \<in> set ls. P l (row_values rr)) rs) =
      map (\<lambda>rr. \<exists>l \<in> set ls. P l (row_values rr)) rs" by (intro nth_equalityI) simp_all
  then show ?thesis
    using full_pass_rows[OF assms, of "replicate (length rs) False" rw] selected_same[of "\<lambda>rr. \<not> (\<exists>l \<in> set ls. P l (row_values rr))" rs]
    by (simp add: full_loop_def bindM_def comp_def filter_map)
qed

section \<open>The joins as multisets\<close>

lemma mset_or_padded: "mset (or_padded out p) = mset out + (if out = [] then {#p#} else {#})"
  by (simp add: or_padded_def)

lemma left_rows_mset:
  "mset (concat (map (\<lambda>l. or_padded (map ((@) l) (filter (P l) rs)) (l @ null_vector rw)) ls)) =
   mset (pairs P ls rs) + mset (map (\<lambda>l. l @ null_vector rw) (dangling_left P ls rs))"
proof (induction ls)
  case (Cons l ls)
  have "filter (P l) rs = [] \<longleftrightarrow> \<not> (\<exists>r \<in> set rs. P l r)" by (auto simp: filter_empty_conv)
  with Cons show ?case
    by (cases "filter (P l) rs = []") (auto simp: mset_or_padded pairs_Cons dangling_left_def)
qed (simp add: pairs_def dangling_left_def)

lemma pairs_swap:
  "mset (pairs P ls rs) = mset (concat (map (\<lambda>r. map (\<lambda>l. l @ r) (filter (\<lambda>l. P l r) ls)) rs))"
  by (simp add: pairs_def mset_concat_map mset_filter_map del: mset_map mset_filter)
    (rule sum_list_swap)

lemma right_rows_mset:
  "mset (concat (map (\<lambda>r. or_padded (map (\<lambda>l. l @ r) (filter (\<lambda>l. P l r) ls)) (null_vector lw @ r)) rs)) =
   mset (pairs P ls rs) + mset (map (\<lambda>r. null_vector lw @ r) (dangling_right P ls rs))"
  unfolding pairs_swap
proof (induction rs)
  case (Cons r rs)
  have "filter (\<lambda>l. P l r) ls = [] \<longleftrightarrow> \<not> (\<exists>l \<in> set ls. P l r)" by (auto simp: filter_empty_conv)
  with Cons show ?case
    by (cases "filter (\<lambda>l. P l r) ls = []") (auto simp: mset_or_padded dangling_right_def)
qed (simp add: dangling_right_def)

section \<open>Equality conditions\<close>

lemma column_evaluates:
  assumes "ev = make_evaluator today bs" "column_position ev e = Some i" "i < length vs"
  shows "evaluates_to depth ev (make_row vs) s e (vs ! i)"
proof -
  have ref: "evaluate_column_ref ev (make_row vs) t c u = (Inr (vs ! i), u)"
    if "resolve_column_index ev t c = Inr i" for t c u
  proof -
    have "local_variables ev = Map.empty" using assms(1) by (simp add: make_evaluator_def)
    with that assms(3) show ?thesis
      by (cases "t = []") (simp_all add: evaluate_column_ref_def get_value_def get_column_count_def make_row_def)
  qed
  show ?thesis
    using assms(2) ref by (cases e) (auto simp: evaluates_to_def split: sum.splits)
qed

lemma equality_on:
  assumes "evaluates_to depth ev r s a x" "evaluates_to depth ev r s b y"
  shows "evaluate_condition depth ev r (BinaryOpExpression a EQ_OP b) s = (Inr (value_eq x y), s)"
  using with_message_evaluates[OF assms(1)] with_message_evaluates[OF assms(2)]
  by (simp add: bindM_def compare_values_def)

lemma equi_decides:
  assumes "key_typed t i ls" "key_typed t j (map row_values rs)"
    and "\<forall>l \<in> set ls. length l = lw" "i < lw" "\<forall>rr \<in> set rs. j < length (row_values rr)"
    and "ev = make_evaluator today bs" "column_position ev a = Some i" "column_position ev b = Some (lw + j)"
    and "equi_on a b e"
  shows "decides (on_condition depth ev (Some e)) s (\<lambda>l r. value_eq (l ! i) (r ! j)) ls rs"
  unfolding decides_def
proof (intro ballI)
  fix l rr assume l: "l \<in> set ls" and rr: "rr \<in> set rs"
  let ?vs = "l @ row_values rr"
  have len: "i < length l" "j < length (row_values rr)" "length l = lw" using assms(3,4,5) l rr by auto
  have a: "evaluates_to depth ev (make_row ?vs) s a (l ! i)"
    using column_evaluates[OF assms(6,7), of ?vs] len by (simp add: nth_append)
  have b: "evaluates_to depth ev (make_row ?vs) s b (row_values rr ! j)"
    using column_evaluates[OF assms(6,8), of ?vs] len by (simp add: nth_append)
  have "exact_of t (l ! i)" "exact_of t (row_values rr ! j)"
    using assms(1,2) l rr len by (auto simp: key_typed_def)
  then have "value_eq (row_values rr ! j) (l ! i) = value_eq (l ! i) (row_values rr ! j)" using value_eq_sym by blast
  then show "on_condition depth ev (Some e) ?vs s = (Inr (value_eq (l ! i) (row_values rr ! j)), s)"
    using assms(9) equality_on[OF a b] equality_on[OF b a]
    by (auto simp: on_condition_def evaluate_where_def equi_on_def simp del: evaluate_condition.simps)
qed

lemma pairs_filter_left:
  assumes "\<forall>l \<in> set ls. i < length l"
  shows "filter (\<lambda>row. \<not> is_null (row ! i)) (pairs P ls rs) = pairs (\<lambda>l r. \<not> is_null (l ! i) \<and> P l r) ls rs"
  using assms
proof (induction ls)
  case (Cons l ls)
  have "filter (\<lambda>row. \<not> is_null (row ! i)) (map ((@) l) xs) = (if is_null (l ! i) then [] else map ((@) l) xs)" for xs
    using Cons.prems by (induction xs) (auto simp: nth_append)
  with Cons show ?case by (cases "is_null (l ! i)") (auto simp: pairs_Cons)
qed (simp add: pairs_def)

lemma hash_join_pairs:
  assumes "key_typed t i ls" "key_typed t j rs" "\<And>xs. mset (arrange xs) = mset xs"
    and "\<forall>l \<in> set ls. i < length l" "\<forall>r \<in> set rs. j < length r"
  shows "mset (executeInnerEqui h arrange ls rs i j build_on_left) =
    mset (filter (\<lambda>row. \<not> is_null (row ! i)) (pairs (\<lambda>l r. value_eq (l ! i) (r ! j)) ls rs))"
proof -
  have "join_match i j l r = (\<not> is_null (l ! i) \<and> value_eq (l ! i) (r ! j))" if "l \<in> set ls" "r \<in> set rs" for l r
  proof -
    have "value_eq (l ! i) (r ! j) \<Longrightarrow> l ! i = r ! j"
      using assms(1,2,4,5) that value_eq_exact[of t "l ! i" "r ! j"] by (auto simp: key_typed_def)
    then show ?thesis using assms(4,5) that by (auto simp: join_match_def)
  qed
  then have "matching_pairs ls rs i j = pairs (\<lambda>l r. \<not> is_null (l ! i) \<and> value_eq (l ! i) (r ! j)) ls rs"
    unfolding matching_pairs_def pairs_def
    by (intro arg_cong[where f = concat] map_cong refl) (auto intro!: filter_cong)
  with hash_join_mset[OF assms(1-3)] pairs_filter_left[OF assms(4)] show ?thesis by simp
qed

section \<open>Properties\<close>

text \<open>C8: The hash join returns what the nested loop returns, NULL keys apart. On an INNER edge whose ON condition
  equates a left with a right column of one type without doubles, let the plan choose the hash join, with any hash
  functions, any bucket order and either side hashed, or the nested loop over the expression evaluator: both succeed,
  and the hash join returns exactly the rows of the nested loop whose key is not NULL, each as often. The two agree
  when the left column holds no NULL; on two NULL keys they differ, because the evaluator finds NULL equal to NULL.\<close>

theorem hash_join_equivalent:
  assumes "key_typed t i ls" "key_typed t j (map row_values rs)"
    and "\<forall>l \<in> set ls. length l = lw" "i < lw" "\<forall>rr \<in> set rs. j < length (row_values rr)"
    and "ev = make_evaluator today bs" "column_position ev a = Some i" "column_position ev b = Some (lw + j)"
    and "equi_on a b e" "\<And>xs. mset (arrange xs) = mset xs"
  shows "\<exists>looped hashed.
    join_edge h arrange depth ev ''INNER'' (Some e) None lw rw ls rs s = (Inr (Inr looped), s) \<and>
    join_edge h arrange depth ev ''INNER'' (Some e) (Some (i, j, build_on_left)) lw rw ls rs s = (Inr (Inr hashed), s) \<and>
    mset hashed = mset (filter (\<lambda>row. \<not> is_null (row ! i)) looped) \<and>
    ((\<forall>l \<in> set ls. \<not> is_null (l ! i)) \<longrightarrow> mset hashed = mset looped)"
proof -
  let ?P = "\<lambda>l r. value_eq (l ! i) (r ! j)" and ?rs = "map row_values rs"
  have len: "\<forall>l \<in> set ls. i < length l" "\<forall>r \<in> set ?rs. j < length r" using assms(3-5) by auto
  have "inner_loop (on_condition depth ev (Some e)) ls rs s = (Inr (pairs ?P ls ?rs), s)"
    by (rule inner_loop_pairs[OF equi_decides[OF assms(1-9)]])
  moreover have "(\<forall>l \<in> set ls. \<not> is_null (l ! i)) \<longrightarrow>
      filter (\<lambda>row. \<not> is_null (row ! i)) (pairs ?P ls ?rs) = pairs ?P ls ?rs"
    unfolding pairs_filter_left[OF len(1)] by (auto simp: pairs_def intro!: arg_cong[where f = concat])
  ultimately show ?thesis
    using hash_join_pairs[OF assms(1,2,10) len] by (auto simp: join_edge_def bindM_def simp del: mset_filter)
qed

theorem hash_join_equivalent_witness:
  "\<exists>looped hashed.
    join_edge sample_hash rev 0 two_tables ''INNER'' (Some sample_on) None 1 1 [[IntV 1], [NullV]]
      [make_row [NullV], make_row [IntV 1]] sample_state = (Inr (Inr looped), sample_state) \<and>
    join_edge sample_hash rev 0 two_tables ''INNER'' (Some sample_on) (Some (0, 0, True)) 1 1 [[IntV 1], [NullV]]
      [make_row [NullV], make_row [IntV 1]] sample_state = (Inr (Inr hashed), sample_state) \<and>
    mset hashed = mset (filter (\<lambda>row. \<not> is_null (row ! 0)) looped)"
proof -
  have on: "equi_on (ColumnRefExpression ''l'' ''a'') (ColumnRefExpression ''r'' ''a'') sample_on"
    by (simp add: equi_on_def sample_on_def)
  have pos: "column_position two_tables (ColumnRefExpression ''l'' ''a'') = Some 0"
    "column_position two_tables (ColumnRefExpression ''r'' ''a'') = Some (1 + 0)"
    by (simp_all add: two_tables_def make_evaluator_def resolve_column_index_def binding_matches_def)
  have keys: "key_typed INT_T 0 [[IntV 1], [NullV]]"
    "key_typed INT_T 0 (map row_values [make_row [NullV], make_row [IntV 1]])"
    by (simp_all add: key_typed_def exact_of_def make_row_def)
  have wide: "\<forall>rr \<in> set [make_row [NullV], make_row [IntV 1]]. 0 < length (row_values rr)" by (simp add: make_row_def)
  show ?thesis
    using hash_join_equivalent[OF keys _ _ wide two_tables_def pos on, of rev] by simp
qed

text \<open>The outer joins extend the inner join. Whenever the ON condition decides every pair, a LEFT edge returns the rows
  of the INNER edge and every left row without a partner, padded with NULLs on the right, a RIGHT edge those and every
  right row without a partner, padded on the left, and a FULL edge both.\<close>

theorem outer_joins_extend_inner:
  assumes "decides (on_condition depth ev (Some e)) s P ls rs"
  shows "\<exists>inner left right full.
    join_edge h arrange depth ev ''INNER'' (Some e) None lw rw ls rs s = (Inr (Inr inner), s) \<and>
    join_edge h arrange depth ev ''LEFT'' (Some e) None lw rw ls rs s = (Inr (Inr left), s) \<and>
    join_edge h arrange depth ev ''RIGHT'' (Some e) None lw rw ls rs s = (Inr (Inr right), s) \<and>
    join_edge h arrange depth ev ''FULL'' (Some e) None lw rw ls rs s = (Inr (Inr full), s) \<and>
    mset left = mset inner + mset (map (\<lambda>l. l @ null_vector rw) (dangling_left P ls (map row_values rs))) \<and>
    mset right = mset inner + mset (map (\<lambda>r. null_vector lw @ r) (dangling_right P ls (map row_values rs))) \<and>
    mset full = mset left + mset (map (\<lambda>r. null_vector lw @ r) (dangling_right P ls (map row_values rs)))"
  using inner_loop_pairs[OF assms] left_loop_rows[OF assms, of rw] right_loop_rows[OF assms subset_refl, of lw]
    full_loop_rows[OF assms, of lw rw] left_rows_mset[of P "map row_values rs" rw ls]
    right_rows_mset[of P ls lw "map row_values rs"]
  by (simp add: join_edge_def bindM_def dangling_right_def del: mset_map mset_filter mset_concat)

end
