(* ===== verification/Queries.thy ===== *)
theory Queries
  imports Operators
begin

text \<open>
  What a SELECT does with the rows of its scan: the checks of \<^verbatim>\<open>src/executor/select_analysis.cc\<close>, grouping and
  aggregation (\<^verbatim>\<open>aggregate_function.cc\<close>, \<^verbatim>\<open>group_aggregate_operator.cc\<close>), window functions (\<^verbatim>\<open>window_function.cc\<close>,
  \<^verbatim>\<open>window_operator.cc\<close>), the projection of \<^verbatim>\<open>query_executor.cc\<close>, the pipeline of \<^verbatim>\<open>select_pipeline.cc\<close> and the subquery
  callbacks of \<^verbatim>\<open>src/core/database.cc\<close>.
\<close>

section \<open>Analysis of SELECT statements\<close>

definition is_aggregate_function_name :: "string \<Rightarrow> bool" where
  "is_aggregate_function_name name = is_aggregate_text (map to_lower name)"

definition is_window_function_name :: "string \<Rightarrow> bool" where
  "is_window_function_name name =
     (map to_lower name \<in> {''row_number'', ''rank'', ''dense_rank'', ''sum'', ''avg''})"

fun is_wildcard_select_expression :: "'q expression \<Rightarrow> bool" where
  "is_wildcard_select_expression (ColumnRefExpression t c) = (c = ''*'')"
| "is_wildcard_select_expression (IdentifierExpression name) = (name = ''*'')"
| "is_wildcard_select_expression _ = False"

text \<open>The two walks over an expression for aggregate calls and for windowed calls.\<close>

primrec walk_has_aggregate :: "'q expression \<Rightarrow> bool" where
  "walk_has_aggregate (FunctionCallExpression name args w) =
     (if w \<noteq> None then list_ex id (map walk_has_aggregate args)
      else is_aggregate_function_name name \<or> list_ex id (map walk_has_aggregate args))"
| "walk_has_aggregate (BinaryOpExpression a bop b) = (walk_has_aggregate a \<or> walk_has_aggregate b)"
| "walk_has_aggregate (UnaryOpExpression uop e) = walk_has_aggregate e"
| "walk_has_aggregate (CaseExpression pairs els) =
     (list_ex (\<lambda>(a, b). a \<or> b) (map (map_prod walk_has_aggregate walk_has_aggregate) pairs) \<or>
      map_option walk_has_aggregate els = Some True)"
| "walk_has_aggregate (LiteralExpression v) = False"
| "walk_has_aggregate (IdentifierExpression name) = False"
| "walk_has_aggregate (ColumnRefExpression t c) = False"
| "walk_has_aggregate (ParameterExpression i) = False"
| "walk_has_aggregate (CastExpression e t) = False"
| "walk_has_aggregate (InExpression l q neg) = False"
| "walk_has_aggregate (InListExpression l es neg) = False"
| "walk_has_aggregate (ExistsExpression q neg) = False"
| "walk_has_aggregate (SubqueryExpression q) = False"

primrec walk_has_window :: "'q expression \<Rightarrow> bool" where
  "walk_has_window (FunctionCallExpression name args w) =
     (w \<noteq> None \<or> list_ex id (map walk_has_window args))"
| "walk_has_window (BinaryOpExpression a bop b) = (walk_has_window a \<or> walk_has_window b)"
| "walk_has_window (UnaryOpExpression uop e) = walk_has_window e"
| "walk_has_window (CaseExpression pairs els) =
     (list_ex (\<lambda>(a, b). a \<or> b) (map (map_prod walk_has_window walk_has_window) pairs) \<or>
      map_option walk_has_window els = Some True)"
| "walk_has_window (LiteralExpression v) = False"
| "walk_has_window (IdentifierExpression name) = False"
| "walk_has_window (ColumnRefExpression t c) = False"
| "walk_has_window (ParameterExpression i) = False"
| "walk_has_window (CastExpression e t) = False"
| "walk_has_window (InExpression l q neg) = False"
| "walk_has_window (InListExpression l es neg) = False"
| "walk_has_window (ExistsExpression q neg) = False"
| "walk_has_window (SubqueryExpression q) = False"

definition select_has_aggregate :: "select_statement \<Rightarrow> bool" where
  "select_has_aggregate stmt =
     (list_ex (\<lambda>(e, alias). walk_has_aggregate e) (select_columns stmt) \<or>
      map_option walk_has_aggregate (having_condition stmt) = Some True)"

definition select_has_window :: "select_statement \<Rightarrow> bool" where
  "select_has_window stmt = list_ex (\<lambda>(e, alias). walk_has_window e) (select_columns stmt)"

definition needs_grouping :: "select_statement \<Rightarrow> bool" where
  "needs_grouping stmt =
     (group_by_columns stmt \<noteq> [] \<or> select_has_aggregate stmt \<or> having_condition stmt \<noteq> None)"

definition expressions_compatible_for_grouping ::
    "select_statement expression \<Rightarrow> select_statement expression \<Rightarrow> bool" where
  "expressions_compatible_for_grouping a b =
     (show_expression a = show_expression b \<or>
      (case (a, b) of
         (ColumnRefExpression t c, ColumnRefExpression t' c') \<Rightarrow> c = c' \<and> t = t'
       | (IdentifierExpression n, IdentifierExpression n') \<Rightarrow> n = n'
       | (ColumnRefExpression t c, IdentifierExpression n) \<Rightarrow> c = n \<and> t = ''''
       | (IdentifierExpression n, ColumnRefExpression t c) \<Rightarrow> n = c \<and> t = ''''
       | _ \<Rightarrow> False))"

fun is_aggregate_argument :: "'q expression \<Rightarrow> bool" where
  "is_aggregate_argument (LiteralExpression v) = True"
| "is_aggregate_argument (ColumnRefExpression t c) = True"
| "is_aggregate_argument (IdentifierExpression n) = True"
| "is_aggregate_argument (BinaryOpExpression a bop b) = (is_aggregate_argument a \<and> is_aggregate_argument b)"
| "is_aggregate_argument (UnaryOpExpression uop e) = is_aggregate_argument e"
| "is_aggregate_argument _ = False"

fun is_literal_or_aggregate_only :: "'q expression \<Rightarrow> bool" where
  "is_literal_or_aggregate_only (LiteralExpression v) = True"
| "is_literal_or_aggregate_only (FunctionCallExpression name args w) =
     (w \<noteq> None \<or> is_aggregate_function_name name \<and> list_all is_aggregate_argument args)"
| "is_literal_or_aggregate_only (BinaryOpExpression a bop b) =
     (is_literal_or_aggregate_only a \<and> is_literal_or_aggregate_only b)"
| "is_literal_or_aggregate_only (UnaryOpExpression uop e) = is_literal_or_aggregate_only e"
| "is_literal_or_aggregate_only _ = False"

definition matches_group_by :: "select_statement expression \<Rightarrow> select_statement expression list \<Rightarrow> bool" where
  "matches_group_by e group_by = list_ex (expressions_compatible_for_grouping e) group_by"

definition group_column_error :: "select_statement \<Rightarrow> select_statement expression \<Rightarrow> string option" where
  "group_column_error stmt e =
     (if is_wildcard_select_expression e then Some ''SELECT * is not allowed with GROUP BY''
      else if walk_has_aggregate e \<or> walk_has_window e then None
      else if \<not> matches_group_by e (group_by_columns stmt)
      then Some (''Column must appear in GROUP BY or be used in an aggregate: '' @ show_expression e)
      else None)"

definition aggregate_column_error :: "select_statement expression \<Rightarrow> string option" where
  "aggregate_column_error e =
     (if is_wildcard_select_expression e then Some ''SELECT * is not allowed with aggregate functions''
      else if \<not> is_literal_or_aggregate_only e
      then Some (''Column must appear in GROUP BY or be used in an aggregate: '' @ show_expression e)
      else None)"

definition validate_select_for_grouping :: "select_statement \<Rightarrow> string option" where
  "validate_select_for_grouping stmt =
     (let has_group_by = (group_by_columns stmt \<noteq> []); has_aggs = select_has_aggregate stmt in
      if having_condition stmt \<noteq> None \<and> \<not> has_group_by \<and> \<not> has_aggs
      then Some ''HAVING requires GROUP BY or aggregate in SELECT''
      else if has_group_by then first_error (map (\<lambda>(e, alias). group_column_error stmt e) (select_columns stmt))
      else if has_aggs then first_error (map (\<lambda>(e, alias). aggregate_column_error e) (select_columns stmt))
      else None)"

definition validate_window_function ::
    "string \<Rightarrow> nat \<Rightarrow> 'q expression window_spec option \<Rightarrow> string option" where
  "validate_window_function fname argCount w =
     (case w of
        None \<Rightarrow> None
      | Some (WindowSpec partition_by order_by) \<Rightarrow>
          let name = map to_lower fname in
          if \<not> is_window_function_name name then Some (''Unsupported window function: '' @ fname)
          else if order_by = [] then Some ''Window OVER requires ORDER BY in v1''
          else if name \<in> {''row_number'', ''rank'', ''dense_rank''}
          then (if argCount \<noteq> 0 then Some (fname @ ''() takes no arguments'') else None)
          else if name \<in> {''sum'', ''avg''}
          then (if argCount \<noteq> 1 then Some (fname @ ''() OVER requires exactly one argument'') else None)
          else Some (''Unsupported window function: '' @ fname))"

primrec walk_validate_windows :: "'q expression \<Rightarrow> string option" where
  "walk_validate_windows (FunctionCallExpression name args w) =
     first_error (validate_window_function name (length args) w # map walk_validate_windows args)"
| "walk_validate_windows (BinaryOpExpression a bop b) =
     first_error [walk_validate_windows a, walk_validate_windows b]"
| "walk_validate_windows (UnaryOpExpression uop e) = walk_validate_windows e"
| "walk_validate_windows (CaseExpression pairs els) =
     first_error
       (concat (map (\<lambda>(w, t). [w, t]) (map (map_prod walk_validate_windows walk_validate_windows) pairs)) @
        [case map_option walk_validate_windows els of None \<Rightarrow> None | Some e \<Rightarrow> e])"
| "walk_validate_windows (LiteralExpression v) = None"
| "walk_validate_windows (IdentifierExpression name) = None"
| "walk_validate_windows (ColumnRefExpression t c) = None"
| "walk_validate_windows (ParameterExpression i) = None"
| "walk_validate_windows (CastExpression e t) = None"
| "walk_validate_windows (InExpression l q neg) = None"
| "walk_validate_windows (InListExpression l es neg) = None"
| "walk_validate_windows (ExistsExpression q neg) = None"
| "walk_validate_windows (SubqueryExpression q) = None"

definition validate_select_for_windows :: "select_statement \<Rightarrow> string option" where
  "validate_select_for_windows stmt = first_error (map (\<lambda>(e, alias). walk_validate_windows e) (select_columns stmt))"

section \<open>Window functions\<close>

datatype window_function =
    RowNumber i64
  | Rank i64 i64
  | DenseRank i64 bool
  | RunningSum sql_value bool
  | RunningAvg double i64

definition make_window_function :: "string \<Rightarrow> window_function option" where
  "make_window_function name =
     (let n = map to_lower name in
      if n = ''row_number'' then Some (RowNumber 0)
      else if n = ''rank'' then Some (Rank 0 0)
      else if n = ''dense_rank'' then Some (DenseRank 0 True)
      else if n = ''sum'' then Some (RunningSum NullV False)
      else if n = ''avg'' then Some (RunningAvg 0 0)
      else None)"

fun resetPartition :: "window_function \<Rightarrow> window_function" where
  "resetPartition (RowNumber n) = RowNumber 0"
| "resetPartition (Rank n k) = Rank 0 0"
| "resetPartition (DenseRank k first) = DenseRank 0 True"
| "resetPartition (RunningSum run has) = RunningSum (IntV 0) False"
| "resetPartition (RunningAvg run cnt) = RunningAvg 0 0"

fun consumeRow :: "window_function \<Rightarrow> sql_value \<Rightarrow> bool \<Rightarrow> window_function result" where
  "consumeRow (RowNumber n) arg peer = Inr (RowNumber (n + 1))"
| "consumeRow (Rank n k) arg peer =
     (let n' = n + 1 in Inr (Rank n' (if \<not> peer \<or> n' = 1 then n' else k)))"
| "consumeRow (DenseRank k first) arg peer =
     Inr (if first \<or> \<not> peer then DenseRank (k + 1) False else DenseRank k first)"
| "consumeRow (RunningSum run has) arg peer =
     (if is_null arg then Inr (RunningSum run has)
      else if \<not> has then Inr (RunningSum arg True)
      else bindR (value_add run arg) (\<lambda>s. Inr (RunningSum s has)))"
| "consumeRow (RunningAvg run cnt) arg peer =
     (if is_null arg then Inr (RunningAvg run cnt)
      else bindR (as_float arg) (\<lambda>d. Inr (RunningAvg (d_add run d) (cnt + 1))))"

fun currentValue :: "window_function \<Rightarrow> sql_value" where
  "currentValue (RowNumber n) = IntV n"
| "currentValue (Rank n k) = IntV k"
| "currentValue (DenseRank k first) = IntV k"
| "currentValue (RunningSum run has) = (if \<not> has then NullV else run)"
| "currentValue (RunningAvg run cnt) =
     (if cnt = 0 then NullV else FloatV (d_div run (i64_to_double cnt)))"

fun comparePartitionKeys ::
    "(tuple \<Rightarrow> 'e \<Rightarrow> sql_value result) \<Rightarrow> tuple \<Rightarrow> tuple \<Rightarrow> 'e list \<Rightarrow> int result" where
  "comparePartitionKeys val ra rb [] = Inr 0"
| "comparePartitionKeys val ra rb (e # es) =
     bindR (val ra e) (\<lambda>va. bindR (val rb e) (\<lambda>vb.
     if value_eq va vb then comparePartitionKeys val ra rb es
     else if is_null va then Inr (-1)
     else if is_null vb then Inr 1
     else Inr (if value_less va vb then -1 else 1)))"

text \<open>Column index, function name, arguments and window of each windowed column.\<close>

fun collect_windows ::
    "nat \<Rightarrow> (select_statement expression \<times> string) list \<Rightarrow>
     (nat \<times> string \<times> select_statement expression list \<times> select_statement expression window_spec) list" where
  "collect_windows i [] = []"
| "collect_windows i ((e, alias) # cols) =
     (if is_wildcard_select_expression e then collect_windows i cols
      else case e of
        FunctionCallExpression name args (Some w) \<Rightarrow> (i, name, args, w) # collect_windows (Suc i) cols
      | _ \<Rightarrow> collect_windows (Suc i) cols)"

text \<open>The loop over the sorted row indices; \<open>prev\<close> is the index before.\<close>

fun window_loop ::
    "(tuple \<Rightarrow> 'e \<Rightarrow> sql_value result) \<Rightarrow> 'e list \<Rightarrow> ('e \<times> bool) list \<Rightarrow> 'e list \<Rightarrow> nat \<Rightarrow>
     window_function \<Rightarrow> nat option \<Rightarrow> nat list \<Rightarrow> tuple list \<Rightarrow> tuple list result" where
  "window_loop val partition_by order_by args col wfn prev [] rows = Inr rows"
| "window_loop val partition_by order_by args col wfn prev (i # is) rows =
     (let current = rows ! i in
      bindR (case prev of
          None \<Rightarrow> Inr True
        | Some p \<Rightarrow> bindR (comparePartitionKeys val (rows ! p) current partition_by) (\<lambda>c. Inr (c \<noteq> 0))) (\<lambda>start.
      let wf1 = (if start then resetPartition wfn else wfn) in
      bindR (if start then Inr False
             else bindR (compare_expression_list val (rows ! the prev) current order_by) (\<lambda>c. Inr (c = 0))) (\<lambda>peer.
      bindR (case args of [] \<Rightarrow> Inr NullV | e # _ \<Rightarrow> val current e) (\<lambda>arg.
      bindR (consumeRow wf1 arg peer) (\<lambda>wf2.
      window_loop val partition_by order_by args col wf2 (Some i) is
        (if col < length current then rows[i := current[col := currentValue wf2]] else rows))))))"

definition applyOneWindow ::
    "(select_statement, unit) evaluator \<Rightarrow>
     nat \<times> string \<times> select_statement expression list \<times> select_statement expression window_spec \<Rightarrow>
     query_result \<Rightarrow> query_result result" where
  "applyOneWindow ev c res =
     (case c of (col, name, args, WindowSpec partition_by order_by) \<Rightarrow>
        case make_window_function name of
          None \<Rightarrow> Inr res
        | Some wfn \<Rightarrow>
            let val = result_value ev; rows = result_rows res in
            bindR (stable_sort (\<lambda>l r.
                bindR (comparePartitionKeys val (rows ! l) (rows ! r) partition_by) (\<lambda>pc.
                if pc \<noteq> 0 then Inr (pc < 0)
                else bindR (compare_expression_list val (rows ! l) (rows ! r) order_by) (\<lambda>c. Inr (c < 0))))
              [0..<length rows]) (\<lambda>indices.
            bindR (window_loop val partition_by order_by args col wfn None indices rows) (\<lambda>rows'.
            Inr (res\<lparr>result_rows := rows'\<rparr>))))"

fun apply_windows ::
    "(select_statement, unit) evaluator \<Rightarrow>
     (nat \<times> string \<times> select_statement expression list \<times> select_statement expression window_spec) list \<Rightarrow>
     query_result \<Rightarrow> query_result result" where
  "apply_windows ev [] res = Inr res"
| "apply_windows ev (c # cs) res = bindR (applyOneWindow ev c res) (apply_windows ev cs)"

definition window_apply :: "select_statement \<Rightarrow> query_result \<Rightarrow> query_result result" where
  "window_apply stmt input =
     (if \<not> success input \<or> \<not> select_has_window stmt then Inr input
      else apply_windows (evaluator_for_result_columns input) (collect_windows 0 (select_columns stmt)) input)"

section \<open>The pipeline after the scan\<close>

definition apply_post_scan :: "select_statement \<Rightarrow> query_result \<Rightarrow> query_result result" where
  "apply_post_scan stmt res =
     (if \<not> success res then Inr res
      else bindR (window_apply stmt res) (\<lambda>r1.
      if \<not> success r1 then Inr r1
      else bindR (distinct_apply stmt r1) (\<lambda>r2.
      if \<not> success r2 then Inr r2
      else bindR (sort_apply stmt r2) (\<lambda>r3.
      if \<not> success r3 then Inr r3
      else Inr (limit_offset_apply stmt r3)))))"

section \<open>Aggregates\<close>

text \<open>Counter and star flag; sum; count and sum; minimum or maximum so far.\<close>

datatype aggregate =
    CountAggregate bool i64 bool
  | SumAggregate bool double
  | AvgAggregate i64 double
  | MinMaxAggregate bool "sql_value option"

fun aggregate_reset :: "aggregate \<Rightarrow> aggregate" where
  "aggregate_reset (CountAggregate star n saw) = CountAggregate star 0 False"
| "aggregate_reset (SumAggregate has s) = SumAggregate False 0"
| "aggregate_reset (AvgAggregate n s) = AvgAggregate 0 0"
| "aggregate_reset (MinMaxAggregate is_min cur) = MinMaxAggregate is_min None"

fun accumulate :: "aggregate \<Rightarrow> sql_value \<Rightarrow> aggregate" where
  "accumulate (CountAggregate star n saw) v =
     CountAggregate star (if star \<or> \<not> is_null v then n + 1 else n) True"
| "accumulate (SumAggregate has s) v =
     (if is_numeric v then SumAggregate True (d_add s (numeric_double v)) else SumAggregate has s)"
| "accumulate (AvgAggregate n s) v =
     (if is_numeric v then AvgAggregate (n + 1) (d_add s (numeric_double v)) else AvgAggregate n s)"
| "accumulate (MinMaxAggregate is_min cur) v =
     (if is_null v then MinMaxAggregate is_min cur
      else case cur of
        None \<Rightarrow> MinMaxAggregate is_min (Some v)
      | Some c \<Rightarrow>
          MinMaxAggregate is_min (Some (if is_min then (if value_less v c then v else c)
                                        else (if value_gt v c then v else c))))"

text \<open>\<^verbatim>\<open>std::round\<close>: to the nearest integer, halves away from zero.\<close>

definition d_round_integral :: "double \<Rightarrow> double" where
  "d_round_integral w =
     (if d_is_nan w \<or> d_is_inf w then w
      else d_round (d_neg w) ((2 * d_magnitude w + d_unit) div (2 * d_unit) * d_unit) 1)"

fun finalize :: "aggregate \<Rightarrow> sql_value result" where
  "finalize (CountAggregate star n saw) = Inr (if star \<and> \<not> saw then IntV 0 else IntV n)"
| "finalize (SumAggregate has s) =
     (if \<not> has then Inr NullV
      else let rounded = d_round_integral s in
        if d_lt (d_abs (d_sub s rounded)) d_epsilon
        then (case d_to_i64 rounded of None \<Rightarrow> Inl UndefinedBehaviour | Some i \<Rightarrow> Inr (IntV i))
        else Inr (FloatV s))"
| "finalize (AvgAggregate n s) = Inr (if n = 0 then NullV else FloatV (d_div s (i64_to_double n)))"
| "finalize (MinMaxAggregate is_min cur) = Inr (case cur of None \<Rightarrow> NullV | Some v \<Rightarrow> v)"

definition is_wildcard_arg :: "'q expression \<Rightarrow> bool" where
  "is_wildcard_arg e =
     (case e of
        IdentifierExpression name \<Rightarrow> name = ''*''
      | ColumnRefExpression t c \<Rightarrow> c = ''*''
      | _ \<Rightarrow> False)"

definition is_count_star :: "string \<Rightarrow> 'q expression list \<Rightarrow> bool" where
  "is_count_star name args =
     (map to_lower name = ''count'' \<and> (case args of [] \<Rightarrow> True | a # _ \<Rightarrow> is_wildcard_arg a))"

definition make_aggregate_function :: "string \<Rightarrow> 'q expression list \<Rightarrow> aggregate option" where
  "make_aggregate_function name args =
     (let n = map to_lower name in
      if n = ''count''
      then Some (CountAggregate (case args of [] \<Rightarrow> True | a # _ \<Rightarrow> is_wildcard_arg a) 0 False)
      else if n = ''sum'' then Some (SumAggregate False 0)
      else if n = ''avg'' then Some (AvgAggregate 0 0)
      else if n = ''min'' then Some (MinMaxAggregate True None)
      else if n = ''max'' then Some (MinMaxAggregate False None)
      else None)"

section \<open>Grouping\<close>

definition group_key_string :: "tuple \<Rightarrow> string" where
  "group_key_string key =
     (case map value_to_string key of
        [] \<Rightarrow> ''''
      | s # ss \<Rightarrow> s @ concat (map (\<lambda>t. CHR 0x1F # t) ss))"

text \<open>An aggregate call: its text, its function name and its arguments.\<close>

type_synonym aggregate_call = "string \<times> string \<times> select_statement expression list"

primrec aggregate_calls :: "select_statement expression \<Rightarrow> aggregate_call list" where
  "aggregate_calls (FunctionCallExpression name args w) =
     (if w \<noteq> None then concat (map aggregate_calls args)
      else if is_aggregate_function_name name
      then [(show_expression (FunctionCallExpression name args w), name, args)]
      else concat (map aggregate_calls args))"
| "aggregate_calls (BinaryOpExpression a bop b) = aggregate_calls a @ aggregate_calls b"
| "aggregate_calls (UnaryOpExpression uop e) = aggregate_calls e"
| "aggregate_calls (CaseExpression pairs els) =
     concat (map (\<lambda>(a, b). a @ b) (map (map_prod aggregate_calls aggregate_calls) pairs)) @
     (case map_option aggregate_calls els of None \<Rightarrow> [] | Some cs \<Rightarrow> cs)"
| "aggregate_calls (LiteralExpression v) = []"
| "aggregate_calls (IdentifierExpression name) = []"
| "aggregate_calls (ColumnRefExpression t c) = []"
| "aggregate_calls (ParameterExpression i) = []"
| "aggregate_calls (CastExpression e t) = []"
| "aggregate_calls (InExpression l q neg) = []"
| "aggregate_calls (InListExpression l es neg) = []"
| "aggregate_calls (ExistsExpression q neg) = []"
| "aggregate_calls (SubqueryExpression q) = []"

text \<open>Each text once, at its first occurrence.\<close>

fun keep_first :: "string list \<Rightarrow> aggregate_call list \<Rightarrow> aggregate_call list" where
  "keep_first seen [] = []"
| "keep_first seen (c # cs) =
     (if fst c \<in> set seen then keep_first seen cs else c # keep_first (fst c # seen) cs)"

definition collect_aggregate_expressions :: "select_statement \<Rightarrow> aggregate_call list" where
  "collect_aggregate_expressions stmt =
     keep_first [] (concat (map (\<lambda>(e, alias). aggregate_calls e) (select_columns stmt)) @
       (case having_condition stmt of None \<Rightarrow> [] | Some h \<Rightarrow> aggregate_calls h))"

record group_state =
  group_rows :: "row list"
  aggregates :: "(string \<times> aggregate) list"

fun put :: "'k \<Rightarrow> 'v \<Rightarrow> ('k \<times> 'v) list \<Rightarrow> ('k \<times> 'v) list" where
  "put k v [] = [(k, v)]"
| "put k v ((k', v') # xs) = (if k = k' then (k, v) # xs else (k', v') # put k v xs)"

definition fresh_aggregates :: "aggregate_call list \<Rightarrow> (string \<times> aggregate) list" where
  "fresh_aggregates calls =
     foldl (\<lambda>m (text, name, args).
       case make_aggregate_function name args of None \<Rightarrow> m | Some a \<Rightarrow> put text (aggregate_reset a) m) [] calls"

fun accumulate_calls ::
    "nat \<Rightarrow> (select_statement, 's) evaluator \<Rightarrow> row \<Rightarrow> aggregate_call list \<Rightarrow> (string \<times> aggregate) list \<Rightarrow>
     ('s eval_state, (string \<times> aggregate) list) proc" where
  "accumulate_calls depth ev r [] aggs = ret aggs"
| "accumulate_calls depth ev r ((text, name, args) # calls) aggs =
     (case map_of aggs text of
        None \<Rightarrow> accumulate_calls depth ev r calls aggs
      | Some a \<Rightarrow>
          bindM (if is_count_star name args \<or> args = [] then ret (IntV 1)
                 else with_message None (evaluate_expression depth ev r (hd args))) (\<lambda>v.
          accumulate_calls depth ev r calls (put text (accumulate a v) aggs)))"

definition group_row ::
    "nat \<Rightarrow> (select_statement, 's) evaluator \<Rightarrow> select_statement expression list \<Rightarrow> aggregate_call list \<Rightarrow>
     row \<Rightarrow> (string \<times> group_state) list \<Rightarrow> ('s eval_state, (string \<times> group_state) list) proc" where
  "group_row depth ev group_by calls r groups =
     bindM (evaluate_values depth ev r group_by) (\<lambda>key.
     let key_str = group_key_string key;
         st = (case map_of groups key_str of
                 Some st \<Rightarrow> st | None \<Rightarrow> \<lparr>group_rows = [], aggregates = []\<rparr>);
         st1 = (if group_rows st = []
                then st\<lparr>group_rows := [r],
                  aggregates := foldl (\<lambda>m (k, a). put k a m) (aggregates st) (fresh_aggregates calls)\<rparr>
                else st\<lparr>group_rows := group_rows st @ [r]\<rparr>)
     in bindM (accumulate_calls depth ev r calls (aggregates st1)) (\<lambda>aggs.
        ret (put key_str (st1\<lparr>aggregates := aggs\<rparr>) groups)))"

fun group_input ::
    "nat \<Rightarrow> (select_statement, 's) evaluator \<Rightarrow> select_statement expression list \<Rightarrow> aggregate_call list \<Rightarrow>
     row list \<Rightarrow> (string \<times> group_state) list \<Rightarrow> ('s eval_state, (string \<times> group_state) list) proc" where
  "group_input depth ev group_by calls [] groups = ret groups"
| "group_input depth ev group_by calls (r # rs) groups =
     bindM (group_row depth ev group_by calls r groups) (group_input depth ev group_by calls rs)"

definition aggregate_binary :: "binary_op \<Rightarrow> sql_value \<Rightarrow> sql_value \<Rightarrow> sql_value result" where
  "aggregate_binary bop left right =
     (case bop of
        AND_OP \<Rightarrow> bindR (as_bool left) (\<lambda>x. if x then bindR (as_bool right) (\<lambda>y. Inr (BoolV y)) else Inr (BoolV False))
      | OR_OP \<Rightarrow> bindR (as_bool left) (\<lambda>x. if x then Inr (BoolV True) else bindR (as_bool right) (\<lambda>y. Inr (BoolV y)))
      | _ \<Rightarrow> if is_comparison bop then Inr (BoolV (compare_values bop left right))
             else binary_value bop left right)"

fun evaluate_with_aggregate_map ::
    "nat \<Rightarrow> (select_statement, 's) evaluator \<Rightarrow> row \<Rightarrow> (string \<times> sql_value) list \<Rightarrow>
     select_statement expression \<Rightarrow> ('s eval_state, sql_value) proc"
and evaluate_aggregate_arguments ::
    "nat \<Rightarrow> (select_statement, 's) evaluator \<Rightarrow> row \<Rightarrow> (string \<times> sql_value) list \<Rightarrow>
     select_statement expression list \<Rightarrow> ('s eval_state, sql_value list) proc" where
  "evaluate_with_aggregate_map depth ev r aggs (FunctionCallExpression name args w) =
     (if is_aggregate_function_name name
      then ret (case map_of aggs (show_expression (FunctionCallExpression name args w)) of
                  Some v \<Rightarrow> v | None \<Rightarrow> NullV)
      else bindM (evaluate_aggregate_arguments depth ev r aggs args) (\<lambda>_.
        with_message None (evaluate_expression depth ev r (FunctionCallExpression name args w))))"
| "evaluate_with_aggregate_map depth ev r aggs (BinaryOpExpression a bop b) =
     bindM (evaluate_with_aggregate_map depth ev r aggs a) (\<lambda>left.
     bindM (evaluate_with_aggregate_map depth ev r aggs b) (\<lambda>right.
     liftR (aggregate_binary bop left right)))"
| "evaluate_with_aggregate_map depth ev r aggs (UnaryOpExpression uop e) =
     bindM (evaluate_with_aggregate_map depth ev r aggs e) (\<lambda>inner.
     liftR (if uop = NOT_OP then bindR (as_bool inner) (\<lambda>b. Inr (BoolV (\<not> b))) else value_sub NullV inner))"
| "evaluate_with_aggregate_map depth ev r aggs e = with_message None (evaluate_expression depth ev r e)"
| "evaluate_aggregate_arguments depth ev r aggs [] = ret []"
| "evaluate_aggregate_arguments depth ev r aggs (e # es) =
     bindM (evaluate_with_aggregate_map depth ev r aggs e) (\<lambda>v.
     bindM (evaluate_aggregate_arguments depth ev r aggs es) (\<lambda>vs. ret (v # vs)))"

definition having_true ::
    "nat \<Rightarrow> (select_statement, 's) evaluator \<Rightarrow> row \<Rightarrow> (string \<times> sql_value) list \<Rightarrow>
     select_statement expression \<Rightarrow> ('s eval_state, bool) proc" where
  "having_true depth ev r aggs having =
     bindM (evaluate_with_aggregate_map depth ev r aggs having) (\<lambda>v.
     if is_null v then ret False else liftR (as_bool v))"

definition column_header :: "select_statement expression \<times> string \<Rightarrow> string" where
  "column_header c = (case c of (e, alias) \<Rightarrow> if alias \<noteq> '''' then alias else show_expression e)"

fun matching_key ::
    "select_statement expression \<Rightarrow> select_statement expression list \<Rightarrow> tuple \<Rightarrow> sql_value option" where
  "matching_key e (g # gs) (k # ks) =
     (if expressions_compatible_for_grouping e g then Some k else matching_key e gs ks)"
| "matching_key e _ _ = None"

definition select_non_aggregate_value ::
    "nat \<Rightarrow> (select_statement, 's) evaluator \<Rightarrow> select_statement expression list \<Rightarrow> tuple \<Rightarrow> row \<Rightarrow>
     select_statement expression \<Rightarrow> ('s eval_state, sql_value) proc" where
  "select_non_aggregate_value depth ev group_by group_key rep e =
     (case matching_key e group_by group_key of
        Some v \<Rightarrow> ret v
      | None \<Rightarrow> with_message None (evaluate_expression depth ev rep e))"

definition group_output_value ::
    "nat \<Rightarrow> (select_statement, 's) evaluator \<Rightarrow> select_statement expression list \<Rightarrow> tuple \<Rightarrow> row \<Rightarrow>
     (string \<times> sql_value) list \<Rightarrow> select_statement expression \<Rightarrow> ('s eval_state, sql_value) proc" where
  "group_output_value depth ev group_by group_key rep finalized e =
     (case e of
        FunctionCallExpression name args (Some w) \<Rightarrow> ret NullV
      | _ \<Rightarrow>
        if walk_has_aggregate e
        then (case e of
            FunctionCallExpression name args w \<Rightarrow>
              if is_aggregate_function_name name
              then ret (case map_of finalized (show_expression e) of Some v \<Rightarrow> v | None \<Rightarrow> NullV)
              else evaluate_with_aggregate_map depth ev rep finalized e
          | _ \<Rightarrow> evaluate_with_aggregate_map depth ev rep finalized e)
        else select_non_aggregate_value depth ev group_by group_key rep e)"

fun group_output_row ::
    "nat \<Rightarrow> (select_statement, 's) evaluator \<Rightarrow> select_statement expression list \<Rightarrow> tuple \<Rightarrow> row \<Rightarrow>
     (string \<times> sql_value) list \<Rightarrow> (select_statement expression \<times> string) list \<Rightarrow> ('s eval_state, tuple) proc" where
  "group_output_row depth ev group_by group_key rep finalized [] = ret []"
| "group_output_row depth ev group_by group_key rep finalized ((e, alias) # cols) =
     bindM (group_output_value depth ev group_by group_key rep finalized e) (\<lambda>v.
     bindM (group_output_row depth ev group_by group_key rep finalized cols) (\<lambda>vs. ret (v # vs)))"

fun group_output ::
    "nat \<Rightarrow> (select_statement, 's) evaluator \<Rightarrow> select_statement \<Rightarrow> group_state list \<Rightarrow>
     ('s eval_state, tuple list) proc" where
  "group_output depth ev stmt [] = ret []"
| "group_output depth ev stmt (st # sts) =
     bindM (liftR (mapR (\<lambda>(name, a). bindR (finalize a) (\<lambda>v. Inr (name, v))) (aggregates st))) (\<lambda>finalized.
     let rep = (case group_rows st of [] \<Rightarrow> make_row [] | r # _ \<Rightarrow> r) in
     bindM (case having_condition stmt of
         None \<Rightarrow> ret True | Some h \<Rightarrow> having_true depth ev rep finalized h) (\<lambda>keep.
     if \<not> keep then group_output depth ev stmt sts
     else bindM (evaluate_values depth ev rep (group_by_columns stmt)) (\<lambda>group_key.
       bindM (group_output_row depth ev (group_by_columns stmt) group_key rep finalized (select_columns stmt)) (\<lambda>out.
       bindM (group_output depth ev stmt sts) (\<lambda>rows. ret (out # rows))))))"

text \<open>\<open>arrange\<close> is the iteration order of the \<^verbatim>\<open>unordered_map\<close> of the groups.\<close>

definition group_apply ::
    "(group_state list \<Rightarrow> group_state list) \<Rightarrow> nat \<Rightarrow> (select_statement, 's) evaluator \<Rightarrow> select_statement \<Rightarrow>
     row list \<Rightarrow> ('s eval_state, query_result) proc" where
  "group_apply arrange depth ev stmt input =
     (if select_columns stmt = [] then ret (error_result ''No columns selected'')
      else let calls = collect_aggregate_expressions stmt in
        bindM (group_input depth ev (group_by_columns stmt) calls input []) (\<lambda>groups0.
        let groups = (if groups0 = [] \<and> calls \<noteq> []
                      then [(group_key_string [], \<lparr>group_rows = [], aggregates = fresh_aggregates calls\<rparr>)]
                      else groups0)
        in bindM (group_output depth ev stmt (arrange (map snd groups))) (\<lambda>rows.
           ret ((success_result ''SELECT OK'')\<lparr>column_names := map column_header (select_columns stmt),
             result_rows := rows, affected_rows := int (length rows)\<rparr>))))"

section \<open>Projection\<close>

text \<open>A table contributes its column names; \<open>None\<close> stops the query with the message.\<close>

definition select_header :: "string list \<Rightarrow> select_statement expression \<times> string \<Rightarrow> string list" where
  "select_header table_columns c =
     (case c of (e, alias) \<Rightarrow>
        if is_wildcard_select_expression e then table_columns
        else if alias \<noteq> '''' then [alias] else [show_expression e])"

fun project_row ::
    "nat \<Rightarrow> (select_statement, 's) evaluator \<Rightarrow> row \<Rightarrow> (select_statement expression \<times> string) list \<Rightarrow>
     ('s eval_state, string + tuple) proc" where
  "project_row depth ev r [] = ret (Inr [])"
| "project_row depth ev r ((e, alias) # cols) =
     (let continue = (\<lambda>vs. bindM (project_row depth ev r cols) (\<lambda>rest.
            ret (case rest of Inl m \<Rightarrow> Inl m | Inr ws \<Rightarrow> Inr (vs @ ws))))
      in if is_wildcard_select_expression e then continue (row_values r)
         else case e of
           FunctionCallExpression name args (Some w) \<Rightarrow> continue [NullV]
         | _ \<Rightarrow>
           bindM (with_message (Some '''') (bindM (evaluate_expression depth ev r e) (\<lambda>v.
              bindM (readM error_msg) (\<lambda>m. ret (v, the m))))) (\<lambda>(v, m).
           if m \<noteq> '''' then ret (Inl m) else continue [v]))"

fun project_rows ::
    "nat \<Rightarrow> (select_statement, 's) evaluator \<Rightarrow> (select_statement expression \<times> string) list \<Rightarrow> row list \<Rightarrow>
     ('s eval_state, string + tuple list) proc" where
  "project_rows depth ev cols [] = ret (Inr [])"
| "project_rows depth ev cols (r # rs) =
     bindM (project_row depth ev r cols) (\<lambda>out.
     case out of
       Inl m \<Rightarrow> ret (Inl m)
     | Inr vs \<Rightarrow> bindM (project_rows depth ev cols rs) (\<lambda>rest.
         ret (case rest of Inl m \<Rightarrow> Inl m | Inr rows \<Rightarrow> Inr (vs # rows))))"

text \<open>\<^verbatim>\<open>SelectExecutor::execute\<close> from the filtered rows on.\<close>

definition select_output ::
    "(group_state list \<Rightarrow> group_state list) \<Rightarrow> nat \<Rightarrow> (select_statement, 's) evaluator \<Rightarrow> string list \<Rightarrow>
     select_statement \<Rightarrow> row list \<Rightarrow> ('s eval_state, query_result) proc" where
  "select_output arrange depth ev table_columns stmt filtered_rows =
     (case first_error [validate_select_for_grouping stmt, validate_select_for_windows stmt] of
        Some err \<Rightarrow> ret (error_result err)
      | None \<Rightarrow>
        if needs_grouping stmt
        then bindM (group_apply arrange depth ev stmt filtered_rows) (\<lambda>grouped.
          if \<not> success grouped then ret grouped else liftR (apply_post_scan stmt grouped))
        else if select_columns stmt = [] then ret (error_result ''No columns selected'')
        else bindM (project_rows depth ev (select_columns stmt) filtered_rows) (\<lambda>out.
          case out of
            Inl m \<Rightarrow> ret (error_result m)
          | Inr rows \<Rightarrow> liftR (apply_post_scan stmt
              ((success_result ''SELECT OK'')\<lparr>
                 column_names := concat (map (select_header table_columns) (select_columns stmt)),
                 result_rows := rows, affected_rows := int (length rows)\<rparr>))))"

section \<open>Subquery callbacks\<close>

text \<open>\<open>run_select\<close> executes a nested SELECT.\<close>

definition evaluate_scalar_subquery ::
    "('q \<Rightarrow> ('s eval_state, query_result) proc) \<Rightarrow> 'q \<Rightarrow> ('s eval_state, sql_value) proc" where
  "evaluate_scalar_subquery run_select q =
     bindM (run_select q) (\<lambda>res.
     if \<not> success res then fail_with (message res)
     else case result_rows res of
       [] \<Rightarrow> ret NullV
     | r # rs \<Rightarrow>
         if rs \<noteq> [] \<or> length r \<noteq> 1
         then fail_with ''Scalar subquery must return at most one row and one column''
         else ret (r ! 0))"

fun in_subquery_scan :: "sql_value \<Rightarrow> bool \<Rightarrow> tuple list \<Rightarrow> bool \<times> bool" where
  "in_subquery_scan left saw_null [] = (False, saw_null)"
| "in_subquery_scan left saw_null (r # rs) =
     (case r of
        [] \<Rightarrow> in_subquery_scan left saw_null rs
      | v # _ \<Rightarrow>
          if is_null v then in_subquery_scan left True rs
          else if value_eq v left then (True, saw_null)
          else in_subquery_scan left saw_null rs)"

definition evaluate_in_subquery ::
    "('q \<Rightarrow> ('s eval_state, query_result) proc) \<Rightarrow> sql_value \<Rightarrow> 'q \<Rightarrow> bool \<Rightarrow> ('s eval_state, bool) proc" where
  "evaluate_in_subquery run_select left q neg =
     bindM (run_select q) (\<lambda>res.
     if \<not> success res then bindM (set_error (message res)) (\<lambda>_. ret False)
     else if is_null left then ret False
     else case in_subquery_scan left False (result_rows res) of (found, saw_null) \<Rightarrow>
       ret (if found then \<not> neg else if saw_null then False else neg))"

definition evaluate_exists_subquery ::
    "('q \<Rightarrow> ('s eval_state, query_result) proc) \<Rightarrow> 'q \<Rightarrow> ('s eval_state, bool) proc" where
  "evaluate_exists_subquery run_select q =
     bindM (run_select q) (\<lambda>res.
     if \<not> success res then bindM (set_error (message res)) (\<lambda>_. ret False)
     else ret (result_rows res \<noteq> []))"

definition bind_subquery_evaluators ::
    "('q \<Rightarrow> ('s eval_state, query_result) proc) \<Rightarrow> 'q catalog \<Rightarrow> (string \<rightharpoonup> sql_value) option \<Rightarrow>
     ('q, 's) evaluator \<Rightarrow> ('q, 's) evaluator" where
  "bind_subquery_evaluators run_select catalog locals ev =
     ev\<lparr>routine_catalog := Some catalog,
        local_variables := (case locals of None \<Rightarrow> local_variables ev | Some m \<Rightarrow> m),
        scalar_subquery_fn := Some (evaluate_scalar_subquery run_select),
        in_subquery_fn := Some (evaluate_in_subquery run_select),
        exists_subquery_fn := Some (evaluate_exists_subquery run_select)\<rparr>"

section \<open>Sample statements\<close>

definition sample_select ::
    "(select_statement expression \<times> string) list \<Rightarrow> select_statement expression list \<Rightarrow>
     (select_statement expression \<times> bool) list \<Rightarrow> bool \<Rightarrow> int \<Rightarrow> int \<Rightarrow> select_statement" where
  "sample_select cols grp ord dst lmt off = SelectStatement cols ''t'' ''t'' None grp None ord [] dst lmt off"

text \<open>\<^verbatim>\<open>SELECT *, ROW_NUMBER() OVER (ORDER BY a) FROM t\<close>\<close>

definition numbered_select :: select_statement where
  "numbered_select =
     sample_select
       [(IdentifierExpression ''*'', ''''),
        (FunctionCallExpression ''ROW_NUMBER'' [] (Some (WindowSpec [] [(IdentifierExpression ''a'', True)])), ''n'')]
       [] [] False (-1) 0"

definition sample_result :: "string list \<Rightarrow> tuple list \<Rightarrow> query_result" where
  "sample_result cols rows = (success_result ''SELECT OK'')\<lparr>column_names := cols, result_rows := rows\<rparr>"

section \<open>The pipeline\<close>

lemma evaluator_columns [simp]:
  "evaluator_for_result_columns (res\<lparr>result_rows := rows\<rparr>) = evaluator_for_result_columns res"
  "evaluator_for_result_columns (res\<lparr>affected_rows := n\<rparr>) = evaluator_for_result_columns res"
  by (simp_all add: evaluator_for_result_columns_def)

lemma limit_offset_fields [simp]:
  "success (limit_offset_apply stmt res) = success res"
  "column_names (limit_offset_apply stmt res) = column_names res"
  by (simp_all add: limit_offset_apply_def Let_def)

lemma distinct_stage:
  assumes "success res" "is_distinct stmt \<longrightarrow> (\<forall>r \<in> set (result_rows res). index_dom ts r)"
  obtains rows n where "distinct_apply stmt res = Inr (res\<lparr>result_rows := rows, affected_rows := n\<rparr>)"
    "if is_distinct stmt then distinct rows \<and> set rows = set (result_rows res) else mset rows = mset (result_rows res)"
proof (cases "is_distinct stmt")
  case True
  with assms(2) have dom: "\<forall>r \<in> set (result_rows res). index_dom ts r" by blast
  obtain rows where rows: "distinct_apply stmt res = Inr (res\<lparr>result_rows := rows, affected_rows := int (length rows)\<rparr>)"
    "distinct rows" "set rows = set (result_rows res)"
    by (rule distinct_apply_ok[OF assms(1) True dom])
  from rows(1) show ?thesis by (rule that) (simp add: True rows(2,3))
next
  case False
  then have "distinct_apply stmt res = Inr (res\<lparr>result_rows := result_rows res, affected_rows := affected_rows res\<rparr>)"
    by (simp add: distinct_apply_def)
  then show ?thesis by (rule that) (simp add: False)
qed

lemma sort_stage:
  assumes "success res"
    and "\<forall>r \<in> set (result_rows res).
      keyed (result_value (evaluator_for_result_columns res)) (order_by_columns stmt) ds key r"
  obtains rows where "sort_apply stmt res = Inr (res\<lparr>result_rows := rows\<rparr>)" "mset rows = mset (result_rows res)"
    "sorted_wrt (\<lambda>a b. \<not> order_less ds (key b) (key a)) rows"
proof (cases "order_by_columns stmt = []")
  case True
  have "ds = []" if "result_rows res \<noteq> []"
    using assms(2) True that by (cases "result_rows res") (auto simp: keyed_def)
  then have "sorted_wrt (\<lambda>a b. \<not> order_less ds (key b) (key a)) (result_rows res)"
    by (cases "result_rows res = []") (simp_all add: order_less_def)
  with True that[of "result_rows res"] show ?thesis by (simp add: sort_apply_def)
next
  case False
  obtain rows where "sort_apply stmt res = Inr (res\<lparr>result_rows := rows\<rparr>)" "mset rows = mset (result_rows res)"
    "sorted_wrt (\<lambda>a b. \<not> order_less ds (key b) (key a)) rows"
    by (rule sort_apply_ok[OF assms(1) False assms(2)])
  then show ?thesis by (rule that)
qed

lemma pipeline_stages:
  assumes "success res" "\<not> select_has_window stmt"
    and "is_distinct stmt \<longrightarrow> (\<forall>r \<in> set (result_rows res). index_dom ts r)"
    and "\<forall>r \<in> set (result_rows res).
      keyed (result_value (evaluator_for_result_columns res)) (order_by_columns stmt) ds key r"
  obtains out rows where "apply_post_scan stmt res = Inr out" "success out" "column_names out = column_names res"
    "if is_distinct stmt then distinct rows \<and> set rows = set (result_rows res) else mset rows = mset (result_rows res)"
    "sorted_wrt (\<lambda>a b. \<not> order_less ds (key b) (key a)) rows"
    "result_rows out = (if get_limit stmt < 0 then drop (nat (get_offset stmt)) rows
       else take (nat (get_limit stmt)) (drop (nat (get_offset stmt)) rows))"
proof -
  obtain rows1 n where r1: "distinct_apply stmt res = Inr (res\<lparr>result_rows := rows1, affected_rows := n\<rparr>)"
    "if is_distinct stmt then distinct rows1 \<and> set rows1 = set (result_rows res) else mset rows1 = mset (result_rows res)"
    by (rule distinct_stage[OF assms(1,3)])
  let ?r1 = "res\<lparr>result_rows := rows1, affected_rows := n\<rparr>"
  have sets: "set rows1 = set (result_rows res)"
    using r1(2) by (metis set_mset_mset)
  have "\<forall>r \<in> set (result_rows ?r1).
      keyed (result_value (evaluator_for_result_columns ?r1)) (order_by_columns stmt) ds key r"
    using assms(4) sets by simp
  then obtain rows2 where r2: "sort_apply stmt ?r1 = Inr (?r1\<lparr>result_rows := rows2\<rparr>)" "mset rows2 = mset rows1"
    "sorted_wrt (\<lambda>a b. \<not> order_less ds (key b) (key a)) rows2"
    using sort_stage[of ?r1 stmt ds key] assms(1) by (auto)
  have perm: "distinct rows2 = distinct rows1" "set rows2 = set rows1"
    using r2(2) by (metis mset_eq_imp_distinct_iff, metis set_mset_mset)
  show ?thesis
  proof
    show "apply_post_scan stmt res = Inr (limit_offset_apply stmt (?r1\<lparr>result_rows := rows2\<rparr>))"
      using assms(1,2) r1(1) r2(1) by (simp add: apply_post_scan_def window_apply_def)
    show "if is_distinct stmt then distinct rows2 \<and> set rows2 = set (result_rows res) else mset rows2 = mset (result_rows res)"
      using r1(2) r2(2) perm by (simp split: if_splits)
  qed (use assms(1) r2(3) limit_offset_rows[of "?r1\<lparr>result_rows := rows2\<rparr>" stmt] in simp_all)
qed

section \<open>Subqueries\<close>

lemma in_subquery_scan_list:
  "\<forall>r \<in> set rows. r \<noteq> [] \<Longrightarrow>
   in_list_scan left saw_null (map hd rows) =
     (case in_subquery_scan left saw_null rows of (found, null) \<Rightarrow> if found then Some True else if null then None else Some False)"
  by (induction rows arbitrary: saw_null) (auto split: list.splits)

text \<open>\<^verbatim>\<open>x IN (SELECT ...)\<close> is \<^verbatim>\<open>x IN (v1, v2, ...)\<close> on the first column of the subquery's rows.\<close>

lemma in_subquery_as_list:
  assumes "run_select q s = (Inr res, t)" "success res" "\<forall>r \<in> set (result_rows res). r \<noteq> []"
  shows "evaluate_in_subquery run_select left q neg s =
    (Inr (in_list_result left (map hd (result_rows res)) neg), t)"
  using assms(1,2) in_subquery_scan_list[OF assms(3), of left False]
  by (auto simp: evaluate_in_subquery_def bindM_def in_list_result_def match_in_list_def split: prod.splits)

section \<open>Grouping\<close>

text \<open>Unary minus over an aggregate always throws: the code subtracts from a NULL value.\<close>

lemma negated_aggregate_throws:
  assumes "evaluate_with_aggregate_map d ev r aggs e s = (Inr v, t)"
  shows "evaluate_with_aggregate_map d ev r aggs (UnaryOpExpression NEG_OP e) s =
    (Inl (TypeException ''Cannot subtract these types''), t)"
  using assms by (simp add: bindM_def value_sub_def)

text \<open>Two groups in SQL, NULL and the text \<^verbatim>\<open>NULL\<close>, share one group key.\<close>

lemma group_key_collision: "group_key_string [NullV] = group_key_string [StringV ''NULL'']"
  by (simp add: group_key_string_def)

section \<open>Properties\<close>

text \<open>C12: The clauses after the scan compose. For a SELECT without window functions whose ORDER BY expressions
  evaluate on every row to values \<open>key\<close> without doubles, the pipeline returns, with the same headers, a
  slice of a list of rows: the list has the input's rows, each once under DISTINCT and as often as before
  otherwise, and is sorted by the ORDER BY keys, NULLs last; the slice is what OFFSET and LIMIT select.\<close>

theorem select_pipeline_correct:
  assumes "success res" "\<not> select_has_window stmt"
    and "is_distinct stmt \<longrightarrow> (\<forall>r \<in> set (result_rows res). index_dom ts r)"
    and "\<forall>r \<in> set (result_rows res).
      keyed (result_value (evaluator_for_result_columns res)) (order_by_columns stmt) ds key r"
  shows "\<exists>out rows. apply_post_scan stmt res = Inr out \<and> success out \<and> column_names out = column_names res \<and>
    (if is_distinct stmt then distinct rows \<and> set rows = set (result_rows res)
     else mset rows = mset (result_rows res)) \<and>
    sorted_wrt (\<lambda>a b. \<not> order_less ds (key b) (key a)) rows \<and>
    result_rows out = (if get_limit stmt < 0 then drop (nat (get_offset stmt)) rows
       else take (nat (get_limit stmt)) (drop (nat (get_offset stmt)) rows))"
  using pipeline_stages[OF assms] by metis

theorem select_pipeline_correct_witness:
  "\<exists>out rows. apply_post_scan
      (sample_select [(IdentifierExpression ''a'', '''')] [] [(IdentifierExpression ''a'', False)] True 1 1)
      (sample_result [''a''] [[IntV 4], [NullV], [IntV 9], [IntV 4]]) = Inr out \<and>
    distinct rows \<and> set rows = {[IntV 4], [NullV], [IntV 9]} \<and>
    sorted_wrt (\<lambda>a b. \<not> order_less [(INT_T, False)] b a) rows \<and> result_rows out = take 1 (drop 1 rows)"
proof -
  let ?res = "sample_result [''a''] [[IntV 4], [NullV], [IntV 9], [IntV 4]]"
  let ?stmt = "sample_select [(IdentifierExpression ''a'', '''')] [] [(IdentifierExpression ''a'', False)] True 1 1"
  have val: "result_value (evaluator_for_result_columns ?res) [v] (IdentifierExpression ''a'') = Inr v" for v
    by (simp add: result_value_def evaluator_for_result_columns_def sample_result_def make_evaluator_def
        evaluate_column_ref_def resolve_column_index_def binding_matches_def get_value_def get_column_count_def
        make_row_def)
  have 1: "success ?res" "\<not> select_has_window ?stmt"
    by (simp_all add: sample_result_def success_result_def sample_select_def select_has_window_def)
  have 2: "is_distinct ?stmt \<longrightarrow> (\<forall>r \<in> set (result_rows ?res). index_dom [INT_T] r)"
    by (simp add: sample_result_def exact_of_def)
  have 3: "\<forall>r \<in> set (result_rows ?res).
      keyed (result_value (evaluator_for_result_columns ?res)) (order_by_columns ?stmt) [(INT_T, False)] id r"
    using val by (simp add: sample_result_def[of _ "[_, _, _, _]"] keyed_def order_dom_def exact_of_def sample_select_def)
  have fields: "is_distinct ?stmt" "get_limit ?stmt = 1" "get_offset ?stmt = 1"
    "set (result_rows ?res) = {[IntV 4], [NullV], [IntV 9]}"
    by (auto simp: sample_select_def sample_result_def)
  from select_pipeline_correct[OF 1 2 3] obtain out rows where
    "apply_post_scan ?stmt ?res = Inr out" "distinct rows" "set rows = {[IntV 4], [NullV], [IntV 9]}"
    "sorted_wrt (\<lambda>a b. \<not> order_less [(INT_T, False)] b a) rows" "result_rows out = take 1 (drop 1 rows)"
    unfolding id_apply by (auto simp: fields)
  then show ?thesis by blast
qed

text \<open>A window function after a wildcard lands in the wrong column. The position of a windowed column is
  counted without the columns a \<^verbatim>\<open>*\<close> before it expands to, so
  \<^verbatim>\<open>SELECT *, ROW_NUMBER() OVER (ORDER BY a) FROM t\<close> overwrites the first column of the table with the
  row number and leaves the window's own column NULL.\<close>

theorem window_overwrites_column:
  "\<exists>out. apply_post_scan numbered_select (sample_result [''a'', ''b'', ''n''] [[v, w, NullV]]) = Inr out \<and>
     result_rows out = [[IntV 1, w, NullV]]"
proof -
  have lower: "map to_lower ''ROW_NUMBER'' = ''row_number''" by code_simp
  have wfn: "make_window_function ''ROW_NUMBER'' = Some (RowNumber 0)"
    unfolding make_window_function_def lower by simp
  show ?thesis
    by (simp add: apply_post_scan_def window_apply_def numbered_select_def sample_select_def sample_result_def
        success_result_def select_has_window_def applyOneWindow_def wfn
        stable_sort_def distinct_apply_def sort_apply_def limit_offset_apply_def)
qed

text \<open>
  Grouping identifies NULL with the text \<^verbatim>\<open>NULL\<close>: \<^verbatim>\<open>SELECT a, COUNT(*) FROM t GROUP BY a\<close> on the two returns
  one group.
\<close>

theorem group_merges_null_text:
  "map_sum id result_rows (fst (group_apply id 0 (make_evaluator '''' [\<lparr>bind_alias = ''t'', physical_table = ''t'', column_name = ''a''\<rparr>])
     (sample_select [(IdentifierExpression ''a'', ''''), (FunctionCallExpression ''COUNT'' [IdentifierExpression ''*''] None, '''')]
       [IdentifierExpression ''a''] [] False (-1) 0)
     [make_row [NullV], make_row [StringV ''NULL'']] \<lparr>frames = [], error_msg = None, database = ()\<rparr>)) =
   Inr [[NullV, IntV 2]]"
  by code_simp

end
