(* ===== verification/Files.thy ===== *)
theory Files
  imports Evaluator
begin

text \<open>
  The file system as the storage code uses it, \<^verbatim>\<open>std::fstream\<close> and \<^verbatim>\<open>std::filesystem\<close>: files are byte strings named by
  paths. A process can be stopped at any moment: \<open>budget\<close> is the number of elementary effects, a byte
  written or a directory operation, left before it stops, so a write can be torn while a rename is atomic.
  A stream can fail to open, for the paths in \<open>denied\<close>; once open, writes go through. What a process wrote
  before it stopped stays written: the model is of process crashes, not of power failures. Directories exist.
\<close>

record disk =
  files :: "string \<rightharpoonup> bytes"
  denied :: "string \<Rightarrow> bool"
  budget :: nat

definition tick :: "(disk, unit) proc" where
  "tick d = (if budget d = 0 then (Inl Halted, d) else (Inr (), d\<lparr>budget := budget d - 1\<rparr>))"

definition contents :: "disk \<Rightarrow> string \<Rightarrow> bytes" where
  "contents d p = (case files d p of None \<Rightarrow> [] | Some bs \<Rightarrow> bs)"

definition set_file :: "string \<Rightarrow> bytes option \<Rightarrow> (disk, unit) proc" where
  "set_file p c = bindM tick (\<lambda>_. modifyM (\<lambda>d. d\<lparr>files := (files d)(p := c)\<rparr>))"

text \<open>Opening an output stream; \<open>msg\<close> is what the code throws when it cannot.\<close>

definition open_trunc :: "string \<Rightarrow> string \<Rightarrow> (disk, unit) proc" where
  "open_trunc msg p d =
     (if denied d p then (Inl (StorageException (msg @ p)), d) else set_file p (Some []) d)"

definition open_append :: "string \<Rightarrow> string \<Rightarrow> (disk, unit) proc" where
  "open_append msg p d =
     (if denied d p then (Inl (StorageException (msg @ p)), d) else set_file p (Some (contents d p)) d)"

definition write_bytes :: "string \<Rightarrow> bytes \<Rightarrow> (disk, unit) proc" where
  "write_bytes p bs d =
     (if length bs \<le> budget d then Inr () else Inl Halted,
      d\<lparr>files := (files d)(p \<mapsto> contents d p @ take (budget d) bs), budget := budget d - length bs\<rparr>)"

definition rename_file :: "string \<Rightarrow> string \<Rightarrow> (disk, unit) proc" where
  "rename_file a b d =
     (case files d a of
        None \<Rightarrow> (Inl (FilesystemError ''filesystem error: cannot rename''), d)
      | Some c \<Rightarrow> bindM tick (\<lambda>_. modifyM (\<lambda>d. d\<lparr>files := (files d)(a := None, b \<mapsto> c)\<rparr>)) d)"

definition remove_file :: "string \<Rightarrow> (disk, unit) proc" where
  "remove_file p = set_file p None"

definition read_file_bytes :: "string \<Rightarrow> (disk, bytes) proc" where
  "read_file_bytes p d =
     (case files d p of
        None \<Rightarrow> (Inl (StorageException (''Cannot read file: '' @ p)), d)
      | Some c \<Rightarrow> (Inr c, d))"

lemma bindM_liftR: "bindM (liftR (Inr x)) f = f x"
  by (simp add: bindM_def fun_eq_iff)

section \<open>Reasoning about procedures that can stop\<close>

text \<open>
  \<open>triple P m Q R\<close>: from a state in \<open>P\<close>, returning leads to \<open>Q\<close> and leaving with an exception, or being
  stopped, to \<open>R\<close>.
\<close>

definition triple :: "('s \<Rightarrow> bool) \<Rightarrow> ('s, 'a) proc \<Rightarrow> ('a \<Rightarrow> 's \<Rightarrow> bool) \<Rightarrow> ('s \<Rightarrow> bool) \<Rightarrow> bool" where
  "triple P m Q R = (\<forall>s. P s \<longrightarrow> (case m s of (Inr x, t) \<Rightarrow> Q x t | (Inl e, t) \<Rightarrow> R t))"

lemma tripleI:
  assumes "\<And>s x t. P s \<Longrightarrow> m s = (Inr x, t) \<Longrightarrow> Q x t" "\<And>s e t. P s \<Longrightarrow> m s = (Inl e, t) \<Longrightarrow> R t"
  shows "triple P m Q R"
  unfolding triple_def
proof (intro allI impI)
  fix s assume "P s"
  then show "case m s of (Inr x, t) \<Rightarrow> Q x t | (Inl e, t) \<Rightarrow> R t"
    using assms by (cases "m s"; cases "fst (m s)") auto
qed

lemma triple_Inr: "triple P m Q R \<Longrightarrow> P s \<Longrightarrow> m s = (Inr x, t) \<Longrightarrow> Q x t"
  by (auto simp: triple_def)

lemma triple_Inl: "triple P m Q R \<Longrightarrow> P s \<Longrightarrow> m s = (Inl e, t) \<Longrightarrow> R t"
  by (auto simp: triple_def)

lemma triple_ret: "(\<And>s. P s \<Longrightarrow> Q x s) \<Longrightarrow> triple P (ret x) Q R"
  by (simp add: triple_def)

lemma triple_bind:
  assumes "triple P m Q R" "\<And>x. triple (Q x) (f x) Q' R"
  shows "triple P (bindM m f) Q' R"
proof (rule tripleI)
  fix s x t assume "P s" "bindM m f s = (Inr x, t)"
  then obtain y u where "m s = (Inr y, u)" "f y u = (Inr x, t)" by (auto simp: bindM_eq_Inr)
  then show "Q' x t" using triple_Inr assms \<open>P s\<close> by metis
next
  fix s e t assume "P s" "bindM m f s = (Inl e, t)"
  then consider "m s = (Inl e, t)" | y u where "m s = (Inr y, u)" "f y u = (Inl e, t)" by (auto simp: bindM_eq_Inl)
  then show "R t"
    by cases (use triple_Inl triple_Inr assms \<open>P s\<close> in metis)+
qed

lemma triple_weaken:
  assumes "triple P m Q R" "\<And>s. P' s \<Longrightarrow> P s" "\<And>x s. Q x s \<Longrightarrow> Q' x s" "\<And>s. R s \<Longrightarrow> R' s"
  shows "triple P' m Q' R'"
  by (rule tripleI) (use assms triple_Inr triple_Inl in metis)+

lemma triple_forM:
  assumes "\<And>xs x ys. zs = xs @ x # ys \<Longrightarrow> triple (I xs) (f x) (\<lambda>_. I (xs @ [x])) R"
  shows "triple (I []) (forM f zs) (\<lambda>_. I zs) R"
proof -
  have "triple (I xs) (forM f ys) (\<lambda>_. I zs) R" if "zs = xs @ ys" for xs ys
    using that
  proof (induction ys arbitrary: xs)
    case Nil
    then show ?case by (simp add: triple_def)
  next
    case (Cons y ys)
    show ?case
      unfolding forM.simps
    proof (rule triple_bind)
      show "triple (I xs) (f y) (\<lambda>_. I (xs @ [y])) R" using assms Cons.prems by blast
      show "triple (I (xs @ [y])) (forM f ys) (\<lambda>_. I zs) R" for x :: unit using Cons by simp
    qed
  qed
  from this [of "[]" zs] show ?thesis by simp
qed

section \<open>Effects of the file operations\<close>

lemma triple_set_file:
  assumes "\<And>d n. P d \<Longrightarrow> budget d = Suc n \<Longrightarrow> Q (d\<lparr>budget := n, files := (files d)(p := c)\<rparr>)"
    and "\<And>d. P d \<Longrightarrow> R d"
  shows "triple P (set_file p c) (\<lambda>_. Q) R"
proof (rule tripleI)
  fix s x t assume "P s" "set_file p c s = (Inr x, t)"
  then show "Q t" using assms(1) [of s "budget s - 1"]
    by (auto simp: set_file_def bindM_def tick_def split: if_splits)
qed (use assms(2) in \<open>auto simp: set_file_def bindM_def tick_def split: if_splits\<close>)

lemma triple_open_trunc:
  assumes "\<And>d n. P d \<Longrightarrow> budget d = Suc n \<Longrightarrow> Q (d\<lparr>budget := n, files := (files d)(p \<mapsto> [])\<rparr>)"
    and "\<And>d. P d \<Longrightarrow> R d"
  shows "triple P (open_trunc msg p) (\<lambda>_. Q) R"
  using triple_set_file [of P Q p "Some []" R, OF assms] assms(2)
  unfolding triple_def open_trunc_def by auto

lemma triple_open_append:
  assumes "\<And>d n. P d \<Longrightarrow> budget d = Suc n \<Longrightarrow> Q (d\<lparr>budget := n, files := (files d)(p \<mapsto> contents d p)\<rparr>)"
    and "\<And>d. P d \<Longrightarrow> R d"
  shows "triple P (open_append msg p) (\<lambda>_. Q) R"
proof -
  have "triple (\<lambda>d. P d \<and> contents d p = c) (set_file p (Some c)) (\<lambda>_. Q) R" for c
    using assms by (intro triple_set_file) auto
  then show ?thesis
    using assms(2) unfolding triple_def open_append_def by (auto split: sum.splits prod.splits)
qed

lemma triple_write_bytes:
  assumes "\<And>d. P d \<Longrightarrow> length bs \<le> budget d \<Longrightarrow>
      Q (d\<lparr>files := (files d)(p \<mapsto> contents d p @ bs), budget := budget d - length bs\<rparr>)"
    and "\<And>d. P d \<Longrightarrow> budget d < length bs \<Longrightarrow>
      R (d\<lparr>files := (files d)(p \<mapsto> contents d p @ take (budget d) bs), budget := 0\<rparr>)"
  shows "triple P (write_bytes p bs) (\<lambda>_. Q) R"
  using assms by (auto simp: triple_def write_bytes_def not_le)

lemma triple_rename:
  assumes "\<And>d c n. P d \<Longrightarrow> files d a = Some c \<Longrightarrow> budget d = Suc n \<Longrightarrow>
      Q (d\<lparr>budget := n, files := (files d)(a := None, b \<mapsto> c)\<rparr>)"
    and "\<And>d. P d \<Longrightarrow> R d"
  shows "triple P (rename_file a b) (\<lambda>_. Q) R"
proof (rule tripleI)
  fix s x t assume "P s" "rename_file a b s = (Inr x, t)"
  then show "Q t" using assms(1) [of s _ "budget s - 1"]
    by (auto simp: rename_file_def bindM_def tick_def split: if_splits option.splits)
qed (use assms(2) in \<open>auto simp: rename_file_def bindM_def tick_def split: if_splits option.splits\<close>)

lemma triple_read_file:
  assumes "\<And>d c. P d \<Longrightarrow> files d p = Some c \<Longrightarrow> Q c d" and "\<And>d. P d \<Longrightarrow> R d"
  shows "triple P (read_file_bytes p) Q R"
  using assms by (auto simp: triple_def read_file_bytes_def split: option.splits)

end
