(* ===== verification/Partitions.thy ===== *)
theory Partitions
  imports Evaluator
begin

text \<open>
  Declarative partitioning: the sargable predicates of \<^verbatim>\<open>src/executor/index_predicate.cc\<close>, the prune requests of
  \<^verbatim>\<open>src/executor/partition_prune.cc\<close>, and the partition metadata, the range and hash routers and the pruning of
  \<^verbatim>\<open>src/core/partition.cc\<close>. The main results are that the partitions of a table never overlap, that a key has
  at most one partition, and that pruning keeps every partition holding a row the WHERE condition accepts.
\<close>

section \<open>Sargable predicates\<close>

datatype index_compare_op = Equal | Less | LessEqual | Greater | GreaterEqual

record index_column_predicate =
  pred_column :: string
  table_qualifier :: string
  pred_op :: index_compare_op
  pred_literal :: sql_value
  has_upper :: bool
  upper_literal :: sql_value
  lower_inclusive :: bool
  upper_inclusive :: bool

text \<open>The qualifier and the column name; both empty for another expression.\<close>

fun column_name_of :: "'q expression \<Rightarrow> string \<times> string" where
  "column_name_of (ColumnRefExpression t c) = (t, c)"
| "column_name_of (IdentifierExpression name) = ('''', name)"
| "column_name_of _ = ('''', '''')"

fun is_literal :: "'q expression \<Rightarrow> sql_value option" where
  "is_literal (LiteralExpression v) = Some v"
| "is_literal _ = None"

definition index_predicate :: "string \<times> string \<Rightarrow> index_compare_op \<Rightarrow> sql_value \<Rightarrow> index_column_predicate" where
  "index_predicate tc cop v =
     \<lparr>pred_column = snd tc, table_qualifier = fst tc, pred_op = cop, pred_literal = v,
      has_upper = False, upper_literal = NullV, lower_inclusive = True, upper_inclusive = True\<rparr>"

fun column_left_op :: "binary_op \<Rightarrow> index_compare_op option" where
  "column_left_op EQ_OP = Some Equal"
| "column_left_op LT_OP = Some Less"
| "column_left_op LE_OP = Some LessEqual"
| "column_left_op GT_OP = Some Greater"
| "column_left_op GE_OP = Some GreaterEqual"
| "column_left_op _ = None"

fun column_right_op :: "binary_op \<Rightarrow> index_compare_op option" where
  "column_right_op EQ_OP = Some Equal"
| "column_right_op LT_OP = Some Greater"
| "column_right_op LE_OP = Some GreaterEqual"
| "column_right_op GT_OP = Some Less"
| "column_right_op GE_OP = Some LessEqual"
| "column_right_op _ = None"

fun try_comparison :: "'q expression \<Rightarrow> index_column_predicate option" where
  "try_comparison (BinaryOpExpression a bop b) =
     (if bop \<notin> {EQ_OP, LT_OP, LE_OP, GT_OP, GE_OP} then None
      else case (if snd (column_name_of a) = '''' then None else is_literal b) of
        Some lit \<Rightarrow> map_option (\<lambda>cop. index_predicate (column_name_of a) cop lit) (column_left_op bop)
      | None \<Rightarrow>
          (case (if snd (column_name_of b) = '''' then None else is_literal a) of
             Some lit \<Rightarrow> map_option (\<lambda>cop. index_predicate (column_name_of b) cop lit) (column_right_op bop)
           | None \<Rightarrow> None))"
| "try_comparison _ = None"

fun collect_predicates :: "'q expression \<Rightarrow> index_column_predicate list option" where
  "collect_predicates (BinaryOpExpression a bop b) =
     (if bop = AND_OP then
        (case collect_predicates a of
           None \<Rightarrow> None
         | Some ps \<Rightarrow> map_option (\<lambda>qs. ps @ qs) (collect_predicates b))
      else if bop = OR_OP then None
      else map_option (\<lambda>p. [p]) (try_comparison (BinaryOpExpression a bop b)))"
| "collect_predicates e = map_option (\<lambda>p. [p]) (try_comparison e)"

definition extract_index_predicates :: "'q expression option \<Rightarrow> index_column_predicate list option" where
  "extract_index_predicates e = (case e of None \<Rightarrow> Some [] | Some c \<Rightarrow> collect_predicates c)"

text \<open>The qualified column names of an equi-join condition.\<close>

fun try_extract_equi_join_columns :: "'q expression \<Rightarrow> ((string \<times> string) \<times> string \<times> string) option" where
  "try_extract_equi_join_columns (BinaryOpExpression a bop b) =
     (if bop \<noteq> EQ_OP then None
      else if snd (column_name_of a) \<noteq> '''' \<and> snd (column_name_of b) \<noteq> ''''
      then Some (column_name_of a, column_name_of b) else None)"
| "try_extract_equi_join_columns _ = None"

section \<open>Partition metadata\<close>

datatype partition_kind = RangeKind | HashKind

record range_partition_bound =
  minInclusive :: sql_value
  maxExclusive :: sql_value

record hash_partition_bound =
  modulus :: i64
  remainder :: i64

record partition_bound =
  range_bound :: "range_partition_bound option"
  hash_bound :: "hash_partition_bound option"

record partition_descriptor =
  childTableName :: string
  part_bound :: partition_bound

datatype prune_op = PruneEqual | PruneLess | PruneLessEqual | PruneGreater | PruneGreaterEqual | PruneBetween

record prune_constraint =
  prune_op :: prune_op
  prune_lower :: sql_value
  prune_upper :: sql_value
  lowerInclusive :: bool
  upperInclusive :: bool

type_synonym prune_request = "prune_constraint list"

record partitioned_table_metadata =
  part_kind :: partition_kind
  key_column :: string
  partitions :: "partition_descriptor list"

definition make_partition_metadata :: "partition_kind \<Rightarrow> string \<Rightarrow> partitioned_table_metadata" where
  "make_partition_metadata k c = \<lparr>part_kind = k, key_column = c, partitions = []\<rparr>"

subsection \<open>Hashing\<close>

definition kFnvOffset :: u64 where
  "kFnvOffset = 14695981039346656037"

definition kFnvPrime :: u64 where
  "kFnvPrime = 1099511628211"

definition mixBytes :: "u64 \<Rightarrow> bytes \<Rightarrow> u64" where
  "mixBytes h bs = foldl (\<lambda>h b. (h XOR ucast b) * kFnvPrime) h bs"

fun type_tag :: "data_type \<Rightarrow> u8" where
  "type_tag INT_T = 0"
| "type_tag FLOAT_T = 1"
| "type_tag STRING_T = 2"
| "type_tag BOOLEAN_T = 3"
| "type_tag DATE_T = 4"
| "type_tag UUID_T = 5"

definition computePartitionHash :: "sql_value \<Rightarrow> u64" where
  "computePartitionHash v =
     (let h = mixBytes kFnvOffset [type_tag (get_type v)] in
      case v of
        NullV \<Rightarrow> h
      | IntV i \<Rightarrow> mixBytes h (le_bytes 8 i)
      | FloatV d \<Rightarrow> mixBytes h (le_bytes 8 d)
      | BoolV b \<Rightarrow> mixBytes h [if b then 1 else 0]
      | StringV s \<Rightarrow> mixBytes h (string_bytes s))"

subsection \<open>Ranges\<close>

definition rangesOverlap :: "range_partition_bound \<Rightarrow> range_partition_bound \<Rightarrow> bool" where
  "rangesOverlap a b =
     (value_less (minInclusive a) (maxExclusive b) \<and> value_less (minInclusive b) (maxExclusive a))"

definition rangeContains :: "range_partition_bound \<Rightarrow> sql_value \<Rightarrow> bool" where
  "rangeContains b k = (value_le (minInclusive b) k \<and> value_less k (maxExclusive b))"

definition rangeIntersectsConstraint :: "range_partition_bound \<Rightarrow> prune_constraint \<Rightarrow> bool" where
  "rangeIntersectsConstraint b c =
     (case prune_op c of
        PruneEqual \<Rightarrow> rangeContains b (prune_lower c)
      | PruneLess \<Rightarrow>
          if \<not> upperInclusive c then value_less (minInclusive b) (prune_upper c)
          else value_le (minInclusive b) (prune_upper c)
      | PruneLessEqual \<Rightarrow> value_le (minInclusive b) (prune_upper c)
      | PruneGreater \<Rightarrow>
          if lowerInclusive c then value_gt (maxExclusive b) (prune_lower c)
          else value_gt (maxExclusive b) (prune_lower c) \<and> \<not> value_le (maxExclusive b) (prune_lower c)
      | PruneGreaterEqual \<Rightarrow> value_gt (maxExclusive b) (prune_lower c)
      | PruneBetween \<Rightarrow>
          if lowerInclusive c \<and> upperInclusive c
          then value_le (minInclusive b) (prune_upper c) \<and> value_less (prune_lower c) (maxExclusive b)
          else if lowerInclusive c \<and> \<not> upperInclusive c
          then value_less (minInclusive b) (prune_upper c) \<and> value_less (prune_lower c) (maxExclusive b)
          else if \<not> lowerInclusive c \<and> upperInclusive c
          then value_le (minInclusive b) (prune_upper c) \<and> value_less (prune_lower c) (maxExclusive b) \<and>
            \<not> value_le (maxExclusive b) (prune_lower c)
          else value_less (minInclusive b) (prune_upper c) \<and> value_less (prune_lower c) (maxExclusive b))"

subsection \<open>Adding and removing partitions\<close>

text \<open>\<open>Inl\<close> carries the text the code stores through its \<^verbatim>\<open>error\<close> pointer.\<close>

definition quoted :: "string \<Rightarrow> string" where
  "quoted s = [CHR 0x27] @ s @ [CHR 0x27]"

fun find_overlap :: "range_partition_bound \<Rightarrow> partition_descriptor list \<Rightarrow> string option" where
  "find_overlap b [] = None"
| "find_overlap b (p # ps) =
     (case range_bound (part_bound p) of
        Some r \<Rightarrow> if rangesOverlap b r then Some (childTableName p) else find_overlap b ps
      | None \<Rightarrow> find_overlap b ps)"

fun find_hash_clash :: "hash_partition_bound \<Rightarrow> partition_descriptor list \<Rightarrow> string option" where
  "find_hash_clash b [] = None"
| "find_hash_clash b (p # ps) =
     (case hash_bound (part_bound p) of
        None \<Rightarrow> find_hash_clash b ps
      | Some h \<Rightarrow>
          if modulus h \<noteq> modulus b then Some ''HASH MODULUS must match existing partitions''
          else if remainder h = remainder b
          then Some (''HASH REMAINDER already used by '' @ quoted (childTableName p))
          else find_hash_clash b ps)"

definition validateNewBound :: "partitioned_table_metadata \<Rightarrow> partition_bound \<Rightarrow> string + unit" where
  "validateNewBound m b =
     (if part_kind m = RangeKind then
        (case (range_bound b, hash_bound b) of
           (Some r, None) \<Rightarrow>
             if \<not> value_less (minInclusive r) (maxExclusive r) then Inl ''RANGE bound requires min < max''
             else (case find_overlap r (partitions m) of
                 Some name \<Rightarrow> Inl (''RANGE partition overlaps existing partition '' @ quoted name)
               | None \<Rightarrow> Inr ())
         | _ \<Rightarrow> Inl ''RANGE partition requires FROM/TO bounds'')
      else
        (case (hash_bound b, range_bound b) of
           (Some h, None) \<Rightarrow>
             if sint (modulus h) \<le> 0 then Inl ''HASH MODULUS must be positive''
             else if sint (remainder h) < 0 \<or> sint (modulus h) \<le> sint (remainder h)
             then Inl ''HASH REMAINDER must be in [0, MODULUS)''
             else (case find_hash_clash h (partitions m) of Some err \<Rightarrow> Inl err | None \<Rightarrow> Inr ())
         | _ \<Rightarrow> Inl ''HASH partition requires MODULUS/REMAINDER''))"

definition hasChild :: "partitioned_table_metadata \<Rightarrow> string \<Rightarrow> bool" where
  "hasChild m name = (\<exists>p \<in> set (partitions m). childTableName p = name)"

definition addPartition ::
    "partition_descriptor \<Rightarrow> partitioned_table_metadata \<Rightarrow> (string + unit) \<times> partitioned_table_metadata" where
  "addPartition d m =
     (if childTableName d = '''' then (Inl ''Partition child name is empty'', m)
      else if hasChild m (childTableName d)
      then (Inl (''Partition '' @ quoted (childTableName d) @ '' already exists''), m)
      else case validateNewBound m (part_bound d) of
        Inl err \<Rightarrow> (Inl err, m)
      | Inr _ \<Rightarrow> (Inr (), m\<lparr>partitions := partitions m @ [d]\<rparr>))"

fun erase_child :: "string \<Rightarrow> partition_descriptor list \<Rightarrow> partition_descriptor list" where
  "erase_child name [] = []"
| "erase_child name (p # ps) = (if childTableName p = name then ps else p # erase_child name ps)"

definition removePartition :: "string \<Rightarrow> partitioned_table_metadata \<Rightarrow> bool \<times> partitioned_table_metadata" where
  "removePartition name m =
     (if hasChild m name then (True, m\<lparr>partitions := erase_child name (partitions m)\<rparr>) else (False, m))"

subsection \<open>Routing and pruning\<close>

fun resolve_range :: "partition_descriptor list \<Rightarrow> sql_value \<Rightarrow> string option" where
  "resolve_range [] k = None"
| "resolve_range (p # ps) k =
     (case range_bound (part_bound p) of
        None \<Rightarrow> resolve_range ps k
      | Some b \<Rightarrow> if rangeContains b k then Some (childTableName p) else resolve_range ps k)"

definition hash_slot :: "u64 \<Rightarrow> i64 \<Rightarrow> i64" where
  "hash_slot hashed m = hashed mod m"

fun resolve_hash :: "partition_descriptor list \<Rightarrow> u64 \<Rightarrow> string option" where
  "resolve_hash [] hashed = None"
| "resolve_hash (p # ps) hashed =
     (case hash_bound (part_bound p) of
        None \<Rightarrow> resolve_hash ps hashed
      | Some b \<Rightarrow>
          if sint (modulus b) \<le> 0 then resolve_hash ps hashed
          else if hash_slot hashed (modulus b) = remainder b then Some (childTableName p)
          else resolve_hash ps hashed)"

definition resolveChild :: "partitioned_table_metadata \<Rightarrow> sql_value \<Rightarrow> string option" where
  "resolveChild m k =
     (if is_null k then None
      else if part_kind m = RangeKind then resolve_range (partitions m) k
      else if partitions m = [] then None
      else resolve_hash (partitions m) (computePartitionHash k))"

definition prune_range :: "partition_descriptor list \<Rightarrow> prune_request \<Rightarrow> string list" where
  "prune_range ps req =
     map childTableName (filter (\<lambda>p.
       case range_bound (part_bound p) of
         None \<Rightarrow> False
       | Some b \<Rightarrow> list_all (rangeIntersectsConstraint b) req) ps)"

definition equal_key :: "prune_request \<Rightarrow> sql_value option" where
  "equal_key req = map_option prune_lower (find (\<lambda>c. prune_op c = PruneEqual) req)"

definition prune :: "partitioned_table_metadata \<Rightarrow> prune_request \<Rightarrow> string list" where
  "prune m req =
     (if part_kind m = RangeKind then prune_range (partitions m) req
      else case equal_key req of
        None \<Rightarrow> map childTableName (partitions m)
      | Some k \<Rightarrow> (case resolveChild m k of None \<Rightarrow> [] | Some child \<Rightarrow> [child]))"

section \<open>Prune requests\<close>

definition prune_constraint_of :: "index_column_predicate \<Rightarrow> prune_constraint" where
  "prune_constraint_of p =
     (let c0 = \<lparr>prune_op = PruneEqual, prune_lower = NullV, prune_upper = NullV,
               lowerInclusive = True, upperInclusive = True\<rparr>;
          c1 = (case pred_op p of
             Equal \<Rightarrow> c0\<lparr>prune_op := PruneEqual, prune_lower := pred_literal p\<rparr>
           | Less \<Rightarrow> c0\<lparr>prune_op := PruneLess, prune_upper := pred_literal p, upperInclusive := False\<rparr>
           | LessEqual \<Rightarrow> c0\<lparr>prune_op := PruneLessEqual, prune_upper := pred_literal p, upperInclusive := True\<rparr>
           | Greater \<Rightarrow> c0\<lparr>prune_op := PruneGreater, prune_lower := pred_literal p, lowerInclusive := False\<rparr>
           | GreaterEqual \<Rightarrow>
               c0\<lparr>prune_op := PruneGreaterEqual, prune_lower := pred_literal p, lowerInclusive := True\<rparr>)
      in if has_upper p
         then c1\<lparr>prune_op := PruneBetween, prune_lower := pred_literal p, prune_upper := upper_literal p,
                 lowerInclusive := lower_inclusive p, upperInclusive := upper_inclusive p\<rparr>
         else c1)"

definition buildPartitionPruneRequest :: "string \<Rightarrow> 'q expression option \<Rightarrow> prune_request" where
  "buildPartitionPruneRequest keyColumn whereExpr =
     (if whereExpr = None then []
      else case extract_index_predicates whereExpr of
        None \<Rightarrow> []
      | Some preds \<Rightarrow> map prune_constraint_of (filter (\<lambda>p. pred_column p = keyColumn) preds))"

definition listPrunedPartitions :: "partitioned_table_metadata option \<Rightarrow> 'q expression option \<Rightarrow> string list" where
  "listPrunedPartitions meta whereExpr =
     (case meta of None \<Rightarrow> []
      | Some m \<Rightarrow> prune m (buildPartitionPruneRequest (key_column m) whereExpr))"

section \<open>Table scans\<close>

definition table_bindings :: "string \<Rightarrow> string \<Rightarrow> string list \<Rightarrow> column_binding list" where
  "table_bindings al phys cols =
     map (\<lambda>c. \<lparr>bind_alias = al, physical_table = phys, column_name = c\<rparr>) cols"

text \<open>The evaluator over one table; \<open>today\<close> is the date of the clock.\<close>

definition evaluator_for_table :: "string \<Rightarrow> string \<Rightarrow> string \<Rightarrow> string list \<Rightarrow> ('q, 's) evaluator" where
  "evaluator_for_table today al phys cols = make_evaluator today (table_bindings al phys cols)"

section \<open>Specification vocabulary and samples\<close>

definition range_disjoint :: "partition_descriptor \<Rightarrow> partition_descriptor \<Rightarrow> bool" where
  "range_disjoint p q =
     (\<forall>a b. range_bound (part_bound p) = Some a \<longrightarrow> range_bound (part_bound q) = Some b \<longrightarrow>
       \<not> rangesOverlap a b)"

definition hash_disjoint :: "partition_descriptor \<Rightarrow> partition_descriptor \<Rightarrow> bool" where
  "hash_disjoint p q =
     (\<forall>a b. hash_bound (part_bound p) = Some a \<longrightarrow> hash_bound (part_bound q) = Some b \<longrightarrow>
       modulus a = modulus b \<and> remainder a \<noteq> remainder b)"

definition bound_ok :: "partition_kind \<Rightarrow> partition_bound \<Rightarrow> bool" where
  "bound_ok k b =
     (if k = RangeKind
      then hash_bound b = None \<and>
        (\<exists>r. range_bound b = Some r \<and> value_less (minInclusive r) (maxExclusive r))
      else range_bound b = None \<and>
        (\<exists>h. hash_bound b = Some h \<and> 0 < sint (modulus h) \<and>
             0 \<le> sint (remainder h) \<and> sint (remainder h) < sint (modulus h)))"

definition valid_metadata :: "partitioned_table_metadata \<Rightarrow> bool" where
  "valid_metadata m =
     (distinct (map childTableName (partitions m)) \<and> '''' \<notin> childTableName ` set (partitions m) \<and>
      (\<forall>p \<in> set (partitions m). bound_ok (part_kind m) (part_bound p)) \<and>
      sorted_wrt (if part_kind m = RangeKind then range_disjoint else hash_disjoint) (partitions m))"

text \<open>What the catalog does to the metadata of a table.\<close>

inductive reachable_metadata :: "partitioned_table_metadata \<Rightarrow> bool" where
  created: "reachable_metadata (make_partition_metadata k c)"
| added: "reachable_metadata m \<Longrightarrow> reachable_metadata (snd (addPartition d m))"
| removed: "reachable_metadata m \<Longrightarrow> reachable_metadata (snd (removePartition name m))"

text \<open>A key belongs to a partition.\<close>

definition partition_holds :: "partition_descriptor \<Rightarrow> sql_value \<Rightarrow> bool" where
  "partition_holds p k =
     (case range_bound (part_bound p) of
        Some b \<Rightarrow> rangeContains b k
      | None \<Rightarrow>
          (case hash_bound (part_bound p) of
             Some h \<Rightarrow> hash_slot (computePartitionHash k) (modulus h) = remainder h
           | None \<Rightarrow> False))"

text \<open>The range bounds are values of the key column's type, compared exactly.\<close>

definition exact_bounds :: "data_type \<Rightarrow> partitioned_table_metadata \<Rightarrow> bool" where
  "exact_bounds t m =
     (\<forall>p \<in> set (partitions m). \<forall>b. range_bound (part_bound p) = Some b \<longrightarrow>
        exact_of t (minInclusive b) \<and> exact_of t (maxExclusive b))"

text \<open>The value a column reference has for a row, without an error message to fill in.\<close>

definition column_value :: "('q, 's) evaluator \<Rightarrow> row \<Rightarrow> 's eval_state \<Rightarrow> string \<Rightarrow> string \<Rightarrow> sql_value" where
  "column_value ev r s t c =
     (case evaluate_column_ref ev r t c (s\<lparr>error_msg := None\<rparr>) of (Inr v, _) \<Rightarrow> v | _ \<Rightarrow> NullV)"

text \<open>What a sargable predicate says, on values compared exactly.\<close>

fun op_holds :: "index_compare_op \<Rightarrow> sql_value \<Rightarrow> sql_value \<Rightarrow> bool" where
  "op_holds Equal v l = (v = l)"
| "op_holds Less v l = value_less v l"
| "op_holds LessEqual v l = (\<not> value_less l v)"
| "op_holds Greater v l = value_less l v"
| "op_holds GreaterEqual v l = (\<not> value_less v l)"

fun leaf_value :: "('q, 's) evaluator \<Rightarrow> row \<Rightarrow> 's eval_state \<Rightarrow> 'q expression \<Rightarrow> sql_value" where
  "leaf_value ev r s (LiteralExpression v) = v"
| "leaf_value ev r s e = column_value ev r s (fst (column_name_of e)) (snd (column_name_of e))"

definition is_leaf :: "'q expression \<Rightarrow> bool" where
  "is_leaf e = (is_literal e \<noteq> None \<or> snd (column_name_of e) \<noteq> '''')"

text \<open>The predicates of a condition that name the key column.\<close>

definition key_predicates :: "string \<Rightarrow> 'q expression \<Rightarrow> index_column_predicate list" where
  "key_predicates c e =
     (case collect_predicates e of None \<Rightarrow> [] | Some ps \<Rightarrow> filter (\<lambda>p. pred_column p = c) ps)"

definition int_range :: "string \<Rightarrow> int \<Rightarrow> int \<Rightarrow> partition_descriptor" where
  "int_range name lo hi =
     \<lparr>childTableName = name,
      part_bound = \<lparr>range_bound = Some \<lparr>minInclusive = IntV (of_int lo), maxExclusive = IntV (of_int hi)\<rparr>,
                    hash_bound = None\<rparr>\<rparr>"

definition hash_part :: "string \<Rightarrow> int \<Rightarrow> int \<Rightarrow> partition_descriptor" where
  "hash_part name m r =
     \<lparr>childTableName = name,
      part_bound = \<lparr>range_bound = None,
                    hash_bound = Some \<lparr>modulus = of_int m, remainder = of_int r\<rparr>\<rparr>\<rparr>"

definition sample_ranges :: partitioned_table_metadata where
  "sample_ranges =
     snd (addPartition (int_range ''high'' 10 20)
       (snd (addPartition (int_range ''low'' 0 10) (make_partition_metadata RangeKind ''id''))))"

definition sample_hashes :: partitioned_table_metadata where
  "sample_hashes =
     snd (addPartition (hash_part ''odd'' 2 1)
       (snd (addPartition (hash_part ''even'' 2 0) (make_partition_metadata HashKind ''id''))))"

definition scan_evaluator :: "('q, unit) evaluator" where
  "scan_evaluator = evaluator_for_table ''2025-01-01'' ''p'' ''parts'' [''id'']"

definition compare_id :: "string \<Rightarrow> sql_value \<Rightarrow> 'q expression" where
  "compare_id t v = BinaryOpExpression (ColumnRefExpression t ''id'') EQ_OP (LiteralExpression v)"

section \<open>Partitions never overlap\<close>

lemma rangesOverlap_sym: "rangesOverlap a b = rangesOverlap b a"
  by (auto simp: rangesOverlap_def)

lemma find_overlap_None:
  "find_overlap b ps = None \<Longrightarrow> p \<in> set ps \<Longrightarrow> range_bound (part_bound p) = Some r \<Longrightarrow> \<not> rangesOverlap r b"
  by (induction b ps rule: find_overlap.induct) (auto simp: rangesOverlap_sym split: option.splits if_splits)

lemma find_hash_clash_None:
  "find_hash_clash b ps = None \<Longrightarrow> p \<in> set ps \<Longrightarrow> hash_bound (part_bound p) = Some h \<Longrightarrow>
     modulus h = modulus b \<and> remainder h \<noteq> remainder b"
  by (induction b ps rule: find_hash_clash.induct) (auto split: option.splits if_splits)

lemma validateNewBound_range:
  assumes "validateNewBound m b = Inr ()" "part_kind m = RangeKind"
  obtains r where "range_bound b = Some r" "hash_bound b = None"
    "value_less (minInclusive r) (maxExclusive r)" "find_overlap r (partitions m) = None"
  using assms that unfolding validateNewBound_def
  by (cases "range_bound b"; cases "hash_bound b") (simp_all split: if_splits option.splits)

lemma validateNewBound_hash:
  assumes "validateNewBound m b = Inr ()" "part_kind m \<noteq> RangeKind"
  obtains h where "hash_bound b = Some h" "range_bound b = None" "0 < sint (modulus h)"
    "0 \<le> sint (remainder h)" "sint (remainder h) < sint (modulus h)" "find_hash_clash h (partitions m) = None"
  using assms that unfolding validateNewBound_def
  by (cases "range_bound b"; cases "hash_bound b") (simp_all add: not_le split: if_splits option.splits)

lemma validateNewBound_ok:
  assumes "validateNewBound m (part_bound d) = Inr ()"
  shows "bound_ok (part_kind m) (part_bound d) \<and>
    (\<forall>p \<in> set (partitions m). (if part_kind m = RangeKind then range_disjoint else hash_disjoint) p d)"
proof (cases "part_kind m = RangeKind")
  case True
  obtain r where r: "range_bound (part_bound d) = Some r" "hash_bound (part_bound d) = None"
    "value_less (minInclusive r) (maxExclusive r)" "find_overlap r (partitions m) = None"
    using assms True by (rule validateNewBound_range)
  have "range_disjoint p d" if "p \<in> set (partitions m)" for p
    unfolding range_disjoint_def using find_overlap_None [OF r(4) that] r(1) by simp
  then show ?thesis using True r(1-3) by (simp add: bound_ok_def)
next
  case False
  obtain h where h: "hash_bound (part_bound d) = Some h" "range_bound (part_bound d) = None" "0 < sint (modulus h)"
    "0 \<le> sint (remainder h)" "sint (remainder h) < sint (modulus h)" "find_hash_clash h (partitions m) = None"
    using assms False by (rule validateNewBound_hash)
  have "hash_disjoint p d" if "p \<in> set (partitions m)" for p
    unfolding hash_disjoint_def
  proof (intro allI impI)
    fix a b assume "hash_bound (part_bound p) = Some a" "hash_bound (part_bound d) = Some b"
    then show "modulus a = modulus b \<and> remainder a \<noteq> remainder b"
      using find_hash_clash_None [OF h(6) that, of a] h(1) by auto
  qed
  then show ?thesis using False h(1-5) by (simp add: bound_ok_def)
qed

lemma valid_addPartition: "valid_metadata m \<Longrightarrow> valid_metadata (snd (addPartition d m))"
  using validateNewBound_ok [of m d]
  by (auto simp: addPartition_def valid_metadata_def hasChild_def sorted_wrt_append split: sum.splits)

lemma set_erase_child: "set (erase_child name ps) \<subseteq> set ps"
  by (induction name ps rule: erase_child.induct) auto

lemma sorted_wrt_erase_child: "sorted_wrt P ps \<Longrightarrow> sorted_wrt P (erase_child name ps)"
proof (induction name ps rule: erase_child.induct)
  case (2 name p ps)
  then show ?case using set_erase_child [of name ps] by auto
qed simp

lemma distinct_erase_child:
  "distinct (map childTableName ps) \<Longrightarrow> distinct (map childTableName (erase_child name ps))"
proof (induction name ps rule: erase_child.induct)
  case (2 name p ps)
  then show ?case using set_erase_child [of name ps] by (auto simp: image_iff)
qed simp

lemma erase_child_gone:
  "distinct (map childTableName ps) \<Longrightarrow> name \<notin> childTableName ` set (erase_child name ps)"
  by (induction name ps rule: erase_child.induct) (auto simp: image_iff)

lemma valid_removePartition: "valid_metadata m \<Longrightarrow> valid_metadata (snd (removePartition name m))"
  using set_erase_child [of name "partitions m"]
  by (auto simp: removePartition_def valid_metadata_def sorted_wrt_erase_child distinct_erase_child)

lemma valid_make: "valid_metadata (make_partition_metadata k c)"
  by (simp add: valid_metadata_def make_partition_metadata_def)

lemma reachable_valid: "reachable_metadata m \<Longrightarrow> valid_metadata m"
  by (induction rule: reachable_metadata.induct)
    (simp_all add: valid_make valid_addPartition valid_removePartition)

section \<open>Routing\<close>

lemma value_le_exact: "exact_of t a \<Longrightarrow> exact_of t b \<Longrightarrow> value_le a b = (\<not> value_less b a)"
  using value_order.not_less_iff [of t b a] value_order.less_irrefl [of t a]
  by (auto simp: value_le_def value_eq_exact)

lemma rangeContains_exact:
  "exact_of t (minInclusive b) \<Longrightarrow> exact_of t k \<Longrightarrow>
     rangeContains b k = (\<not> value_less k (minInclusive b) \<and> value_less k (maxExclusive b))"
  by (simp add: rangeContains_def value_le_exact)

lemma disjoint_ranges_unique:
  assumes a: "exact_of t (minInclusive a)" "exact_of t (maxExclusive a)"
    and b: "exact_of t (minInclusive b)" "exact_of t (maxExclusive b)"
    and k: "exact_of t k" "rangeContains a k" "rangeContains b k"
  shows "rangesOverlap a b"
proof -
  have *: "value_less x y" if "exact_of t x" "exact_of t y" "\<not> value_less k x" "value_less k y" for x y
    using value_order.not_less_iff [of t k x] value_order.less_trans [of t x k y] that k(1) by blast
  show ?thesis
    using k(2,3) a b * by (simp add: rangesOverlap_def rangeContains_exact k(1))
qed

lemma partitions_unique:
  assumes v: "valid_metadata m" and e: "exact_bounds t m" and k: "exact_of t k"
    and p: "p \<in> set (partitions m)" "partition_holds p k"
    and q: "q \<in> set (partitions m)" "partition_holds q k"
  shows "p = q"
proof (rule ccontr)
  assume ne: "p \<noteq> q"
  let ?P = "if part_kind m = RangeKind then range_disjoint else hash_disjoint"
  have ok: "bound_ok (part_kind m) (part_bound p)" "bound_ok (part_kind m) (part_bound q)"
    using v p(1) q(1) by (auto simp: valid_metadata_def)
  have dis: "?P p q \<or> ?P q p"
  proof -
    obtain i j where ij: "i < length (partitions m)" "partitions m ! i = p"
      "j < length (partitions m)" "partitions m ! j = q"
      using p(1) q(1) by (metis in_set_conv_nth)
    then have "i < j \<or> j < i" using ne by (metis nat_neq_iff)
    then show ?thesis
      using v ij by (auto simp: valid_metadata_def sorted_wrt_iff_nth_less)
  qed
  show False
  proof (cases "part_kind m = RangeKind")
    case True
    then obtain a b where ab: "range_bound (part_bound p) = Some a" "range_bound (part_bound q) = Some b"
      using ok by (auto simp: bound_ok_def)
    then have "rangesOverlap a b"
      using p q e k by (intro disjoint_ranges_unique [of t a b k]) (auto simp: partition_holds_def exact_bounds_def)
    then show False using dis True ab by (auto simp: range_disjoint_def rangesOverlap_sym)
  next
    case False
    then obtain a b where ab: "hash_bound (part_bound p) = Some a" "hash_bound (part_bound q) = Some b"
      "range_bound (part_bound p) = None" "range_bound (part_bound q) = None"
      using ok by (auto simp: bound_ok_def)
    then show False using dis False p(2) q(2) by (auto simp: hash_disjoint_def partition_holds_def)
  qed
qed

lemma resolve_range_Some:
  "(\<forall>p \<in> set ps. bound_ok RangeKind (part_bound p)) \<Longrightarrow> resolve_range ps k = Some c \<Longrightarrow>
     \<exists>p \<in> set ps. childTableName p = c \<and> partition_holds p k"
  by (induction ps k rule: resolve_range.induct)
    (auto simp: partition_holds_def bound_ok_def split: option.splits if_splits)

lemma resolve_range_None:
  "(\<forall>p \<in> set ps. bound_ok RangeKind (part_bound p)) \<Longrightarrow> resolve_range ps k = None \<Longrightarrow>
     p \<in> set ps \<Longrightarrow> \<not> partition_holds p k"
  by (induction ps k rule: resolve_range.induct)
    (auto simp: partition_holds_def bound_ok_def split: option.splits if_splits)

lemma resolve_hash_Some:
  "(\<forall>p \<in> set ps. bound_ok HashKind (part_bound p)) \<Longrightarrow> resolve_hash ps (computePartitionHash k) = Some c \<Longrightarrow>
     \<exists>p \<in> set ps. childTableName p = c \<and> partition_holds p k"
  by (induction ps "computePartitionHash k" rule: resolve_hash.induct)
    (auto simp: partition_holds_def bound_ok_def split: option.splits if_splits)

lemma resolve_hash_None:
  "(\<forall>p \<in> set ps. bound_ok HashKind (part_bound p)) \<Longrightarrow> resolve_hash ps (computePartitionHash k) = None \<Longrightarrow>
     p \<in> set ps \<Longrightarrow> \<not> partition_holds p k"
  by (induction ps "computePartitionHash k" rule: resolve_hash.induct)
    (auto simp: partition_holds_def bound_ok_def split: option.splits if_splits)

lemma resolveChild_Some:
  assumes "valid_metadata m" "resolveChild m k = Some c"
  obtains p where "p \<in> set (partitions m)" "childTableName p = c" "partition_holds p k"
proof (cases "part_kind m")
  case RangeKind
  then show ?thesis
    using assms that resolve_range_Some [of "partitions m" k c]
    by (auto simp: resolveChild_def valid_metadata_def split: if_splits)
next
  case HashKind
  then show ?thesis
    using assms that resolve_hash_Some [of "partitions m" k c]
    by (auto simp: resolveChild_def valid_metadata_def split: if_splits)
qed

lemma resolveChild_None:
  assumes "valid_metadata m" "\<not> is_null k" "resolveChild m k = None" "p \<in> set (partitions m)"
  shows "\<not> partition_holds p k"
proof (cases "part_kind m")
  case RangeKind
  then show ?thesis
    using assms resolve_range_None [of "partitions m" k p]
    by (auto simp: resolveChild_def valid_metadata_def split: if_splits)
next
  case HashKind
  then show ?thesis
    using assms resolve_hash_None [of "partitions m" k p]
    by (auto simp: resolveChild_def valid_metadata_def split: if_splits)
qed

lemma routing_exact:
  assumes v: "valid_metadata m" and e: "exact_bounds t m" and k: "exact_of t k" "\<not> is_null k"
  shows "resolveChild m k = Some c \<longleftrightarrow> (\<exists>p \<in> set (partitions m). childTableName p = c \<and> partition_holds p k)"
proof
  assume "resolveChild m k = Some c"
  with v show "\<exists>p \<in> set (partitions m). childTableName p = c \<and> partition_holds p k"
    by (blast elim: resolveChild_Some)
next
  assume "\<exists>p \<in> set (partitions m). childTableName p = c \<and> partition_holds p k"
  then obtain p where p: "p \<in> set (partitions m)" "childTableName p = c" "partition_holds p k" by blast
  then obtain c' where c': "resolveChild m k = Some c'"
    using resolveChild_None [OF v k(2) _ p(1)] by fastforce
  obtain q where "q \<in> set (partitions m)" "childTableName q = c'" "partition_holds q k"
    using v c' by (rule resolveChild_Some)
  with p have "c' = c" using partitions_unique [OF v e k(1)] by blast
  with c' show "resolveChild m k = Some c" by simp
qed

section \<open>Sargable conditions\<close>

lemma column_ref_pure:
  "error_msg s = None \<Longrightarrow> evaluate_column_ref ev r t c s = (Inr (column_value ev r s t c), s)"
  by (auto simp: evaluate_column_ref_def column_value_def bindM_def set_error_def get_value_def
      get_column_count_def split: option.splits sum.splits)

lemma column_value_message [simp]: "column_value ev r (s\<lparr>error_msg := x\<rparr>) = column_value ev r s"
  by (simp add: column_value_def fun_eq_iff)

lemma leaf_pure: "is_leaf e \<Longrightarrow> error_msg s = None \<Longrightarrow> evaluate_expression d ev r e s = (Inr (leaf_value ev r s e), s)"
  by (cases e) (simp_all add: is_leaf_def column_ref_pure)

lemma leaf_value_message [simp]: "leaf_value ev r (s\<lparr>error_msg := x\<rparr>) e = leaf_value ev r s e"
  by (cases e) simp_all

lemma try_comparison_leaves:
  "try_comparison (BinaryOpExpression a bop b) = Some p \<Longrightarrow>
     is_leaf a \<and> is_leaf b \<and> bop \<in> {EQ_OP, LT_OP, LE_OP, GT_OP, GE_OP}"
  by (auto simp: is_leaf_def split: if_splits option.splits)

lemma collect_predicates_comparison:
  "collect_predicates (BinaryOpExpression a bop b) = Some ps \<Longrightarrow> bop \<noteq> AND_OP \<Longrightarrow>
     \<exists>p. ps = [p] \<and> try_comparison (BinaryOpExpression a bop b) = Some p"
  by (auto simp del: try_comparison.simps split: if_splits)

lemma sargable_pure:
  "collect_predicates e = Some ps \<Longrightarrow> error_msg s = None \<Longrightarrow> \<exists>v. evaluate_expression d ev r e s = (Inr v, s)"
proof (induction e arbitrary: ps rule: collect_predicates.induct)
  case (1 a bop b)
  show ?case
  proof (cases "bop = AND_OP")
    case True
    then obtain ps1 ps2 where "collect_predicates a = Some ps1" "collect_predicates b = Some ps2"
      using 1(3) by (auto split: option.splits)
    with True 1 obtain v w where "evaluate_expression d ev r a s = (Inr v, s)" "evaluate_expression d ev r b s = (Inr w, s)"
      by blast
    then show ?thesis using True by (simp add: bindM_def binary_value_def)
  next
    case False
    then have "is_leaf a" "is_leaf b" "bop \<in> {EQ_OP, LT_OP, LE_OP, GT_OP, GE_OP}"
      using collect_predicates_comparison [OF 1(3)] try_comparison_leaves by blast+
    then show ?thesis using 1(4) by (auto simp: bindM_def leaf_pure binary_value_def)
  qed
qed simp_all

lemma with_message_sargable:
  assumes "collect_predicates e = Some ps"
  obtains v where "with_message None (evaluate_expression d ev r e) s = (Inr v, s)"
  using sargable_pure [OF assms, of "s\<lparr>error_msg := None\<rparr>" d ev r] by (force simp: with_message_def)

lemma with_message_leaf:
  "is_leaf e \<Longrightarrow> with_message None (evaluate_expression d ev r e) s = (Inr (leaf_value ev r s e), s)"
  by (simp add: with_message_def leaf_pure)

section \<open>What an accepted row satisfies\<close>

lemma comparison_condition:
  assumes "try_comparison (BinaryOpExpression a bop b) = Some p"
  shows "evaluate_condition d ev r (BinaryOpExpression a bop b) s =
    (Inr (compare_values bop (leaf_value ev r s a) (leaf_value ev r s b)), s)"
  using try_comparison_leaves [OF assms] by (auto simp: bindM_def with_message_leaf)

lemma sargable_condition:
  "collect_predicates e = Some ps \<Longrightarrow> \<exists>x. evaluate_condition d ev r e s = (Inr x, s)"
proof (induction e arbitrary: ps rule: collect_predicates.induct)
  case (1 a bop b)
  show ?case
  proof (cases "bop = AND_OP")
    case True
    then obtain ps1 ps2 where ps: "collect_predicates a = Some ps1" "collect_predicates b = Some ps2"
      using 1(3) by (auto split: option.splits)
    obtain v where v: "with_message None (evaluate_expression d ev r a) s = (Inr v, s)"
      using ps(1) by (rule with_message_sargable)
    obtain w where w: "with_message None (evaluate_expression d ev r b) s = (Inr w, s)"
      using ps(2) by (rule with_message_sargable)
    obtain x y where "evaluate_condition d ev r a s = (Inr x, s)" "evaluate_condition d ev r b s = (Inr y, s)"
      using 1(1) [OF True ps(1)] 1(2) [OF True ps] by blast
    then show ?thesis using True v w by (cases x) (auto simp: bindM_def)
  next
    case False
    then show ?thesis
      using collect_predicates_comparison [OF 1(3)] comparison_condition by blast
  qed
qed simp_all

lemma compare_column_left:
  assumes "exact_of t v" "exact_of t l" "column_left_op bop = Some cop"
  shows "compare_values bop v l = op_holds cop v l"
  using assms by (cases bop) (auto simp: compare_values_def value_eq_exact value_le_exact value_gt_def value_ge_def)

lemma compare_column_right:
  assumes "exact_of t v" "exact_of t l" "column_right_op bop = Some cop"
  shows "compare_values bop l v = op_holds cop v l"
  using assms by (cases bop) (auto simp: compare_values_def value_eq_exact value_le_exact value_gt_def value_ge_def)

lemma leaf_value_column:
  "snd (column_name_of e) \<noteq> '''' \<Longrightarrow>
     leaf_value ev r s e = column_value ev r s (fst (column_name_of e)) (snd (column_name_of e))"
  by (cases e) simp_all

lemma leaf_value_literal: "is_literal e = Some v \<Longrightarrow> leaf_value ev r s e = v"
  by (cases e) simp_all

lemma comparison_accepts:
  assumes p: "try_comparison (BinaryOpExpression a bop b) = Some p"
    and exact: "exact_of t (pred_literal p)" "exact_of t (column_value ev r s (table_qualifier p) (pred_column p))"
  shows "compare_values bop (leaf_value ev r s a) (leaf_value ev r s b) =
    op_holds (pred_op p) (column_value ev r s (table_qualifier p) (pred_column p)) (pred_literal p)"
proof (cases "snd (column_name_of a) \<noteq> '''' \<and> is_literal b \<noteq> None")
  case True
  then obtain l cop where "is_literal b = Some l" "column_left_op bop = Some cop"
    "p = index_predicate (column_name_of a) cop l"
    using p by (auto split: if_splits option.splits)
  with True exact show ?thesis
    by (simp add: index_predicate_def leaf_value_column leaf_value_literal compare_column_left [where cop = cop])
next
  case False
  then obtain l cop where "is_literal a = Some l" "column_right_op bop = Some cop" "snd (column_name_of b) \<noteq> ''''"
    "p = index_predicate (column_name_of b) cop l"
    using p by (auto split: if_splits option.splits)
  with exact show ?thesis
    by (simp add: index_predicate_def leaf_value_column leaf_value_literal compare_column_right [where cop = cop])
qed

lemma condition_accepts:
  assumes "collect_predicates e = Some ps" "evaluate_condition d ev r e s = (Inr True, s')" "p \<in> set ps"
    and "exact_of t (pred_literal p)" "exact_of t (column_value ev r s (table_qualifier p) (pred_column p))"
  shows "op_holds (pred_op p) (column_value ev r s (table_qualifier p) (pred_column p)) (pred_literal p)"
    (is "?holds")
  using assms(1-3)
proof (induction e arbitrary: ps s' rule: collect_predicates.induct)
  case (1 a bop b)
  show ?case
  proof (cases "bop = AND_OP")
    case True
    then obtain ps1 ps2 where ps: "collect_predicates a = Some ps1" "collect_predicates b = Some ps2" "ps = ps1 @ ps2"
      using 1(3) by (auto split: option.splits)
    obtain v where v: "with_message None (evaluate_expression d ev r a) s = (Inr v, s)"
      using ps(1) by (rule with_message_sargable)
    obtain w where w: "with_message None (evaluate_expression d ev r b) s = (Inr w, s)"
      using ps(2) by (rule with_message_sargable)
    obtain s1 where a: "evaluate_condition d ev r a s = (Inr True, s1)" and b: "evaluate_condition d ev r b s1 = (Inr True, s')"
      using 1(4) True v w by (auto simp: bindM_def split: prod.splits sum.splits if_splits)
    have "s1 = s" using sargable_condition [OF ps(1)] a by (metis prod.inject)
    then show ?thesis using 1(1) [OF True ps(1) a] 1(2) [OF True ps(1,2)] b ps(3) 1(5) by auto
  next
    case False
    obtain q where q: "ps = [q]" "try_comparison (BinaryOpExpression a bop b) = Some q"
      using collect_predicates_comparison [OF 1(3) False] by blast
    then have "p = q" using 1(5) by simp
    then show ?thesis
      using 1(4) comparison_accepts [of a bop b p t ev r s, OF _ assms(4,5)] q(2)
      by (auto simp: comparison_condition [OF q(2)] simp del: evaluate_condition.simps try_comparison.simps)
  qed
qed simp_all

section \<open>Pruning\<close>

lemma collected_no_upper: "collect_predicates e = Some ps \<Longrightarrow> p \<in> set ps \<Longrightarrow> \<not> has_upper p"
proof (induction e arbitrary: ps rule: collect_predicates.induct)
  case (1 a bop b)
  show ?case
  proof (cases "bop = AND_OP")
    case True
    then obtain ps1 ps2 where ps: "collect_predicates a = Some ps1" "collect_predicates b = Some ps2" "ps = ps1 @ ps2"
      using 1(3) by (auto split: option.splits)
    then show ?thesis using 1(1) [OF True ps(1)] 1(2) [OF True ps(1,2)] 1(4) by auto
  next
    case False
    then show ?thesis
      using collect_predicates_comparison [OF 1(3)] 1(4)
      by (auto simp: index_predicate_def split: if_splits option.splits)
  qed
qed simp_all

lemma range_survives:
  assumes b: "exact_of t (minInclusive b)" "exact_of t (maxExclusive b)"
    and v: "exact_of t v" "rangeContains b v"
    and p: "\<not> has_upper p" "exact_of t (pred_literal p)" "op_holds (pred_op p) v (pred_literal p)"
  shows "rangeIntersectsConstraint b (prune_constraint_of p)"
proof -
  let ?l = "pred_literal p"
  have lo: "\<not> value_less v (minInclusive b)" and hi: "value_less v (maxExclusive b)"
    using v b by (simp_all add: rangeContains_exact)
  have le_less: "value_less x z" if "\<not> value_less y x" "value_less y z" "exact_of t x" "exact_of t y" "exact_of t z" for x y z
    using that value_order.not_less_iff [of t y x] value_order.less_trans [of t x y z] by blast
  have le_le: "\<not> value_less z x" if "\<not> value_less y x" "\<not> value_less z y" "exact_of t x" "exact_of t y" "exact_of t z" for x y z
    using that le_less value_order.less_irrefl by blast
  have less_le: "value_less x z" if "value_less x y" "\<not> value_less z y" "exact_of t x" "exact_of t y" "exact_of t z" for x y z
    using that value_order.not_less_iff [of t z y] value_order.less_trans [of t x y z] by blast
  show ?thesis
  proof (cases "pred_op p")
    case Equal
    then show ?thesis
      using p v(2) by (simp add: prune_constraint_of_def rangeIntersectsConstraint_def)
  next
    case Less
    then show ?thesis
      using p le_less [OF lo _ b(1) v(1)] by (simp add: prune_constraint_of_def rangeIntersectsConstraint_def)
  next
    case LessEqual
    then show ?thesis
      using p le_le [OF lo _ b(1) v(1)] b by (simp add: prune_constraint_of_def rangeIntersectsConstraint_def value_le_exact)
  next
    case Greater
    then have "value_less ?l (maxExclusive b)"
      using p value_order.less_trans [OF _ v(1) b(2) _ hi] by simp
    then show ?thesis
      using Greater p b by (simp add: prune_constraint_of_def rangeIntersectsConstraint_def value_gt_def value_le_exact [of t])
  next
    case GreaterEqual
    then have "value_less ?l (maxExclusive b)"
      using p le_less [OF _ hi _ v(1) b(2)] by simp
    then show ?thesis
      using GreaterEqual p b by (simp add: prune_constraint_of_def rangeIntersectsConstraint_def value_gt_def value_le_exact [of t])
  qed
qed

lemma prune_request_key:
  "buildPartitionPruneRequest c (Some e) = map prune_constraint_of (key_predicates c e)"
  by (simp add: buildPartitionPruneRequest_def extract_index_predicates_def key_predicates_def split: option.splits)

lemma prune_holding:
  assumes v: "valid_metadata m" and e: "exact_bounds t m"
    and k: "exact_of t k" "\<not> is_null k" "resolveChild m k = Some c"
    and ps: "\<forall>p \<in> set ps. \<not> has_upper p \<and> exact_of t (pred_literal p) \<and> op_holds (pred_op p) k (pred_literal p)"
  shows "c \<in> set (prune m (map prune_constraint_of ps))"
proof -
  obtain d where d: "d \<in> set (partitions m)" "childTableName d = c" "partition_holds d k"
    using v k(3) by (rule resolveChild_Some)
  show ?thesis
  proof (cases "part_kind m = RangeKind")
    case True
    then obtain b where b: "range_bound (part_bound d) = Some b"
      using v d(1) by (auto simp: valid_metadata_def bound_ok_def)
    then have "rangeContains b k" using d(3) by (simp add: partition_holds_def)
    then have "\<forall>p \<in> set ps. rangeIntersectsConstraint b (prune_constraint_of p)"
      using ps range_survives [of t b k] k(1) e d(1) b by (auto simp: exact_bounds_def)
    then show ?thesis
      using True d b by (auto simp: prune_def prune_range_def list_all_iff intro!: image_eqI [where x = d])
  next
    case False
    show ?thesis
    proof (cases "find (\<lambda>c. prune_op c = PruneEqual) (map prune_constraint_of ps)")
      case None
      then show ?thesis using False d by (auto simp: prune_def equal_key_def)
    next
      case (Some x)
      then obtain p where p: "p \<in> set ps" "x = prune_constraint_of p" "prune_op x = PruneEqual"
        by (auto simp: find_Some_iff in_set_conv_nth) (metis nth_mem)
      then have "pred_op p = Equal" using ps
        by (cases "pred_op p") (auto simp: prune_constraint_of_def Let_def)
      then have "prune_lower x = k" using p ps by (auto simp: prune_constraint_of_def)
      then show ?thesis using False Some k(3) by (simp add: prune_def equal_key_def)
    qed
  qed
qed

section \<open>The evaluator of a table scan\<close>

lemma filter_upt_single: "i < n \<Longrightarrow> filter (\<lambda>j. j = i) [0..<n] = [i]"
  by (induction n) (auto simp: less_Suc_eq)

lemma resolve_table_column:
  assumes b: "bindings ev = table_bindings al phys cols" and cols: "distinct cols" "\<forall>c \<in> set cols. CHR ''.'' \<notin> set c"
    and i: "i < length cols" and t: "t = '''' \<or> t = al \<or> t = phys"
  shows "resolve_column_index ev t (cols ! i) = Inr i"
proof -
  have "binding_matches t (cols ! i) (bindings ev ! j) = (j = i)" if "j < length cols" for j
  proof -
    have "cols ! j = cols ! i \<longleftrightarrow> j = i" using cols(1) i that by (simp add: nth_eq_iff_index_eq)
    moreover have "cols ! j \<noteq> t @ ''.'' @ cols ! i"
      using cols(2) that by (metis append_Cons in_set_conv_decomp nth_mem)
    ultimately show ?thesis
      using t that by (auto simp: b table_bindings_def binding_matches_def)
  qed
  then have "filter (\<lambda>j. binding_matches t (cols ! i) (bindings ev ! j)) [0..<length (bindings ev)] =
      filter (\<lambda>j. j = i) [0..<length cols]"
    by (intro filter_cong) (simp_all add: b table_bindings_def)
  also have "\<dots> = [i]"
    using i by (rule filter_upt_single)
  finally have "filter (\<lambda>j. binding_matches t (cols ! i) (bindings ev ! j)) [0..<length (bindings ev)] = [i]" .
  then show ?thesis by (simp add: resolve_column_index_def)
qed

lemma table_column_value:
  assumes "bindings ev = table_bindings al phys cols" "distinct cols" "\<forall>c \<in> set cols. CHR ''.'' \<notin> set c"
    and i: "i < length cols" and "t = '''' \<or> t = al \<or> t = phys"
    and r: "length (row_values r) = length cols" and "local_variables ev (cols ! i) = None"
  shows "column_value ev r s t (cols ! i) = row_values r ! i"
  using resolve_table_column [OF assms(1-5)] assms
  by (auto simp: column_value_def evaluate_column_ref_def get_value_def get_column_count_def)

section \<open>Sample tables\<close>

lemma sample_ranges_eq:
  "sample_ranges = \<lparr>part_kind = RangeKind, key_column = ''id'', partitions = [int_range ''low'' 0 10, int_range ''high'' 10 20]\<rparr>"
  by code_simp

lemma sample_hashes_eq:
  "sample_hashes = \<lparr>part_kind = HashKind, key_column = ''id'', partitions = [hash_part ''even'' 2 0, hash_part ''odd'' 2 1]\<rparr>"
  by code_simp

lemma reachable_samples: "reachable_metadata sample_ranges" "reachable_metadata sample_hashes"
  unfolding sample_ranges_def sample_hashes_def by (intro reachable_metadata.intros)+

lemma exact_samples: "exact_bounds INT_T sample_ranges" "exact_bounds INT_T sample_hashes"
  by (simp_all add: exact_bounds_def sample_ranges_eq sample_hashes_eq int_range_def hash_part_def exact_of_def)

lemma collect_compare_id [simp]:
  "collect_predicates (compare_id t v) = Some [index_predicate (t, ''id'') Equal v]"
  by (simp add: compare_id_def)

lemma int_zero_equals_double_zero: "value_eq (IntV 0) (FloatV 0)"
proof -
  have zero: "i64_to_double 0 = 0"
    by (simp add: i64_to_double_def d_of_int_def d_round_def round_half_even_def bit_length.simps d_with_sign_def)
  have "d_sub 0 0 = 0"
    by (simp add: d_sub_def d_is_nan_def d_is_inf_def d_exponent_def d_fraction_def d_add_def d_flip_def d_key_def
      d_magnitude_def d_neg_def d_zero_def d_with_sign_def)
  moreover have "d_abs 0 = 0" by (simp add: d_abs_def)
  moreover have "d_lt 0 d_epsilon"
    by (simp add: d_lt_def d_is_nan_def d_exponent_def d_fraction_def d_key_def d_neg_def d_magnitude_def d_epsilon_def)
  ultimately show ?thesis by (simp add: zero d_close_def)
qed

lemmas scan_defs = scan_evaluator_def evaluator_for_table_def table_bindings_def make_evaluator_def compare_id_def
  bindM_def with_message_def evaluate_column_ref_def resolve_column_index_def binding_matches_def
  make_row_def compare_values_def get_value_def get_column_count_def

section \<open>Properties\<close>

text \<open>Whatever partitions are added to and removed from a table, a non-NULL key of an exactly compared type
  is routed to a child exactly when that child's bounds hold it; no key belongs to two partitions.\<close>

theorem partition_routing_exact:
  assumes "reachable_metadata m" "exact_bounds t m" "exact_of t k" "\<not> is_null k"
  shows "(resolveChild m k = Some c \<longleftrightarrow> (\<exists>p \<in> set (partitions m). childTableName p = c \<and> partition_holds p k)) \<and>
    (\<forall>p \<in> set (partitions m). \<forall>q \<in> set (partitions m). partition_holds p k \<longrightarrow> partition_holds q k \<longrightarrow> p = q)"
  using routing_exact [OF reachable_valid] partitions_unique [OF reachable_valid] assms by blast

theorem partition_routing_exact_witness:
  "resolveChild sample_ranges (IntV 12) = Some ''high'' \<and> partition_holds (int_range ''high'' 10 20) (IntV 12)"
proof -
  have "resolveChild sample_ranges (IntV 12) = Some ''high''" by code_simp
  then obtain p where "p \<in> set (partitions sample_ranges)" "childTableName p = ''high''" "partition_holds p (IntV 12)"
    using partition_routing_exact [OF reachable_samples(1) exact_samples(1), of "IntV 12" "''high''"]
    by (auto simp: exact_of_def)
  then show ?thesis
    using \<open>resolveChild sample_ranges (IntV 12) = Some ''high''\<close>
    by (auto simp: sample_ranges_eq int_range_def)
qed

text \<open>C10: Partition pruning is sound: a row that the WHERE condition of a scan accepts is in one of the partitions
  the scan visits, for range and for hash partitioning, when the predicates on the key compare it with values of its own
  exactly compared type and name the scanned table.\<close>

theorem partition_prune_sound:
  assumes m: "reachable_metadata m" "exact_bounds t m"
    and ev: "bindings ev = table_bindings al phys cols" "distinct cols" "\<forall>c \<in> set cols. CHR ''.'' \<notin> set c"
    and key: "i < length cols" "key_column m = cols ! i" "local_variables ev (cols ! i) = None"
    and preds: "\<forall>p \<in> set (key_predicates (key_column m) e).
      exact_of t (pred_literal p) \<and> table_qualifier p \<in> {'''', al, phys}"
    and r: "length (row_values r) = length cols" "exact_of t (row_values r ! i)"
    and accepted: "evaluate_condition d ev r e s = (Inr True, s')"
    and stored: "resolveChild m (row_values r ! i) = Some c"
  shows "c \<in> set (listPrunedPartitions (Some m) (Some e))"
proof -
  let ?k = "row_values r ! i"
  have "\<not> has_upper p \<and> exact_of t (pred_literal p) \<and> op_holds (pred_op p) ?k (pred_literal p)"
    if p: "p \<in> set (key_predicates (key_column m) e)" for p
  proof -
    obtain ps where ps: "collect_predicates e = Some ps" "p \<in> set ps" "pred_column p = cols ! i"
      using p key(2) by (cases "collect_predicates e") (auto simp: key_predicates_def)
    have "column_value ev r s (table_qualifier p) (pred_column p) = ?k"
      unfolding ps(3) using preds p by (intro table_column_value [OF ev key(1) _ r(1) key(3)]) auto
    then show ?thesis
      using condition_accepts [OF ps(1) accepted ps(2), of t] collected_no_upper [OF ps(1,2)] preds p r(2) by auto
  qed
  then show ?thesis
    using prune_holding [OF reachable_valid [OF m(1)] m(2) r(2) _ stored] stored
    by (auto simp: listPrunedPartitions_def prune_request_key resolveChild_def split: if_splits)
qed

theorem partition_prune_sound_witness:
  "''high'' \<in> set (listPrunedPartitions (Some sample_ranges) (Some (compare_id ''p'' (IntV 12) :: unit expression)))"
proof (rule partition_prune_sound [where t = INT_T and ev = "scan_evaluator :: (unit, unit) evaluator"
      and al = "''p''" and phys = "''parts''" and cols = "[''id'']" and i = 0 and r = "make_row [IntV 12]" and d = 0
      and s = "\<lparr>frames = [], error_msg = None, database = ()\<rparr>" and s' = "\<lparr>frames = [], error_msg = None, database = ()\<rparr>"])
  show "evaluate_condition 0 scan_evaluator (make_row [IntV 12]) (compare_id ''p'' (IntV 12) :: unit expression)
    \<lparr>frames = [], error_msg = None, database = ()\<rparr> = (Inr True, \<lparr>frames = [], error_msg = None, database = ()\<rparr>)"
    by (simp add: scan_defs)
  show "resolveChild sample_ranges (row_values (make_row [IntV 12]) ! 0) = Some ''high''"
    by code_simp
qed (use reachable_samples exact_samples in \<open>auto simp: scan_evaluator_def evaluator_for_table_def make_evaluator_def
    sample_ranges_eq key_predicates_def index_predicate_def exact_of_def make_row_def\<close>)

text \<open>Outside these conditions pruning loses rows. With hash partitioning an INT key and an equal FLOAT literal
  hash differently, so \<^verbatim>\<open>id = 0.0\<close> accepts the row with key 0 but the scan does not visit its partition; and a predicate on
  a column of an outer query with the key column's name prunes the partitions of the inner table.\<close>

theorem prune_drops_matching_rows:
  "evaluate_condition 0 (scan_evaluator :: (unit, unit) evaluator) (make_row [IntV 0]) (compare_id ''p'' (FloatV 0))
     \<lparr>frames = [], error_msg = None, database = ()\<rparr> = (Inr True, \<lparr>frames = [], error_msg = None, database = ()\<rparr>)
   \<and> resolveChild sample_hashes (IntV 0) = Some ''odd''
   \<and> listPrunedPartitions (Some sample_hashes) (Some (compare_id ''p'' (FloatV 0) :: unit expression)) = [''even'']
   \<and> (let outer = pushFrame (table_bindings ''o'' ''outer'' [''id'']) (make_row [IntV 1]) [] in
      evaluate_condition 0 (scan_evaluator\<lparr>correlation := True\<rparr> :: (unit, unit) evaluator) (make_row [IntV 12])
        (compare_id ''o'' (IntV 1)) \<lparr>frames = outer, error_msg = None, database = ()\<rparr> =
      (Inr True, \<lparr>frames = outer, error_msg = None, database = ()\<rparr>))
   \<and> resolveChild sample_ranges (IntV 12) = Some ''high''
   \<and> listPrunedPartitions (Some sample_ranges) (Some (compare_id ''o'' (IntV 1) :: unit expression)) = [''low'']"
  (is "?A \<and> ?B \<and> ?C \<and> ?D \<and> ?E \<and> ?F")
proof (intro conjI)
  show ?B by code_simp
  show ?C by code_simp
  show ?E by code_simp
  show ?F by code_simp
  show ?D by (simp add: scan_defs lookup_correlated_def pushFrame_def add_binding_def)
  show ?A using int_zero_equals_double_zero by (simp add: scan_defs)
qed

end
