(* ===== verification/Wal.thy ===== *)
theory Wal
  imports Files Partitions
begin

text \<open>
  Durability: the partition sidecars of \<^verbatim>\<open>src/core/partition_catalog.cc\<close>, the write-ahead log of
  \<^verbatim>\<open>src/storage/wal_manager.cc\<close>, the file protocol of \<^verbatim>\<open>PersistenceManager::save_table\<close>, and the checkpoint
  \<^verbatim>\<open>Database::flush_dirty_tables_locked\<close> that composes them. The main result is crash atomicity: wherever the
  process stops during a checkpoint, and however often it stops again while recovering, the table files end up
  all old or all new.
\<close>

section \<open>Partition sidecars\<close>

text \<open>The files are text; lines end with a newline.\<close>

fun data_type_tag :: "data_type \<Rightarrow> string" where
  "data_type_tag INT_T = ''INT''"
| "data_type_tag FLOAT_T = ''FLOAT''"
| "data_type_tag STRING_T = ''STRING''"
| "data_type_tag BOOLEAN_T = ''BOOLEAN''"
| "data_type_tag DATE_T = ''DATE''"
| "data_type_tag UUID_T = ''UUID''"

definition tag_data_type :: "string \<Rightarrow> data_type result" where
  "tag_data_type tag =
     (if tag = ''INT'' then Inr INT_T
      else if tag = ''FLOAT'' then Inr FLOAT_T
      else if tag = ''STRING'' then Inr STRING_T
      else if tag = ''BOOLEAN'' then Inr BOOLEAN_T
      else if tag = ''DATE'' then Inr DATE_T
      else if tag = ''UUID'' then Inr UUID_T
      else Inl (StorageException (''Unknown value type tag: '' @ tag)))"

definition partition_path :: "string \<Rightarrow> string \<Rightarrow> string" where
  "partition_path dir parent = dir @ ''/_partitions/'' @ parent @ ''.part''"

definition serializeValue :: "sql_value \<Rightarrow> string" where
  "serializeValue v =
     (if is_null v then ''NULL:'' else data_type_tag (get_type v) @ '':'' @ value_to_string v)"

definition deserializeValue :: "string \<Rightarrow> sql_value result" where
  "deserializeValue txt =
     (if CHR '':'' \<notin> set txt then Inl (StorageException ''Invalid partition value encoding'')
      else let tag = takeWhile (\<lambda>c. c \<noteq> CHR '':'') txt; payload = tl (dropWhile (\<lambda>c. c \<noteq> CHR '':'') txt) in
        if tag = ''NULL'' then Inr NullV
        else bindR (tag_data_type tag) (\<lambda>t. string_to_value payload t))"

definition newline :: char where
  "newline = CHR 0x0A"

definition partition_lines :: "partition_kind \<Rightarrow> partition_descriptor \<Rightarrow> string list result" where
  "partition_lines k p =
     (if k = RangeKind then
        (case range_bound (part_bound p) of
           None \<Rightarrow> Inl UndefinedBehaviour
         | Some b \<Rightarrow> Inr [childTableName p, serializeValue (minInclusive b), serializeValue (maxExclusive b)])
      else
        (case hash_bound (part_bound p) of
           None \<Rightarrow> Inl UndefinedBehaviour
         | Some b \<Rightarrow> Inr [childTableName p, i64_to_text (modulus b), i64_to_text (remainder b)]))"

definition partition_text :: "partitioned_table_metadata \<Rightarrow> string result" where
  "partition_text m =
     bindR (mapR (partition_lines (part_kind m)) (partitions m)) (\<lambda>ls.
     Inr (concat (map (\<lambda>l. l @ [newline])
       ([''v1'', if part_kind m = RangeKind then ''RANGE'' else ''HASH'', key_column m,
         nat_digits (length (partitions m))] @ concat ls))))"

definition saveParent :: "string \<Rightarrow> string \<Rightarrow> partitioned_table_metadata \<Rightarrow> (disk, unit) proc" where
  "saveParent dir parent m =
     (let path = partition_path dir parent; tmpPath = path @ ''.tmp'' in
      bindM (open_trunc ''Cannot write partition file: '' tmpPath) (\<lambda>_.
      bindM (liftR (partition_text m)) (\<lambda>txt.
      bindM (write_bytes tmpPath (string_bytes txt)) (\<lambda>_.
      rename_file tmpPath path))))"

definition removeParentFile :: "string \<Rightarrow> string \<Rightarrow> (disk, unit) proc" where
  "removeParentFile dir parent = remove_file (partition_path dir parent)"

section \<open>The write-ahead log\<close>

datatype record_type = TableBlob | Commit | Done

fun record_code :: "record_type \<Rightarrow> u8" where
  "record_code TableBlob = 1"
| "record_code Commit = 2"
| "record_code Done = 3"

definition wal_path :: "string \<Rightarrow> string" where
  "wal_path dir = dir @ ''/wal.log''"

definition append_record :: "string \<Rightarrow> record_type \<Rightarrow> bytes \<Rightarrow> (disk, unit) proc" where
  "append_record dir t payload =
     (let path = wal_path dir; size = (of_nat (length payload) :: u32) in
      bindM (open_append ''Cannot open WAL for append: '' path) (\<lambda>_.
      bindM (write_bytes path [record_code t]) (\<lambda>_.
      bindM (write_bytes path (le_bytes 4 size)) (\<lambda>_.
      if payload \<noteq> [] then write_bytes path payload else ret ()))))"

definition blob_payload :: "string \<Rightarrow> bytes \<Rightarrow> bytes" where
  "blob_payload table_name blob =
     (let name_len = (of_nat (length table_name) :: u16) in
      [ucast (name_len AND 0xff), ucast (drop_bit 8 name_len AND 0xff)] @ string_bytes table_name @ blob)"

definition append_table_blob :: "string \<Rightarrow> string \<Rightarrow> bytes \<Rightarrow> (disk, unit) proc" where
  "append_table_blob dir table_name blob = append_record dir TableBlob (blob_payload table_name blob)"

definition append_commit :: "string \<Rightarrow> u64 \<Rightarrow> (disk, unit) proc" where
  "append_commit dir txn_id = append_record dir Commit (le_bytes 8 txn_id)"

definition append_done :: "string \<Rightarrow> (disk, unit) proc" where
  "append_done dir = append_record dir Done []"

definition sync :: "string \<Rightarrow> (disk, unit) proc" where
  "sync dir d = (if denied d (wal_path dir) then (Inr (), d) else open_append '''' (wal_path dir) d)"

definition truncate_log :: "string \<Rightarrow> (disk, unit) proc" where
  "truncate_log dir = remove_file (wal_path dir)"

subsection \<open>Recovery\<close>

record wal_scan =
  pending :: "(string \<times> bytes) list"
  saw_commit :: bool
  saw_done :: bool

definition empty_scan :: wal_scan where
  "empty_scan = \<lparr>pending = [], saw_commit = False, saw_done = False\<rparr>"

definition blob_record :: "bytes \<Rightarrow> (string \<times> bytes) option" where
  "blob_record payload =
     (if length payload < 2 then None
      else let name_len = unat ((ucast (payload ! 0) OR push_bit 8 (ucast (payload ! 1))) :: u16) in
        if length payload < 2 + name_len then None
        else Some (bytes_string (slice payload 2 name_len), drop (2 + name_len) payload))"

definition apply_record :: "u8 \<Rightarrow> bytes \<Rightarrow> wal_scan \<Rightarrow> wal_scan" where
  "apply_record type_val payload st =
     (if type_val = record_code TableBlob then
        (case blob_record payload of None \<Rightarrow> st | Some item \<Rightarrow> st\<lparr>pending := pending st @ [item]\<rparr>)
      else if type_val = record_code Commit then st\<lparr>saw_commit := True\<rparr>
      else if type_val = record_code Done then st\<lparr>saw_done := True, pending := [], saw_commit := False\<rparr>
      else st)"

function scan_log :: "bytes \<Rightarrow> wal_scan \<Rightarrow> wal_scan" where
  "scan_log bs st =
     (case bs of
        [] \<Rightarrow> st
      | type_val # rest \<Rightarrow>
        if length rest < 4 then st
        else let size = unat (le_word (take 4 rest) :: u32); body = drop 4 rest in
          if length body < size then st
          else scan_log (drop size body) (apply_record type_val (take size body) st))"
  by pat_completeness auto
termination
  by (relation "measure (\<lambda>(bs, _). length bs)") auto

declare scan_log.simps [simp del]

definition table_file_path :: "string \<Rightarrow> string \<Rightarrow> string" where
  "table_file_path dir name = dir @ ''/'' @ name @ ''.db''"

definition restore_blob :: "string \<Rightarrow> string \<times> bytes \<Rightarrow> (disk, unit) proc" where
  "restore_blob dir item =
     (let dest = table_file_path dir (fst item); temp = dest @ ''.tmp'' in
      bindM (open_trunc ''WAL recovery write failed: '' temp) (\<lambda>_.
      bindM (write_bytes temp (snd item)) (\<lambda>_.
      rename_file temp dest)))"

definition recover :: "string \<Rightarrow> (disk, unit) proc" where
  "recover dir d =
     (case files d (wal_path dir) of
        None \<Rightarrow> (Inr (), d)
      | Some bs \<Rightarrow>
        if denied d (wal_path dir) then (Inl (StorageException (''Cannot open WAL for recovery: '' @ wal_path dir)), d)
        else let st = scan_log bs empty_scan in
          bindM (if saw_commit st \<and> \<not> saw_done st then forM (restore_blob dir) (pending st) else ret ())
            (\<lambda>_. truncate_log dir) d)"

section \<open>Checkpoints\<close>

text \<open>
  A table to be written: its name, the bytes of its file, and its partition metadata if it is a partitioned
  parent. \<open>save_image\<close> is the file protocol of \<^verbatim>\<open>save_table\<close>, with its handlers.
\<close>

record dirty_table =
  dt_name :: string
  dt_image :: bytes
  dt_partition :: "partitioned_table_metadata option"

definition save_image :: "string \<Rightarrow> bytes \<Rightarrow> (disk, unit) proc" where
  "save_image path img =
     (let temp = path @ ''.tmp'' in
      catchM
        (bindM (open_trunc ''Cannot open file for writing: '' temp) (\<lambda>_.
         bindM (write_bytes temp img) (\<lambda>_.
         rename_file temp path)))
        (\<lambda>e. if e = Halted then throw e
             else bindM (remove_file temp) (\<lambda>_.
               throw (if is_storage_exception e then e
                      else StorageException (''Error saving table: '' @ what e)))))"

definition stage_path :: "string \<Rightarrow> string \<Rightarrow> string" where
  "stage_path dir name = dir @ ''/.wal_stage_'' @ name @ ''.db''"

definition publish_table :: "string \<Rightarrow> dirty_table \<Rightarrow> (disk, unit) proc" where
  "publish_table dir t =
     bindM (rename_file (stage_path dir (dt_name t)) (table_file_path dir (dt_name t))) (\<lambda>_.
     case dt_partition t of None \<Rightarrow> ret () | Some m \<Rightarrow> saveParent dir (dt_name t) m)"

definition flush_dirty_tables_locked :: "string \<Rightarrow> dirty_table list \<Rightarrow> (disk, unit) proc" where
  "flush_dirty_tables_locked dir dirty =
     bindM (forM (\<lambda>t. save_image (stage_path dir (dt_name t)) (dt_image t)) dirty) (\<lambda>_.
     if dirty = [] then ret ()
     else
       bindM (forM (\<lambda>t. bindM (read_file_bytes (stage_path dir (dt_name t)))
                (\<lambda>blob. append_table_blob dir (dt_name t) blob)) dirty) (\<lambda>_.
       bindM (append_commit dir 0) (\<lambda>_.
       bindM (sync dir) (\<lambda>_.
       bindM (forM (publish_table dir) dirty) (\<lambda>_.
       truncate_log dir)))))"

section \<open>Specification vocabulary\<close>

definition log_record :: "record_type \<Rightarrow> bytes \<Rightarrow> bytes" where
  "log_record t payload = record_code t # le_bytes 4 (of_nat (length payload) :: u32) @ payload"

definition checkpoint_log :: "dirty_table list \<Rightarrow> bytes" where
  "checkpoint_log dirty =
     concat (map (\<lambda>t. log_record TableBlob (blob_payload (dt_name t) (dt_image t))) dirty) @
     log_record Commit (le_bytes 8 (0 :: u64))"

text \<open>The length fields of the log are wide enough for a table.\<close>

definition fits_log :: "dirty_table \<Rightarrow> bool" where
  "fits_log t = (length (dt_name t) < 2 ^ 16 \<and> length (dt_name t) + length (dt_image t) + 2 < 2 ^ 32)"

text \<open>
  A checkpoint of the tables \<open>dirty\<close> into \<open>dir\<close> starts from the files \<open>f0\<close>. The predicates describe
  the files it reaches; \<open>touched\<close> are the paths it may write.
\<close>

definition touched :: "string \<Rightarrow> dirty_table list \<Rightarrow> string set" where
  "touched dir dirty =
     insert (wal_path dir) (\<Union>t \<in> set dirty. let n = dt_name t in
       {table_file_path dir n, table_file_path dir n @ ''.tmp'', stage_path dir n, stage_path dir n @ ''.tmp'',
        partition_path dir n, partition_path dir n @ ''.tmp''})"

definition framed :: "string \<Rightarrow> dirty_table list \<Rightarrow> (string \<rightharpoonup> bytes) \<Rightarrow> (string \<rightharpoonup> bytes) \<Rightarrow> bool" where
  "framed dir dirty f0 f = (\<forall>p. p \<notin> touched dir dirty \<longrightarrow> f p = f0 p)"

definition old_tables :: "string \<Rightarrow> dirty_table set \<Rightarrow> (string \<rightharpoonup> bytes) \<Rightarrow> (string \<rightharpoonup> bytes) \<Rightarrow> bool" where
  "old_tables dir ts f0 f = (\<forall>t \<in> ts. f (table_file_path dir (dt_name t)) = f0 (table_file_path dir (dt_name t)))"

definition new_tables :: "string \<Rightarrow> dirty_table set \<Rightarrow> (string \<rightharpoonup> bytes) \<Rightarrow> bool" where
  "new_tables dir ts f = (\<forall>t \<in> ts. f (table_file_path dir (dt_name t)) = Some (dt_image t))"

definition mixed_tables :: "string \<Rightarrow> dirty_table set \<Rightarrow> (string \<rightharpoonup> bytes) \<Rightarrow> (string \<rightharpoonup> bytes) \<Rightarrow> bool" where
  "mixed_tables dir ts f0 f =
     (\<forall>t \<in> ts. f (table_file_path dir (dt_name t)) \<in> {f0 (table_file_path dir (dt_name t)), Some (dt_image t)})"

definition staged :: "string \<Rightarrow> dirty_table set \<Rightarrow> (string \<rightharpoonup> bytes) \<Rightarrow> bool" where
  "staged dir ts f = (\<forall>t \<in> ts. f (stage_path dir (dt_name t)) = Some (dt_image t))"

definition torn_log :: "bytes \<Rightarrow> bytes option \<Rightarrow> bool" where
  "torn_log full c = (c = None \<or> (\<exists>k < length full. c = Some (take k full)))"

definition uncommitted :: "string \<Rightarrow> dirty_table list \<Rightarrow> (string \<rightharpoonup> bytes) \<Rightarrow> (string \<rightharpoonup> bytes) \<Rightarrow> bool" where
  "uncommitted dir dirty f0 f =
     (framed dir dirty f0 f \<and> old_tables dir (set dirty) f0 f \<and> torn_log (checkpoint_log dirty) (f (wal_path dir)))"

definition committed :: "string \<Rightarrow> dirty_table list \<Rightarrow> (string \<rightharpoonup> bytes) \<Rightarrow> (string \<rightharpoonup> bytes) \<Rightarrow> bool" where
  "committed dir dirty f0 f =
     (framed dir dirty f0 f \<and> mixed_tables dir (set dirty) f0 f \<and> f (wal_path dir) = Some (checkpoint_log dirty))"

definition finished :: "string \<Rightarrow> dirty_table list \<Rightarrow> (string \<rightharpoonup> bytes) \<Rightarrow> (string \<rightharpoonup> bytes) \<Rightarrow> bool" where
  "finished dir dirty f0 f =
     (framed dir dirty f0 f \<and> new_tables dir (set dirty) f \<and> f (wal_path dir) = None)"

definition checkpointable :: "dirty_table list \<Rightarrow> bool" where
  "checkpointable dirty =
     (distinct (map dt_name dirty) \<and> (\<forall>t \<in> set dirty. CHR ''.'' \<notin> set (dt_name t) \<and> fits_log t))"

definition blob_log :: "dirty_table list \<Rightarrow> bytes" where
  "blob_log ts = concat (map (\<lambda>t. log_record TableBlob (blob_payload (dt_name t) (dt_image t))) ts)"

definition staging :: "string \<Rightarrow> dirty_table list \<Rightarrow> (string \<rightharpoonup> bytes) \<Rightarrow> dirty_table list \<Rightarrow> (string \<rightharpoonup> bytes) \<Rightarrow> bool" where
  "staging dir dirty f0 xs f =
     (framed dir dirty f0 f \<and> old_tables dir (set dirty) f0 f \<and> staged dir (set xs) f \<and> f (wal_path dir) = None)"

definition logging :: "string \<Rightarrow> dirty_table list \<Rightarrow> (string \<rightharpoonup> bytes) \<Rightarrow> (string \<rightharpoonup> bytes) \<Rightarrow> bool" where
  "logging dir dirty f0 f =
     (framed dir dirty f0 f \<and> old_tables dir (set dirty) f0 f \<and> staged dir (set dirty) f)"

definition publishing :: "string \<Rightarrow> dirty_table list \<Rightarrow> (string \<rightharpoonup> bytes) \<Rightarrow> dirty_table list \<Rightarrow> (string \<rightharpoonup> bytes) \<Rightarrow> bool" where
  "publishing dir dirty f0 xs f =
     (framed dir dirty f0 f \<and> new_tables dir (set xs) f \<and> old_tables dir (set dirty - set xs) f0 f \<and>
      staged dir (set dirty - set xs) f \<and> f (wal_path dir) = Some (checkpoint_log dirty))"

definition crash_state :: "string \<Rightarrow> dirty_table list \<Rightarrow> (string \<rightharpoonup> bytes) \<Rightarrow> (string \<rightharpoonup> bytes) \<Rightarrow> bool" where
  "crash_state dir dirty f0 f =
     (uncommitted dir dirty f0 f \<or> committed dir dirty f0 f \<or> finished dir dirty f0 f)"

definition restoring :: "string \<Rightarrow> dirty_table list \<Rightarrow> (string \<rightharpoonup> bytes) \<Rightarrow> dirty_table list \<Rightarrow> (string \<rightharpoonup> bytes) \<Rightarrow> bool" where
  "restoring dir dirty f0 xs f = (committed dir dirty f0 f \<and> new_tables dir (set xs) f)"

text \<open>A restart that is stopped again, or fails, in the middle of recovery. Between two restarts only the files
  survive.\<close>

definition failed_recovery :: "string \<Rightarrow> (string \<rightharpoonup> bytes) \<Rightarrow> (string \<rightharpoonup> bytes) \<Rightarrow> bool" where
  "failed_recovery dir f f' = (\<exists>d e d'. files d = f \<and> recover dir d = (Inl e, d') \<and> files d' = f')"

definition empty_disk :: "nat \<Rightarrow> disk" where
  "empty_disk n = \<lparr>files = Map.empty, denied = (\<lambda>_. False), budget = n\<rparr>"

definition two_dirty :: "dirty_table list" where
  "two_dirty = [\<lparr>dt_name = ''a'', dt_image = [1, 2], dt_partition = None\<rparr>,
     \<lparr>dt_name = ''b'', dt_image = [3], dt_partition = None\<rparr>]"

section \<open>The log as a sequence of records\<close>

lemma unat_u32_length: "n < 2 ^ 32 \<Longrightarrow> unat (of_nat n :: u32) = n"
  by (simp add: unat_of_nat take_bit_nat_eq_self)

lemma log_record_size: "length (log_record t payload) = 5 + length payload"
  by (simp add: log_record_def)

lemma scan_log_record:
  assumes "length payload < 2 ^ 32"
  shows "scan_log (log_record t payload @ rest) st = scan_log rest (apply_record (record_code t) payload st)"
proof -
  have "le_word (le_bytes 4 (of_nat (length payload) :: u32)) = (of_nat (length payload) :: u32)"
    by (rule le_word_le_bytes_full) simp
  then show ?thesis
    using assms by (subst scan_log.simps) (simp add: log_record_def Let_def unat_u32_length)
qed

lemma scan_log_torn:
  assumes "length payload < 2 ^ 32" "k < length (log_record t payload)"
  shows "scan_log (take k (log_record t payload)) st = st"
proof (cases k)
  case 0
  then show ?thesis by (subst scan_log.simps) simp
next
  case (Suc j)
  have "le_word (le_bytes 4 (of_nat (length payload) :: u32)) = (of_nat (length payload) :: u32)"
    by (rule le_word_le_bytes_full) simp
  then show ?thesis
    using assms Suc
    by (subst scan_log.simps) (auto simp: log_record_def Let_def unat_u32_length min_def)
qed

lemma length_blob_payload [simp]: "length (blob_payload n b) = 2 + length n + length b"
  by (simp add: blob_payload_def Let_def)

lemma blob_record_payload:
  assumes "length n < 2 ^ 16"
  shows "blob_record (blob_payload n b) = Some (n, b)"
proof -
  let ?w = "of_nat (length n) :: u16"
  have w: "(ucast (ucast (?w AND 0xff) :: u8) OR push_bit 8 (ucast (ucast (drop_bit 8 ?w AND 0xff) :: u8)) :: u16) = ?w"
    by (rule bit_word_eqI) (auto simp: bit_simps and_byte_mask not_less)
  have "unat ?w = length n"
    using assms by (simp add: unat_of_nat take_bit_nat_eq_self)
  with w show ?thesis
    by (simp add: blob_record_def blob_payload_def Let_def slice_def)
qed

lemma scan_checkpoint:
  assumes "\<forall>t \<in> set dirty. fits_log t"
  shows "scan_log (checkpoint_log dirty) st =
    st\<lparr>pending := pending st @ map (\<lambda>t. (dt_name t, dt_image t)) dirty, saw_commit := True\<rparr>"
  using assms
proof (induction dirty arbitrary: st)
  case Nil
  have "scan_log [] st' = st'" for st' by (subst scan_log.simps) simp
  then show ?case
    using scan_log_record [of "le_bytes 8 (0 :: u64)" Commit "[]" st]
    by (simp add: checkpoint_log_def apply_record_def)
next
  case (Cons t dirty)
  then have "length (blob_payload (dt_name t) (dt_image t)) < 2 ^ 32" "blob_record (blob_payload (dt_name t) (dt_image t)) = Some (dt_name t, dt_image t)"
    by (auto simp: fits_log_def blob_record_payload)
  with Cons show ?case
    by (simp add: checkpoint_log_def scan_log_record apply_record_def)
qed

lemma scan_partial_checkpoint:
  assumes "\<forall>t \<in> set dirty. fits_log t" "k < length (checkpoint_log dirty)" "\<not> saw_commit st"
  shows "\<not> saw_commit (scan_log (take k (checkpoint_log dirty)) st)"
  using assms
proof (induction dirty arbitrary: st k)
  case Nil
  then show ?case using scan_log_torn [of "le_bytes 8 (0 :: u64)" k Commit st]
    by (simp add: checkpoint_log_def)
next
  case (Cons t dirty)
  let ?r = "log_record TableBlob (blob_payload (dt_name t) (dt_image t))"
  have fits: "length (blob_payload (dt_name t) (dt_image t)) < 2 ^ 32"
    using Cons.prems(1) by (auto simp: fits_log_def)
  have split: "checkpoint_log (t # dirty) = ?r @ checkpoint_log dirty"
    by (simp add: checkpoint_log_def)
  show ?case
  proof (cases "k < length ?r")
    case True
    then show ?thesis using Cons.prems(3) scan_log_torn [OF fits True] by (simp add: split)
  next
    case False
    let ?st = "apply_record (record_code TableBlob) (blob_payload (dt_name t) (dt_image t)) st"
    have "\<not> saw_commit ?st"
      using Cons.prems(3) by (auto simp: apply_record_def split: option.splits)
    moreover have "k - length ?r < length (checkpoint_log dirty)"
      using Cons.prems(2) False by (simp add: split)
    ultimately have "\<not> saw_commit (scan_log (take (k - length ?r) (checkpoint_log dirty)) ?st)"
      using Cons.IH Cons.prems(1) by simp
    then show ?thesis
      using False scan_log_record [OF fits, of TableBlob "take (k - length ?r) (checkpoint_log dirty)" st]
      by (simp add: split)
  qed
qed

section \<open>Paths\<close>

lemma last_paths [simp]:
  "last (table_file_path dir n) = CHR ''b''" "last (stage_path dir n) = CHR ''b''"
  "last (wal_path dir) = CHR ''g''" "last (partition_path dir n) = CHR ''t''" "last (p @ ''.tmp'') = CHR ''p''"
  by (simp_all add: table_file_path_def stage_path_def wal_path_def partition_path_def)

lemma last_differs: "last xs \<noteq> last ys \<Longrightarrow> xs \<noteq> ys"
  by auto

lemma paths_differ [simp]:
  "table_file_path dir n \<noteq> wal_path dir" "wal_path dir \<noteq> table_file_path dir n"
  "table_file_path dir n \<noteq> p @ ''.tmp''" "p @ ''.tmp'' \<noteq> table_file_path dir n"
  "table_file_path dir n \<noteq> partition_path dir m" "partition_path dir m \<noteq> table_file_path dir n"
  "stage_path dir n \<noteq> wal_path dir" "wal_path dir \<noteq> stage_path dir n"
  "stage_path dir n \<noteq> p @ ''.tmp''" "p @ ''.tmp'' \<noteq> stage_path dir n"
  "stage_path dir n \<noteq> partition_path dir m" "partition_path dir m \<noteq> stage_path dir n"
  "wal_path dir \<noteq> p @ ''.tmp''" "p @ ''.tmp'' \<noteq> wal_path dir"
  "wal_path dir \<noteq> partition_path dir m" "partition_path dir m \<noteq> wal_path dir"
  by (rule last_differs, (simp; fail))+

lemma paths_inject [simp]:
  "table_file_path dir n = table_file_path dir m \<longleftrightarrow> n = m"
  "stage_path dir n = stage_path dir m \<longleftrightarrow> n = m"
  by (simp_all add: table_file_path_def stage_path_def)

lemma stage_not_table [simp]:
  assumes "CHR ''.'' \<notin> set n"
  shows "stage_path dir m \<noteq> table_file_path dir n" "table_file_path dir n \<noteq> stage_path dir m"
proof -
  show ne: "stage_path dir m \<noteq> table_file_path dir n"
  proof
    assume "stage_path dir m = table_file_path dir n"
    then have "(''.wal_stage_'' @ m) @ ''.db'' = n @ ''.db''"
      by (simp add: stage_path_def table_file_path_def)
    then have "n = ''.wal_stage_'' @ m"
      by (simp only: append_same_eq)
    then show False using assms by simp
  qed
  then show "table_file_path dir n \<noteq> stage_path dir m" by (rule not_sym)
qed

section \<open>States a checkpoint can leave behind\<close>

lemma checkpointableD:
  assumes "checkpointable dirty" "t \<in> set dirty"
  shows "CHR ''.'' \<notin> set (dt_name t)" "fits_log t"
    "\<And>u. u \<in> set dirty \<Longrightarrow> dt_name u = dt_name t \<longleftrightarrow> u = t"
  using assms by (auto simp: checkpointable_def distinct_map inj_on_def)

lemma touched_paths:
  assumes "t \<in> set dirty"
  shows "table_file_path dir (dt_name t) \<in> touched dir dirty"
    "table_file_path dir (dt_name t) @ ''.tmp'' \<in> touched dir dirty"
    "stage_path dir (dt_name t) \<in> touched dir dirty" "stage_path dir (dt_name t) @ ''.tmp'' \<in> touched dir dirty"
    "partition_path dir (dt_name t) \<in> touched dir dirty" "partition_path dir (dt_name t) @ ''.tmp'' \<in> touched dir dirty"
    "wal_path dir \<in> touched dir dirty"
  using assms by (auto simp: touched_def Let_def)

subsection \<open>Updates that keep them\<close>

lemma framed_upd: "framed dir dirty f0 f \<Longrightarrow> p \<in> touched dir dirty \<Longrightarrow> framed dir dirty f0 (f(p := c))"
  by (auto simp: framed_def)

lemma old_tables_upd:
  "old_tables dir ts f0 f \<Longrightarrow> (\<And>t. t \<in> ts \<Longrightarrow> p \<noteq> table_file_path dir (dt_name t)) \<Longrightarrow> old_tables dir ts f0 (f(p := c))"
  by (auto simp: old_tables_def)

lemma new_tables_upd:
  "new_tables dir ts f \<Longrightarrow> (\<And>t. t \<in> ts \<Longrightarrow> p \<noteq> table_file_path dir (dt_name t)) \<Longrightarrow> new_tables dir ts (f(p := c))"
  by (auto simp: new_tables_def)

lemma mixed_tables_upd:
  "mixed_tables dir ts f0 f \<Longrightarrow> (\<And>t. t \<in> ts \<Longrightarrow> p \<noteq> table_file_path dir (dt_name t)) \<Longrightarrow> mixed_tables dir ts f0 (f(p := c))"
  by (auto simp: mixed_tables_def)

lemma mixed_tables_publish:
  assumes "mixed_tables dir ts f0 f" "p = table_file_path dir (dt_name t)" "\<And>u. u \<in> ts \<Longrightarrow> dt_name u = dt_name t \<Longrightarrow> u = t"
  shows "mixed_tables dir ts f0 (f(p \<mapsto> dt_image t))"
  using assms by (auto simp: mixed_tables_def)

lemma staged_upd:
  "staged dir ts f \<Longrightarrow> (\<And>t. t \<in> ts \<Longrightarrow> p \<noteq> stage_path dir (dt_name t)) \<Longrightarrow> staged dir ts (f(p := c))"
  by (auto simp: staged_def)

lemma old_mixed: "old_tables dir ts f0 f \<Longrightarrow> mixed_tables dir ts f0 f"
  by (auto simp: old_tables_def mixed_tables_def)

lemma triple_catch:
  assumes "triple P m Q R'" "\<And>e. triple R' (h e) Q R"
  shows "triple P (catchM m h) Q R"
proof (rule tripleI)
  fix s x t assume "P s" "catchM m h s = (Inr x, t)"
  then consider "m s = (Inr x, t)" | e u where "m s = (Inl e, u)" "h e u = (Inr x, t)" by (auto simp: catchM_eq_Inr)
  then show "Q x t"
    by cases (use triple_Inr triple_Inl assms \<open>P s\<close> in metis)+
next
  fix s e t assume "P s" "catchM m h s = (Inl e, t)"
  then obtain e' u where "m s = (Inl e', u)" "h e' u = (Inl e, t)"
    by (auto simp: catchM_def split: prod.splits sum.splits)
  then show "R t" using triple_Inl assms \<open>P s\<close> by metis
qed

lemma triple_throw: "(\<And>s. P s \<Longrightarrow> R s) \<Longrightarrow> triple P (throw e) Q R"
  by (simp add: triple_def)

section \<open>Replacing a file through a temporary\<close>

lemma triple_replace_file:
  assumes temp: "\<And>f c. Inv f \<Longrightarrow> Inv (f(tmp := c))"
    and dest: "\<And>f. Inv f \<Longrightarrow> Inv' (f(tmp := None, path \<mapsto> img))"
  shows "triple (\<lambda>d. Inv (files d))
    (bindM (open_trunc msg tmp) (\<lambda>_. bindM (write_bytes tmp img) (\<lambda>_. rename_file tmp path)))
    (\<lambda>_ d. Inv' (files d)) (\<lambda>d. Inv (files d))"
proof (rule triple_bind)
  show "triple (\<lambda>d. Inv (files d)) (open_trunc msg tmp) (\<lambda>_ d. Inv (files d) \<and> contents d tmp = []) (\<lambda>d. Inv (files d))"
    by (rule triple_open_trunc) (auto simp: contents_def temp)
  show "triple (\<lambda>d. Inv (files d) \<and> contents d tmp = []) (bindM (write_bytes tmp img) (\<lambda>_. rename_file tmp path))
    (\<lambda>_ d. Inv' (files d)) (\<lambda>d. Inv (files d))" for x :: unit
  proof (rule triple_bind)
    show "triple (\<lambda>d. Inv (files d) \<and> contents d tmp = []) (write_bytes tmp img)
      (\<lambda>_ d. Inv (files d) \<and> files d tmp = Some img) (\<lambda>d. Inv (files d))"
      by (rule triple_write_bytes) (auto simp: temp)
    show "triple (\<lambda>d. Inv (files d) \<and> files d tmp = Some img) (rename_file tmp path)
      (\<lambda>_ d. Inv' (files d)) (\<lambda>d. Inv (files d))" for x :: unit
      by (rule triple_rename) (auto intro: dest)
  qed
qed

lemma triple_save_image:
  assumes temp: "\<And>f c. Inv f \<Longrightarrow> Inv (f(path @ ''.tmp'' := c))"
    and dest: "\<And>f. Inv f \<Longrightarrow> Inv' (f(path @ ''.tmp'' := None, path \<mapsto> img))"
  shows "triple (\<lambda>d. Inv (files d)) (save_image path img) (\<lambda>_ d. Inv' (files d)) (\<lambda>d. Inv (files d))"
  unfolding save_image_def Let_def
proof (rule triple_catch)
  show "triple (\<lambda>d. Inv (files d))
    (bindM (open_trunc ''Cannot open file for writing: '' (path @ ''.tmp'')) (\<lambda>_.
     bindM (write_bytes (path @ ''.tmp'') img) (\<lambda>_. rename_file (path @ ''.tmp'') path)))
    (\<lambda>_ d. Inv' (files d)) (\<lambda>d. Inv (files d))"
    by (rule triple_replace_file [where Inv = Inv and Inv' = Inv']) (simp_all add: temp dest)
  show "triple (\<lambda>d. Inv (files d))
    (if e = Halted then throw e else bindM (remove_file (path @ ''.tmp'')) (\<lambda>_. throw
       (if is_storage_exception e then e else StorageException (''Error saving table: '' @ what e))))
    (\<lambda>_ d. Inv' (files d)) (\<lambda>d. Inv (files d))" for e
    by (auto simp: remove_file_def intro!: triple_throw triple_bind [where Q = "\<lambda>_ d. Inv (files d)"]
        triple_set_file temp)
qed

lemma triple_saveParent:
  assumes keep: "\<And>f p c. Inv f \<Longrightarrow> p \<in> {partition_path dir n, partition_path dir n @ ''.tmp''} \<Longrightarrow> Inv (f(p := c))"
  shows "triple (\<lambda>d. Inv (files d)) (saveParent dir n m) (\<lambda>_ d. Inv (files d)) (\<lambda>d. Inv (files d))"
proof (cases "partition_text m")
  case (Inr body)
  then have "saveParent dir n m =
    bindM (open_trunc ''Cannot write partition file: '' (partition_path dir n @ ''.tmp'')) (\<lambda>_.
    bindM (write_bytes (partition_path dir n @ ''.tmp'') (string_bytes body)) (\<lambda>_.
    rename_file (partition_path dir n @ ''.tmp'') (partition_path dir n)))"
    by (simp add: saveParent_def Let_def bindM_liftR)
  then show ?thesis
    using triple_replace_file [where Inv = Inv and Inv' = Inv and tmp = "partition_path dir n @ ''.tmp''"
        and path = "partition_path dir n"] keep by simp
next
  case (Inl e)
  then have "triple (\<lambda>d. Inv (files d)) (bindM (liftR (partition_text m)) f) (\<lambda>_ d. Inv (files d)) (\<lambda>d. Inv (files d))"
    for f :: "string \<Rightarrow> (disk, unit) proc"
    by (simp add: triple_def bindM_def)
  then show ?thesis
    unfolding saveParent_def Let_def
    by (intro triple_bind [OF triple_open_trunc [where Q = "\<lambda>d. Inv (files d)"]]) (simp_all add: keep)
qed

section \<open>Appending to the log\<close>

lemma take_append_less: "k < length ys \<Longrightarrow> xs @ take k ys = take (length xs + k) (xs @ ys)"
  by simp

lemma triple_log_write:
  assumes keep: "\<And>f c. Inv f \<Longrightarrow> Inv (f(p := c))" and full: "full = pre @ bs @ post"
  shows "triple (\<lambda>d. Inv (files d) \<and> files d p = Some pre) (write_bytes p bs)
    (\<lambda>_ d. Inv (files d) \<and> files d p = Some (pre @ bs)) (\<lambda>d. Inv (files d) \<and> torn_log full (files d p))"
proof (rule triple_write_bytes)
  fix d :: disk assume "Inv (files d) \<and> files d p = Some pre" and "budget d < length bs"
  moreover from this have "pre @ take (budget d) bs = take (length pre + budget d) full" "length pre + budget d < length full"
    using full by simp_all
  ultimately show "Inv (files (d\<lparr>files := (files d)(p \<mapsto> contents d p @ take (budget d) bs), budget := 0\<rparr>)) \<and>
    torn_log full (files (d\<lparr>files := (files d)(p \<mapsto> contents d p @ take (budget d) bs), budget := 0\<rparr>) p)"
    by (auto simp: contents_def torn_log_def keep)
qed (auto simp: contents_def keep)

lemma triple_append_record:
  assumes keep: "\<And>f c. Inv f \<Longrightarrow> Inv (f(wal_path dir := c))" and full: "full = pre @ log_record t payload @ post"
  shows "triple (\<lambda>d. Inv (files d) \<and> contents d (wal_path dir) = pre) (append_record dir t payload)
    (\<lambda>_ d. Inv (files d) \<and> files d (wal_path dir) = Some (pre @ log_record t payload))
    (\<lambda>d. Inv (files d) \<and> torn_log full (files d (wal_path dir)))"
proof -
  let ?p = "wal_path dir" and ?n = "le_bytes 4 (of_nat (length payload) :: u32)"
  let ?R = "\<lambda>d. Inv (files d) \<and> torn_log full (files d ?p)"
  have torn: "torn_log full (files d ?p)" if "contents d ?p = pre" for d
    using that full by (cases "files d ?p")
      (auto simp: torn_log_def contents_def log_record_def intro!: exI [where x = "length pre"])
  have last: "triple (\<lambda>d. Inv (files d) \<and> files d ?p = Some ((pre @ [record_code t]) @ ?n))
      (if payload \<noteq> [] then write_bytes ?p payload else ret ())
      (\<lambda>_ d. Inv (files d) \<and> files d ?p = Some (pre @ log_record t payload)) ?R"
    using triple_log_write [of Inv ?p full "(pre @ [record_code t]) @ ?n" payload post, OF keep] full
    by (auto simp: log_record_def intro: triple_ret)
  have size: "triple (\<lambda>d. Inv (files d) \<and> files d ?p = Some (pre @ [record_code t])) (write_bytes ?p ?n)
      (\<lambda>_ d. Inv (files d) \<and> files d ?p = Some ((pre @ [record_code t]) @ ?n)) ?R"
    by (rule triple_log_write [where Inv = Inv and p = ?p and post = "payload @ post", OF keep]) (simp_all add: full log_record_def)
  have code: "triple (\<lambda>d. Inv (files d) \<and> files d ?p = Some pre) (write_bytes ?p [record_code t])
      (\<lambda>_ d. Inv (files d) \<and> files d ?p = Some (pre @ [record_code t])) ?R"
    by (rule triple_log_write [where Inv = Inv and p = ?p and post = "?n @ payload @ post", OF keep]) (simp_all add: full log_record_def)
  have start: "triple (\<lambda>d. Inv (files d) \<and> contents d ?p = pre) (open_append ''Cannot open WAL for append: '' ?p)
      (\<lambda>_ d. Inv (files d) \<and> files d ?p = Some pre) ?R"
    by (rule triple_open_append) (auto simp: keep torn)
  show ?thesis
    unfolding append_record_def Let_def
    by (rule triple_bind [OF start] triple_bind [OF code] triple_bind [OF size] last)+
qed

section \<open>The phases of a checkpoint\<close>

lemma checkpoint_log_split:
  "dirty = xs @ t # ys \<Longrightarrow> checkpoint_log dirty =
     blob_log xs @ log_record TableBlob (blob_payload (dt_name t) (dt_image t)) @
     blob_log ys @ log_record Commit (le_bytes 8 (0 :: u64))"
  "checkpoint_log dirty = blob_log dirty @ log_record Commit (le_bytes 8 (0 :: u64)) @ []"
  by (simp_all add: checkpoint_log_def blob_log_def)

lemma staging_uncommitted: "staging dir dirty f0 xs f \<Longrightarrow> uncommitted dir dirty f0 f"
  by (simp add: staging_def uncommitted_def torn_log_def)

lemma logging_uncommitted:
  "logging dir dirty f0 f \<Longrightarrow> torn_log (checkpoint_log dirty) (f (wal_path dir)) \<Longrightarrow> uncommitted dir dirty f0 f"
  by (simp add: logging_def uncommitted_def)

lemma publishing_committed: "publishing dir dirty f0 xs f \<Longrightarrow> committed dir dirty f0 f"
  by (auto simp: publishing_def committed_def mixed_tables_def new_tables_def old_tables_def)

lemma logging_log_upd: "logging dir dirty f0 f \<Longrightarrow> logging dir dirty f0 (f(wal_path dir := c))"
  by (auto simp: logging_def touched_def intro!: framed_upd old_tables_upd staged_upd)

lemma stage_table:
  assumes ck: "checkpointable dirty" and t: "dirty = xs @ t # ys"
  shows "triple (\<lambda>d. staging dir dirty f0 xs (files d)) (save_image (stage_path dir (dt_name t)) (dt_image t))
    (\<lambda>_ d. staging dir dirty f0 (xs @ [t]) (files d)) (\<lambda>d. uncommitted dir dirty f0 (files d))"
proof -
  let ?s = "stage_path dir (dt_name t)"
  have mem: "t \<in> set dirty" "set xs \<subseteq> set dirty" "t \<notin> set xs"
    using ck t by (auto simp: checkpointable_def)
  note dots = checkpointableD(1) [OF ck]
  have ne: "?s \<noteq> table_file_path dir (dt_name u)" if "u \<in> set dirty" for u
    using dots that by simp
  have other: "dt_name u \<noteq> dt_name t" if "u \<in> set xs" for u
    using checkpointableD(3) [OF ck mem(1)] that mem by auto
  have temp: "staging dir dirty f0 xs (f(?s @ ''.tmp'' := c))" if "staging dir dirty f0 xs f" for f c
    using that mem by (auto simp: staging_def touched_paths intro!: framed_upd old_tables_upd staged_upd)
  have dest: "staging dir dirty f0 (xs @ [t]) (f(?s @ ''.tmp'' := None, ?s \<mapsto> dt_image t))"
    if "staging dir dirty f0 xs f" for f
  proof -
    let ?f = "f(?s @ ''.tmp'' := None)"
    have "staging dir dirty f0 xs ?f" using temp that by simp
    then have "framed dir dirty f0 (?f(?s \<mapsto> dt_image t))" "old_tables dir (set dirty) f0 (?f(?s \<mapsto> dt_image t))"
      "staged dir (set xs) (?f(?s \<mapsto> dt_image t))" "(?f(?s \<mapsto> dt_image t)) (wal_path dir) = None"
      using mem ne by (auto simp: staging_def touched_paths dest: other intro!: framed_upd old_tables_upd staged_upd)
    then show ?thesis by (auto simp: staging_def staged_def)
  qed
  show ?thesis
    by (rule triple_weaken [OF triple_save_image [where Inv = "staging dir dirty f0 xs"
            and Inv' = "staging dir dirty f0 (xs @ [t])" and path = ?s]])
      (simp_all add: temp dest staging_uncommitted)
qed

lemma log_table:
  assumes t: "dirty = xs @ t # ys"
  shows "triple (\<lambda>d. logging dir dirty f0 (files d) \<and> contents d (wal_path dir) = blob_log xs)
    (bindM (read_file_bytes (stage_path dir (dt_name t))) (\<lambda>blob. append_table_blob dir (dt_name t) blob))
    (\<lambda>_ d. logging dir dirty f0 (files d) \<and> contents d (wal_path dir) = blob_log (xs @ [t]))
    (\<lambda>d. uncommitted dir dirty f0 (files d))"
proof (rule triple_bind)
  let ?P = "\<lambda>d. logging dir dirty f0 (files d) \<and> contents d (wal_path dir) = blob_log xs"
  have torn: "torn_log (checkpoint_log dirty) (files d (wal_path dir))" if "contents d (wal_path dir) = blob_log xs" for d
    using that checkpoint_log_split(1) [OF t] by (cases "files d (wal_path dir)")
      (auto simp: torn_log_def contents_def log_record_def intro!: exI [where x = "length (blob_log xs)"])
  show "triple ?P (read_file_bytes (stage_path dir (dt_name t))) (\<lambda>blob d. blob = dt_image t \<and> ?P d)
    (\<lambda>d. uncommitted dir dirty f0 (files d))"
    by (rule triple_read_file) (use t torn logging_uncommitted in \<open>auto simp: logging_def staged_def\<close>)
  show "triple (\<lambda>d. blob = dt_image t \<and> ?P d) (append_table_blob dir (dt_name t) blob)
    (\<lambda>_ d. logging dir dirty f0 (files d) \<and> contents d (wal_path dir) = blob_log (xs @ [t]))
    (\<lambda>d. uncommitted dir dirty f0 (files d))" for blob
  proof (cases "blob = dt_image t")
    case True
    show ?thesis
      unfolding append_table_blob_def True
      by (rule triple_weaken [OF triple_append_record [where Inv = "logging dir dirty f0",
              OF logging_log_upd checkpoint_log_split(1) [OF t]]])
        (auto simp: blob_log_def contents_def intro: logging_uncommitted)
  qed (simp add: triple_def)
qed

lemma log_commit:
  "triple (\<lambda>d. logging dir dirty f0 (files d) \<and> contents d (wal_path dir) = blob_log dirty) (append_commit dir 0)
    (\<lambda>_ d. publishing dir dirty f0 [] (files d)) (\<lambda>d. uncommitted dir dirty f0 (files d))"
  unfolding append_commit_def
  by (rule triple_weaken [OF triple_append_record [where Inv = "logging dir dirty f0",
          OF logging_log_upd checkpoint_log_split(2)]])
    (auto simp: checkpoint_log_split(2) logging_def publishing_def new_tables_def intro: logging_uncommitted)

lemma sync_log:
  "triple (\<lambda>d. publishing dir dirty f0 [] (files d)) (sync dir) (\<lambda>_ d. publishing dir dirty f0 [] (files d))
    (\<lambda>d. committed dir dirty f0 (files d))"
proof -
  have "f(wal_path dir \<mapsto> checkpoint_log dirty) = f" if "publishing dir dirty f0 [] f" for f
    using that by (auto simp: publishing_def)
  moreover have "contents d (wal_path dir) = checkpoint_log dirty" if "publishing dir dirty f0 [] (files d)" for d
    using that by (simp add: publishing_def contents_def)
  ultimately have "triple (\<lambda>d. publishing dir dirty f0 [] (files d)) (open_append '''' (wal_path dir))
      (\<lambda>_ d. publishing dir dirty f0 [] (files d)) (\<lambda>d. committed dir dirty f0 (files d))"
    by (intro triple_open_append) (simp_all add: publishing_committed)
  then show ?thesis by (auto simp: triple_def sync_def)
qed

lemma publishing_partition:
  assumes "publishing dir dirty f0 xs f" "t \<in> set dirty" "p \<in> {partition_path dir (dt_name t), partition_path dir (dt_name t) @ ''.tmp''}"
  shows "publishing dir dirty f0 xs (f(p := c))"
  using assms by (auto simp: publishing_def touched_paths intro!: framed_upd new_tables_upd old_tables_upd staged_upd)

lemma publish_one:
  assumes ck: "checkpointable dirty" and t: "dirty = xs @ t # ys"
  shows "triple (\<lambda>d. publishing dir dirty f0 xs (files d)) (publish_table dir t)
    (\<lambda>_ d. publishing dir dirty f0 (xs @ [t]) (files d)) (\<lambda>d. committed dir dirty f0 (files d))"
  unfolding publish_table_def
proof (rule triple_bind)
  let ?s = "stage_path dir (dt_name t)" and ?d = "table_file_path dir (dt_name t)"
  have mem: "t \<in> set dirty" "set xs \<subseteq> set dirty" "t \<notin> set xs"
    using ck t by (auto simp: checkpointable_def)
  have inj: "dt_name u = dt_name t \<longleftrightarrow> u = t" if "u \<in> set dirty" for u
    using checkpointableD(3) [OF ck mem(1)] that by blast
  have dot: "CHR ''.'' \<notin> set (dt_name u)" if "u \<in> set dirty" for u
    using checkpointableD(1) [OF ck] that by blast
  have step: "publishing dir dirty f0 (xs @ [t]) (f(?s := None, ?d \<mapsto> c))"
    if f: "publishing dir dirty f0 xs f" and c: "f ?s = Some c" for f c
  proof -
    have "c = dt_image t" using f c mem by (auto simp: publishing_def staged_def)
    have "framed dir dirty f0 (f(?s := None, ?d \<mapsto> c))"
      using f mem by (auto simp: publishing_def touched_paths intro!: framed_upd)
    moreover have "new_tables dir (set (xs @ [t])) (f(?s := None, ?d \<mapsto> c))"
      using f mem inj dot \<open>c = dt_image t\<close> by (auto simp: publishing_def new_tables_def)
    moreover have "old_tables dir (set dirty - set (xs @ [t])) f0 (f(?s := None, ?d \<mapsto> c))"
      using f mem inj dot by (auto simp: publishing_def old_tables_def)
    moreover have "staged dir (set dirty - set (xs @ [t])) (f(?s := None, ?d \<mapsto> c))"
      using f mem inj dot by (auto simp: publishing_def staged_def)
    ultimately show ?thesis using f by (simp add: publishing_def)
  qed
  show "triple (\<lambda>d. publishing dir dirty f0 xs (files d)) (rename_file ?s ?d)
    (\<lambda>_ d. publishing dir dirty f0 (xs @ [t]) (files d)) (\<lambda>d. committed dir dirty f0 (files d))"
    by (rule triple_rename) (auto intro: step publishing_committed)
  show "triple (\<lambda>d. publishing dir dirty f0 (xs @ [t]) (files d))
    (case dt_partition t of None \<Rightarrow> ret () | Some m \<Rightarrow> saveParent dir (dt_name t) m)
    (\<lambda>_ d. publishing dir dirty f0 (xs @ [t]) (files d)) (\<lambda>d. committed dir dirty f0 (files d))" for x :: unit
  proof (cases "dt_partition t")
    case (Some m)
    then show ?thesis
      using triple_weaken [OF triple_saveParent [where Inv = "publishing dir dirty f0 (xs @ [t])" and dir = dir and n = "dt_name t" and m = m]]
        publishing_partition [OF _ mem(1)] publishing_committed by auto
  qed (simp add: triple_def)
qed

lemma finish_checkpoint:
  "triple (\<lambda>d. publishing dir dirty f0 dirty (files d)) (truncate_log dir)
    (\<lambda>_ d. finished dir dirty f0 (files d)) (\<lambda>d. committed dir dirty f0 (files d))"
  unfolding truncate_log_def remove_file_def
  by (rule triple_set_file)
    (auto simp: publishing_def finished_def touched_def intro!: framed_upd new_tables_upd
      intro: publishing_committed [unfolded publishing_def, simplified])

lemma flush_triple:
  assumes ck: "checkpointable dirty" and start: "f0 (wal_path dir) = None"
  shows "triple (\<lambda>d. files d = f0) (flush_dirty_tables_locked dir dirty)
    (\<lambda>_ d. finished dir dirty f0 (files d)) (\<lambda>d. crash_state dir dirty f0 (files d))"
  unfolding flush_dirty_tables_locked_def
proof (rule triple_bind)
  let ?stage = "\<lambda>t. save_image (stage_path dir (dt_name t)) (dt_image t)"
  let ?log = "\<lambda>t. bindM (read_file_bytes (stage_path dir (dt_name t))) (\<lambda>blob. append_table_blob dir (dt_name t) blob)"
  let ?R = "\<lambda>d. crash_state dir dirty f0 (files d)"
  have 1: "triple (\<lambda>d. staging dir dirty f0 [] (files d)) (forM ?stage dirty)
      (\<lambda>_ d. staging dir dirty f0 dirty (files d)) (\<lambda>d. uncommitted dir dirty f0 (files d))"
    by (rule triple_forM [where I = "\<lambda>xs d. staging dir dirty f0 xs (files d)"]) (rule stage_table [OF ck])
  have 2: "triple (\<lambda>d. logging dir dirty f0 (files d) \<and> contents d (wal_path dir) = blob_log []) (forM ?log dirty)
      (\<lambda>_ d. logging dir dirty f0 (files d) \<and> contents d (wal_path dir) = blob_log dirty) (\<lambda>d. uncommitted dir dirty f0 (files d))"
    by (rule triple_forM [where I = "\<lambda>xs d. logging dir dirty f0 (files d) \<and> contents d (wal_path dir) = blob_log xs"])
      (rule log_table)
  have 3: "triple (\<lambda>d. publishing dir dirty f0 [] (files d)) (forM (publish_table dir) dirty)
      (\<lambda>_ d. publishing dir dirty f0 dirty (files d)) (\<lambda>d. committed dir dirty f0 (files d))"
    by (rule triple_forM [where I = "\<lambda>xs d. publishing dir dirty f0 xs (files d)"]) (rule publish_one [OF ck])
  show "triple (\<lambda>d. files d = f0) (forM ?stage dirty) (\<lambda>_ d. staging dir dirty f0 dirty (files d)) ?R"
    by (rule triple_weaken [OF 1])
      (auto simp: staging_def framed_def old_tables_def staged_def start crash_state_def)
  have "triple (\<lambda>d :: disk. staging dir dirty f0 dirty (files d)) (ret ()) (\<lambda>_ d. finished dir dirty f0 (files d)) ?R" if "dirty = []"
    using that by (auto simp: triple_def staging_def finished_def new_tables_def)
  moreover have "triple (\<lambda>d. staging dir dirty f0 dirty (files d))
      (bindM (forM ?log dirty) (\<lambda>_. bindM (append_commit dir 0) (\<lambda>_. bindM (sync dir) (\<lambda>_.
       bindM (forM (publish_table dir) dirty) (\<lambda>_. truncate_log dir)))))
      (\<lambda>_ d. finished dir dirty f0 (files d)) ?R"
  proof (intro triple_bind)
    show "triple (\<lambda>d. staging dir dirty f0 dirty (files d)) (forM ?log dirty)
      (\<lambda>_ d. logging dir dirty f0 (files d) \<and> contents d (wal_path dir) = blob_log dirty) ?R"
      by (rule triple_weaken [OF 2])
        (auto simp: staging_def logging_def contents_def blob_log_def crash_state_def)
    show "triple (\<lambda>d. logging dir dirty f0 (files d) \<and> contents d (wal_path dir) = blob_log dirty) (append_commit dir 0)
      (\<lambda>_ d. publishing dir dirty f0 [] (files d)) ?R" for x :: unit
      by (rule triple_weaken [OF log_commit]) (auto simp: crash_state_def)
    show "triple (\<lambda>d. publishing dir dirty f0 [] (files d)) (sync dir) (\<lambda>_ d. publishing dir dirty f0 [] (files d)) ?R" for x :: unit
      by (rule triple_weaken [OF sync_log]) (auto simp: crash_state_def)
    show "triple (\<lambda>d. publishing dir dirty f0 [] (files d)) (forM (publish_table dir) dirty)
      (\<lambda>_ d. publishing dir dirty f0 dirty (files d)) ?R" for x :: unit
      by (rule triple_weaken [OF 3]) (auto simp: crash_state_def)
    show "triple (\<lambda>d. publishing dir dirty f0 dirty (files d)) (truncate_log dir) (\<lambda>_ d. finished dir dirty f0 (files d)) ?R" for x :: unit
      by (rule triple_weaken [OF finish_checkpoint]) (auto simp: crash_state_def)
  qed
  ultimately show "triple (\<lambda>d. staging dir dirty f0 dirty (files d))
      (if dirty = [] then ret () else bindM (forM ?log dirty) (\<lambda>_. bindM (append_commit dir 0) (\<lambda>_. bindM (sync dir) (\<lambda>_.
       bindM (forM (publish_table dir) dirty) (\<lambda>_. truncate_log dir)))))
      (\<lambda>_ d. finished dir dirty f0 (files d)) ?R" for x :: unit
    by simp
qed

section \<open>Recovery\<close>

lemma forM_map: "forM f (map g xs) = forM (\<lambda>x. f (g x)) xs"
  by (induction xs) simp_all

lemma restore_one:
  assumes ck: "checkpointable dirty" and t: "dirty = xs @ t # ys"
  shows "triple (\<lambda>d. restoring dir dirty f0 xs (files d)) (restore_blob dir (dt_name t, dt_image t))
    (\<lambda>_ d. restoring dir dirty f0 (xs @ [t]) (files d)) (\<lambda>d. committed dir dirty f0 (files d))"
proof -
  let ?d = "table_file_path dir (dt_name t)"
  have mem: "t \<in> set dirty" "set xs \<subseteq> set dirty" using t by auto
  have inj: "u = t" if "u \<in> set dirty" "dt_name u = dt_name t" for u
    using checkpointableD(3) [OF ck mem(1)] that by blast
  have temp: "restoring dir dirty f0 xs (f(?d @ ''.tmp'' := c))" if "restoring dir dirty f0 xs f" for f c
    using that mem
    by (auto simp: restoring_def committed_def touched_paths intro!: framed_upd mixed_tables_upd new_tables_upd)
  have dest: "restoring dir dirty f0 (xs @ [t]) (f(?d @ ''.tmp'' := None, ?d \<mapsto> dt_image t))"
    if "restoring dir dirty f0 xs f" for f
  proof -
    let ?f = "f(?d @ ''.tmp'' := None)"
    have "restoring dir dirty f0 xs ?f" using temp that by simp
    then have "framed dir dirty f0 (?f(?d \<mapsto> dt_image t))" "mixed_tables dir (set dirty) f0 (?f(?d \<mapsto> dt_image t))"
      "(?f(?d \<mapsto> dt_image t)) (wal_path dir) = Some (checkpoint_log dirty)"
      using mem inj by (auto simp: restoring_def committed_def touched_paths intro!: framed_upd mixed_tables_publish)
    moreover have "new_tables dir (set (xs @ [t])) (?f(?d \<mapsto> dt_image t))"
      using \<open>restoring dir dirty f0 xs ?f\<close> mem inj by (fastforce simp: restoring_def new_tables_def)
    ultimately show ?thesis by (simp add: restoring_def committed_def)
  qed
  show ?thesis
    unfolding restore_blob_def Let_def fst_conv snd_conv
    by (rule triple_weaken [OF triple_replace_file [where Inv = "restoring dir dirty f0 xs"
            and Inv' = "restoring dir dirty f0 (xs @ [t])" and path = ?d]])
      (simp_all add: temp dest, simp add: restoring_def)
qed

lemma recover_committed:
  assumes ck: "checkpointable dirty"
  shows "triple (\<lambda>d. committed dir dirty f0 (files d)) (recover dir)
    (\<lambda>_ d. finished dir dirty f0 (files d)) (\<lambda>d. committed dir dirty f0 (files d))"
proof -
  let ?restore = "forM (restore_blob dir) (map (\<lambda>t. (dt_name t, dt_image t)) dirty)"
  have scan: "scan_log (checkpoint_log dirty) empty_scan =
      \<lparr>pending = map (\<lambda>t. (dt_name t, dt_image t)) dirty, saw_commit = True, saw_done = False\<rparr>"
    using ck by (simp add: scan_checkpoint checkpointable_def empty_scan_def)
  have 1: "triple (\<lambda>d. restoring dir dirty f0 [] (files d)) ?restore
      (\<lambda>_ d. restoring dir dirty f0 dirty (files d)) (\<lambda>d. committed dir dirty f0 (files d))"
    unfolding forM_map
    by (rule triple_forM [where I = "\<lambda>xs d. restoring dir dirty f0 xs (files d)"]) (rule restore_one [OF ck])
  have 2: "triple (\<lambda>d. restoring dir dirty f0 dirty (files d)) (truncate_log dir)
      (\<lambda>_ d. finished dir dirty f0 (files d)) (\<lambda>d. committed dir dirty f0 (files d))"
    unfolding truncate_log_def remove_file_def
    by (rule triple_set_file)
      (auto simp: restoring_def committed_def finished_def touched_def intro!: framed_upd new_tables_upd)
  have 3: "triple (\<lambda>d. committed dir dirty f0 (files d)) (bindM ?restore (\<lambda>_. truncate_log dir))
      (\<lambda>_ d. finished dir dirty f0 (files d)) (\<lambda>d. committed dir dirty f0 (files d))"
    by (rule triple_bind [OF triple_weaken [OF 1] 2]) (auto simp: restoring_def new_tables_def)
  show ?thesis
    unfolding triple_def
  proof (intro allI impI)
    fix d :: disk assume d: "committed dir dirty f0 (files d)"
    then have "recover dir d = (if denied d (wal_path dir)
        then (Inl (StorageException (''Cannot open WAL for recovery: '' @ wal_path dir)), d)
        else bindM ?restore (\<lambda>_. truncate_log dir) d)"
      by (simp add: recover_def committed_def scan)
    then show "case recover dir d of (Inr x, t) \<Rightarrow> finished dir dirty f0 (files t) | (Inl e, t) \<Rightarrow> committed dir dirty f0 (files t)"
      using 3 d by (auto simp: triple_def)
  qed
qed

lemma recover_uncommitted:
  assumes ck: "checkpointable dirty"
  shows "triple (\<lambda>d. uncommitted dir dirty f0 (files d)) (recover dir)
    (\<lambda>_ d. uncommitted dir dirty f0 (files d) \<and> files d (wal_path dir) = None) (\<lambda>d. uncommitted dir dirty f0 (files d))"
proof -
  have 1: "triple (\<lambda>d. uncommitted dir dirty f0 (files d)) (truncate_log dir)
      (\<lambda>_ d. uncommitted dir dirty f0 (files d) \<and> files d (wal_path dir) = None) (\<lambda>d. uncommitted dir dirty f0 (files d))"
    unfolding truncate_log_def remove_file_def
    by (rule triple_set_file)
      (auto simp: uncommitted_def touched_def torn_log_def intro!: framed_upd old_tables_upd)
  show ?thesis
    unfolding triple_def
  proof (intro allI impI)
    fix d :: disk assume d: "uncommitted dir dirty f0 (files d)"
    consider "files d (wal_path dir) = None"
      | k where "k < length (checkpoint_log dirty)" "files d (wal_path dir) = Some (take k (checkpoint_log dirty))"
      using d by (auto simp: uncommitted_def torn_log_def)
    then show "case recover dir d of
      (Inr x, t) \<Rightarrow> uncommitted dir dirty f0 (files t) \<and> files t (wal_path dir) = None
      | (Inl e, t) \<Rightarrow> uncommitted dir dirty f0 (files t)"
    proof cases
      case 1
      then show ?thesis using d by (simp add: recover_def)
    next
      case 2
      have "\<not> saw_commit (scan_log (take k (checkpoint_log dirty)) empty_scan)"
        using ck 2(1) by (intro scan_partial_checkpoint) (auto simp: checkpointable_def empty_scan_def)
      then have "recover dir d = (if denied d (wal_path dir)
          then (Inl (StorageException (''Cannot open WAL for recovery: '' @ wal_path dir)), d)
          else truncate_log dir d)"
        using 2(2) by (simp add: recover_def bindM_def)
      then show ?thesis using 1 d by (auto simp: triple_def)
    qed
  qed
qed

section \<open>Restarts\<close>

lemma failed_recovery_step:
  assumes ck: "checkpointable dirty" and f: "crash_state dir dirty f0 f" and step: "failed_recovery dir f f'"
  shows "(committed dir dirty f0 f \<longrightarrow> committed dir dirty f0 f') \<and> (uncommitted dir dirty f0 f \<longrightarrow> uncommitted dir dirty f0 f') \<and>
    \<not> finished dir dirty f0 f"
proof -
  from step obtain d e d' where d: "files d = f" "recover dir d = (Inl e, d')" "files d' = f'"
    by (auto simp: failed_recovery_def)
  have "f (wal_path dir) \<noteq> None" using d by (cases "f (wal_path dir)") (auto simp: recover_def)
  then show ?thesis
    using triple_Inl [OF recover_committed [OF ck, of dir f0] _ d(2)] triple_Inl [OF recover_uncommitted [OF ck, of dir f0] _ d(2)]
      d by (auto simp: finished_def)
qed

lemma failed_recoveries:
  assumes ck: "checkpointable dirty" and steps: "(failed_recovery dir)\<^sup>*\<^sup>* f f'"
  shows "(finished dir dirty f0 f \<longrightarrow> finished dir dirty f0 f') \<and> (committed dir dirty f0 f \<longrightarrow> committed dir dirty f0 f') \<and>
    (uncommitted dir dirty f0 f \<longrightarrow> uncommitted dir dirty f0 f')"
  using steps
proof induction
  case (step g h)
  then show ?case
    using failed_recovery_step [OF ck _ step.hyps(2), of f0] by (auto simp: crash_state_def)
qed simp

lemma recover_finished:
  "files d (wal_path dir) = None \<Longrightarrow> recover dir d = (Inr (), d)"
  by (simp add: recover_def)

section \<open>Recovery returns\<close>

lemma restore_returns:
  assumes "\<forall>p. \<not> denied d p" "length (snd item) + 2 \<le> budget d"
  shows "\<exists>d'. restore_blob dir item d = (Inr (), d') \<and> budget d' = budget d - (length (snd item) + 2) \<and> denied d' = denied d"
  using assms
  by (simp add: restore_blob_def Let_def bindM_def open_trunc_def set_file_def tick_def write_bytes_def rename_file_def
      contents_def)

lemma restores_return:
  assumes "\<forall>p. \<not> denied d p" "sum_list (map (\<lambda>item. length (snd item) + 2) items) < budget d"
  shows "\<exists>d'. forM (restore_blob dir) items d = (Inr (), d') \<and> 0 < budget d' \<and> denied d' = denied d"
  using assms
proof (induction items arbitrary: d)
  case (Cons item items)
  then obtain d1 where d1: "restore_blob dir item d = (Inr (), d1)" "budget d1 = budget d - (length (snd item) + 2)" "denied d1 = denied d"
    using restore_returns [of d item dir] by auto
  with Cons.prems have "\<forall>p. \<not> denied d1 p" "sum_list (map (\<lambda>item. length (snd item) + 2) items) < budget d1" by auto
  from Cons.IH [OF this] d1 show ?case by (auto simp: bindM_def)
qed simp

lemma recover_returns:
  "\<exists>n. \<forall>d. files d = f \<and> n \<le> budget d \<and> (\<forall>p. \<not> denied d p) \<longrightarrow> (\<exists>d'. recover dir d = (Inr (), d'))"
proof (cases "f (wal_path dir)")
  case None
  then show ?thesis by (auto simp: recover_def)
next
  case (Some bs)
  let ?st = "scan_log bs empty_scan"
  let ?items = "if saw_commit ?st \<and> \<not> saw_done ?st then pending ?st else []"
  let ?n = "Suc (sum_list (map (\<lambda>item. length (snd item) + 2) ?items))"
  have "\<exists>d'. recover dir d = (Inr (), d')" if d: "files d = f" "?n \<le> budget d" "\<forall>p. \<not> denied d p" for d :: disk
  proof -
    obtain d1 where d1: "forM (restore_blob dir) ?items d = (Inr (), d1)" "0 < budget d1"
      using restores_return [OF d(3), of ?items dir] d(2) by auto
    have "recover dir d = bindM (forM (restore_blob dir) ?items) (\<lambda>_. truncate_log dir) d"
      using Some d(1,3) by (simp add: recover_def Let_def)
    with d1 show ?thesis
      by (simp add: bindM_def truncate_log_def remove_file_def set_file_def tick_def)
  qed
  then show ?thesis by blast
qed

section \<open>Properties\<close>

lemma other_table_untouched:
  assumes "framed dir dirty f0 f" "n \<notin> dt_name ` set dirty" "CHR ''.'' \<notin> set n"
  shows "f (table_file_path dir n) = f0 (table_file_path dir n)"
proof -
  have "table_file_path dir n \<notin> touched dir dirty"
    using assms(2,3) by (auto simp: touched_def Let_def)
  with assms(1) show ?thesis by (simp add: framed_def)
qed

lemma recovered:
  assumes ck: "checkpointable dirty" and f: "crash_state dir dirty f0 (files d)" and r: "recover dir d = (Inr (), d')"
  shows "framed dir dirty f0 (files d')" "files d' (wal_path dir) = None"
    "uncommitted dir dirty f0 (files d) \<and> old_tables dir (set dirty) f0 (files d') \<or>
     \<not> uncommitted dir dirty f0 (files d) \<and> new_tables dir (set dirty) (files d')"
proof -
  consider (u) "uncommitted dir dirty f0 (files d)"
    | (c) "\<not> uncommitted dir dirty f0 (files d)" "committed dir dirty f0 (files d)"
    | (x) "\<not> uncommitted dir dirty f0 (files d)" "finished dir dirty f0 (files d)"
    using f by (auto simp: crash_state_def)
  then have "framed dir dirty f0 (files d') \<and> files d' (wal_path dir) = None \<and>
    (uncommitted dir dirty f0 (files d) \<and> old_tables dir (set dirty) f0 (files d') \<or>
     \<not> uncommitted dir dirty f0 (files d) \<and> new_tables dir (set dirty) (files d'))"
  proof cases
    case u
    then show ?thesis using triple_Inr [OF recover_uncommitted [OF ck] u r] by (simp add: uncommitted_def)
  next
    case c
    then show ?thesis using triple_Inr [OF recover_committed [OF ck] c(2) r] by (simp add: finished_def)
  next
    case x
    then have "d' = d" using r by (auto simp: finished_def recover_def)
    with x show ?thesis by (simp add: finished_def)
  qed
  then show "framed dir dirty f0 (files d')" "files d' (wal_path dir) = None"
    "uncommitted dir dirty f0 (files d) \<and> old_tables dir (set dirty) f0 (files d') \<or>
     \<not> uncommitted dir dirty f0 (files d) \<and> new_tables dir (set dirty) (files d')" by blast+
qed

text \<open>C2: A checkpoint is atomic. Let a checkpoint of any tables start without a log and be stopped after any number
  of elementary file effects, or fail, or return; let recovery then be started any number of times and stopped or
  fail again, each time after any number of effects. From the files this leaves, recovery returns when it is given
  enough effects and no file is denied, and whenever it returns the files of the checkpointed tables are all as
  before the checkpoint or all as the checkpoint meant them, they are the new ones if the checkpoint had returned, the
  log is gone, and no other table file has changed.
\<close>

theorem wal_crash_atomic:
  assumes "checkpointable dirty" "files d0 (wal_path dir) = None"
    and "flush_dirty_tables_locked dir dirty d0 = (out, d1)" "(failed_recovery dir)\<^sup>*\<^sup>* (files d1) f"
  shows "(\<exists>n. \<forall>d. files d = f \<and> n \<le> budget d \<and> (\<forall>p. \<not> denied d p) \<longrightarrow> (\<exists>d'. recover dir d = (Inr (), d'))) \<and>
    (\<forall>d d'. files d = f \<and> recover dir d = (Inr (), d') \<longrightarrow>
       (out \<noteq> Inr () \<and>
          (\<forall>t \<in> set dirty. files d' (table_file_path dir (dt_name t)) = files d0 (table_file_path dir (dt_name t))) \<or>
        (\<forall>t \<in> set dirty. files d' (table_file_path dir (dt_name t)) = Some (dt_image t))) \<and>
       files d' (wal_path dir) = None \<and>
       (\<forall>n. n \<notin> dt_name ` set dirty \<and> CHR ''.'' \<notin> set n \<longrightarrow>
          files d' (table_file_path dir n) = files d0 (table_file_path dir n)))"
proof (intro conjI recover_returns allI impI)
  fix d d' assume r: "files d = f \<and> recover dir d = (Inr (), d')"
  let ?f0 = "files d0"
  note flush = flush_triple [of dirty ?f0 dir, OF assms(1,2)]
  have fin: "finished dir dirty ?f0 (files d1)" if "out = Inr ()"
    using triple_Inr [OF flush refl] assms(3) that by blast
  have "crash_state dir dirty ?f0 (files d1)"
  proof (cases out)
    case (Inl e)
    then show ?thesis using triple_Inl [OF flush refl] assms(3) by blast
  qed (use fin in \<open>simp add: crash_state_def\<close>)
  with failed_recoveries [OF assms(1,4), of ?f0] fin r
  have st: "crash_state dir dirty ?f0 (files d)" "out = Inr () \<Longrightarrow> finished dir dirty ?f0 (files d)"
    by (auto simp: crash_state_def)
  note rec = recovered [OF assms(1) st(1) conjunct2 [OF r]]
  have new: "new_tables dir (set dirty) (files d')" if "out = Inr ()"
  proof -
    have "finished dir dirty ?f0 (files d)" by (rule st(2) [OF that])
    then show ?thesis using r by (auto simp: finished_def recover_def)
  qed
  show "out \<noteq> Inr () \<and>
          (\<forall>t \<in> set dirty. files d' (table_file_path dir (dt_name t)) = files d0 (table_file_path dir (dt_name t))) \<or>
        (\<forall>t \<in> set dirty. files d' (table_file_path dir (dt_name t)) = Some (dt_image t))"
    using rec(3) new by (auto simp: old_tables_def new_tables_def)
  show "files d' (wal_path dir) = None" by (rule rec(2))
  show "files d' (table_file_path dir n) = files d0 (table_file_path dir n)"
    if "n \<notin> dt_name ` set dirty \<and> CHR ''.'' \<notin> set n" for n
    using other_table_untouched [OF rec(1)] that by blast
qed

theorem wal_crash_atomic_witness:
  "\<exists>n d'. recover ''d'' (snd (flush_dirty_tables_locked ''d'' two_dirty (empty_disk 44))
       \<lparr>budget := n, denied := \<lambda>_. False\<rparr>) = (Inr (), d') \<and>
     (files d' (table_file_path ''d'' ''a'') = None \<and> files d' (table_file_path ''d'' ''b'') = None \<or>
      files d' (table_file_path ''d'' ''a'') = Some [1, 2] \<and> files d' (table_file_path ''d'' ''b'') = Some [3]) \<and>
     files d' (wal_path ''d'') = None"
proof -
  obtain out d1 where run: "flush_dirty_tables_locked ''d'' two_dirty (empty_disk 44) = (out, d1)" by fastforce
  have ck: "checkpointable two_dirty" by (simp add: checkpointable_def two_dirty_def fits_log_def)
  have none: "files (empty_disk 44) p = None" for p by (simp add: empty_disk_def)
  note atomic = wal_crash_atomic [OF ck none run rtranclp.rtrancl_refl]
  obtain n where "\<forall>d. files d = files d1 \<and> n \<le> budget d \<and> (\<forall>p. \<not> denied d p) \<longrightarrow> (\<exists>d'. recover ''d'' d = (Inr (), d'))"
    using atomic by blast
  then obtain d' where d': "recover ''d'' (d1\<lparr>budget := n, denied := \<lambda>_. False\<rparr>) = (Inr (), d')"
    by fastforce
  have "files (d1\<lparr>budget := n, denied := \<lambda>_. False\<rparr>) = files d1" by simp
  with conjunct2 [OF atomic, THEN spec, THEN spec, THEN mp, OF conjI [OF _ d']]
  have "(\<forall>t \<in> set two_dirty. files d' (table_file_path ''d'' (dt_name t)) = None) \<or>
      (\<forall>t \<in> set two_dirty. files d' (table_file_path ''d'' (dt_name t)) = Some (dt_image t))"
    "files d' (wal_path ''d'') = None" unfolding none by blast+
  with d' run show ?thesis by (auto simp: two_dirty_def)
qed

lemma scan_log_done: "saw_done st \<Longrightarrow> saw_done (scan_log bs st)"
proof (induction bs st rule: scan_log.induct)
  case (1 bs st)
  have "saw_done (apply_record t p st)" for t p using 1(2) by (auto simp: apply_record_def split: option.splits)
  with 1 show ?case by (subst scan_log.simps) (auto simp: Let_def split: list.splits)
qed

text \<open>A Done record disables everything behind it: the flag it sets is never reset, so recovery deletes a log that
  starts with one without restoring the checkpoints committed after it.\<close>

theorem done_hides_checkpoints:
  assumes "files d (wal_path dir) = Some (log_record Done [] @ bs)" "\<not> denied d (wal_path dir)" "budget d = Suc n"
  shows "recover dir d = (Inr (), d\<lparr>budget := n, files := (files d)(wal_path dir := None)\<rparr>)"
proof -
  have "saw_done (scan_log (log_record Done [] @ bs) empty_scan)"
    using scan_log_record [of "[]" Done bs empty_scan] by (simp add: scan_log_done apply_record_def)
  then show ?thesis
    using assms by (simp add: recover_def bindM_def truncate_log_def remove_file_def set_file_def tick_def)
qed

end
