(* ===== verification/Spec2Isabelle.thy ===== *)
theory Spec2Isabelle
  imports Heap Mvcc Locks Lexing Joins Queries Wal
begin

text \<open>
  Verification of NoBugDB, a SQL database in C++17. Paths are relative to the repository; \<^verbatim>\<open>core/\<close>, \<^verbatim>\<open>executor/\<close>,
  \<^verbatim>\<open>parser/\<close>, \<^verbatim>\<open>storage/\<close> and \<^verbatim>\<open>types/\<close> below stand for the directories of that name under \<^verbatim>\<open>src/\<close> and \<^verbatim>\<open>include/\<close>.

  \<^bold>\<open>The program.\<close> A statement enters as text. The lexer turns it into tokens and the parser into trees; SELECT trees
  are checked, planned and executed over the rows of the tables, through scans, joins, grouping, windows, sorting and
  set operations, with expressions evaluated row by row and subqueries run through callbacks. A table keeps its rows
  as versions in a heap file: tuples in slotted pages, reached through a buffer pool, with B-tree indexes on the side.
  A transaction manager decides which versions a session sees and which may be collected, a lock manager orders
  writers. At a checkpoint the dirty tables are written through a write-ahead log, which is replayed at the next start.

  \<^bold>\<open>Conventions.\<close> Exceptions are values of \<open>db_error\<close>; a fallible function returns \<open>'a result\<close>, a fallible method on a
  state \<open>'s\<close> is an \<open>('s, 'a) proc\<close>, which returns the state it reached also when an exception leaves it. What C++ leaves
  undefined, such as an access past the end of a vector, is the error \<open>UndefinedBehaviour\<close>. Integers that can wrap
  are words of their width; \<open>double\<close> is its 64-bit pattern with exact, then rounded, arithmetic. Counters that cannot
  reach their bound in memory (\<open>pin_count\<close>, \<open>affected_rows\<close>, lines and columns of the lexer) are unbounded. Mutexes
  make methods atomic, so concurrency appears as arbitrary sequences of method calls. Code outside the repository is
  a parameter: \<open>std::hash\<close> and the order inside a hash bucket, the clock's date, the file system's decisions.

  \<^bold>\<open>Theories, from the bottom.\<close>
  \<^item> \<open>Prelude\<close>: errors, procedures, words, bytes and little-endian codecs. \<open>Doubles\<close>: IEEE binary64 and its text formats; the search
    for a decimal exponent takes at most 400 steps, more than the 324 of the smallest double.
    \<open>Key_Orders\<close>: the locale \<open>key_order\<close> of strict total orders and sorted association lists, interpreted on values,
    index keys, rows and ORDER BY keys. \<open>Sorting\<close>: the standard sorts, with the locale \<open>weak_order\<close>.
  \<^item> \<open>Values\<close> (\<^verbatim>\<open>types/\<close>) and \<open>Rows\<close> (\<^verbatim>\<open>core/row.cc\<close>, \<^verbatim>\<open>core/column.cc\<close>, \<^verbatim>\<open>storage/page_format.cc\<close>): values, comparison,
    arithmetic and the codecs of values and tuples. The codecs invert each other; comparison is a total order on the
    values of one type other than FLOAT; the text formats of INT and BOOLEAN read back; the length check of strings
    is wrong from \<open>2 ^ 32 - 5\<close> on.
  \<^item> \<open>Pages\<close> (\<^verbatim>\<open>storage/page.cc\<close>): the 8192 bytes of a page with header and slot directory, invariant \<open>wf_page\<close>; every
    operation refines one on the list of slots \<open>page_view\<close>. The locale \<open>slotted_page\<close> is that contract.
  \<^item> \<open>Buffer\<close> (\<^verbatim>\<open>storage/page_store.cc\<close>, \<^verbatim>\<open>storage/buffer_pool.cc\<close>): frames, clock replacement, write-back. The abstract
    state is \<open>current\<close>, the bytes a reader of a page gets; the locale \<open>page_cache\<close> is the contract of \<open>IBufferPool\<close>.
    The clock scan looks at each frame at most twice, which finds a victim whenever a frame is unpinned.
  \<^item> \<open>Heap\<close> (\<^verbatim>\<open>storage/heap_file.cc\<close>): insert, get, update, delete and scan refine a map from item pointers to tuples,
    through \<open>page_cache\<close> and \<open>slotted_page\<close>, exceptions included; updating with an oversized row loses the old one.
  \<^item> \<open>Btree\<close> (\<^verbatim>\<open>core/btree_index.cc\<close>, \<^verbatim>\<open>core/index_key.cc\<close>): nodes, splits, removal and lookups. \<open>wf_node\<close> states degrees
    and depth, with 15 the least number of keys of a node below the root, \<open>entries\<close> the sorted contents. Insertion
    refines \<open>upsert\<close>, lookups are complete, the depth is logarithmic in the number of keys, and removal is exact
    unless a separator disappears, in which case it loses the keys to the right of it.
  \<^item> \<open>Mvcc\<close> (\<^verbatim>\<open>core/transaction_manager.cc\<close>, the version loops of \<^verbatim>\<open>core/table.cc\<close>, BEGIN of \<^verbatim>\<open>core/database.cc\<close>): histories
    of begin, commit and abort. Visibility is snapshot isolation until the 64-bit ids run out; freezing changes no read; vacuuming changes none as
    long as the deleter of a version is active in no registered snapshot, and does lose visible versions otherwise.
  \<^item> \<open>Locks\<close> (\<^verbatim>\<open>core/lock_manager.cc\<close>): queues, grants and the wait-for graph; mutual exclusion, and no cycle of waiting
    transactions in any history. The cycle test runs with the number of entries of the wait-for map
    plus two as its recursion depth, shown sufficient.
  \<^item> \<open>Tokens\<close> and \<open>Lexing\<close> (\<^verbatim>\<open>parser/token.cc\<close>, \<^verbatim>\<open>parser/lexer.cc\<close>): the scanner is total up to one exception and
    inverts the rendering of tokens; its line and column counters drift.
  \<^item> \<open>Syntax_Trees\<close> (\<^verbatim>\<open>parser/ast.cc\<close>) and \<open>Evaluator\<close> (\<^verbatim>\<open>executor/select_expression_evaluator.cc\<close>, \<^verbatim>\<open>scalar_function.cc\<close>,
    \<^verbatim>\<open>core/correlation_context.cc\<close>): expressions, WHERE and CHECK conditions. Static types are respected, WHERE and CHECK
    agree without NULL, CHECK is characterised with NULL, and an exception in a subquery leaks its frame. The argument
    \<open>depth\<close> bounds the nesting of user functions as the C++ stack does; the theorems hold for every depth.
  \<^item> \<open>Operators\<close>, \<open>Joins\<close> and \<open>Queries\<close> (\<^verbatim>\<open>executor/\<close>): DISTINCT, ORDER BY, LIMIT, set operations, the join loops and the
    hash join, grouping, aggregates, windows, projection and the pipeline. On rows without doubles the set operations compute
    the sets they name, the pipeline returns a slice of the sorted, deduplicated rows and the hash join agrees with
    the nested loop except on NULL keys; the outer joins extend the inner join.
  \<^item> \<open>Partitions\<close> (\<^verbatim>\<open>core/partition.cc\<close>, \<^verbatim>\<open>executor/index_predicate.cc\<close>, \<^verbatim>\<open>executor/partition_prune.cc\<close>): partitions never
    overlap, routing is exact, and pruning keeps every partition holding an accepted row when the literals have the type of the key.
  \<^item> \<open>Files\<close> and \<open>Wal\<close> (\<^verbatim>\<open>storage/wal_manager.cc\<close>, the file protocol of \<^verbatim>\<open>storage/persistence_manager.cc\<close>,
    \<^verbatim>\<open>core/partition_catalog.cc\<close>, the checkpoint of \<^verbatim>\<open>core/database.cc\<close>): files under process crashes, as Hoare triples with
    a crash condition. \<open>budget\<close> is the number of effects left before the process stops, universally quantified; a
    checkpoint that starts without a log is atomic whatever it is, and recovery returns once it is large enough.

  \<^bold>\<open>Not modelled.\<close> The parser (\<^verbatim>\<open>parser/parser.cc\<close>), statement dispatch, DDL, DML and constraint checking
  (\<^verbatim>\<open>core/database.cc\<close>, \<^verbatim>\<open>core/table.cc\<close>, \<^verbatim>\<open>executor/ddl_executor.cc\<close>), views, triggers and stored routines: they work
  through the whole database object. The planner's cost estimates, whose choice of a join method is an argument here.
  The encoding and loading of table files, \<open>FilePageStore\<close>, backup, sharding, the network, sessions, passwords, the
  command line and logging: input and output around the engine. The ROLLBACK after a COMMIT whose persist step failed
  is not a step of the transaction histories. Lookups of join partners through an index are not modelled either.
\<close>

end
